(* ===== verification/Prelude.thy ===== *)
theory Prelude
  imports Main "HOL-Library.Word" "HOL-Library.Char_ord" "HOL-Library.List_Lexorder"
    "HOL-Library.AList"
begin

text \<open>
  What every component of the development shares: the outcomes a C++ statement can have
  besides returning (exceptions, \<open>std::terminate\<close>, undefined behaviour, blocking on a
  condition variable), bounds-checked byte copies, the collections of simplification rules,
  and generic lemmas on lists and on reading a list cyclically.
\<close>

named_theorems wf_intros \<open>well-formedness is preserved\<close>
named_theorems model_simps \<open>characteristic equations of the model's operations\<close>

type_synonym byte = "8 word"

section \<open>Outcomes of C++ code\<close>

text \<open>
  The ways a call can fail: \<open>std::runtime_error\<close> with its message, the exceptions of
  \<open>std::stoi\<close> and \<open>std::string::substr\<close>, \<open>std::terminate\<close> (which the runtime calls when
  a joinable \<open>std::thread\<close> is destroyed, or an exception leaves a thread's function), and
  undefined behaviour, with a description of the operation that has no defined result.
\<close>

datatype cpp_error =
    Runtime_Error string
  | Invalid_Argument
  | Out_Of_Range
  | Terminate
  | Undefined string

type_synonym 'a result = "cpp_error + 'a"

fun bind_result :: "'a result \<Rightarrow> ('a \<Rightarrow> 'b result) \<Rightarrow> 'b result" where
  "bind_result (Inl e) f = Inl e"
| "bind_result (Inr x) f = f x"

lemma bind_result_Inr_iff:
  "bind_result r f = Inr y \<longleftrightarrow> (\<exists>x. r = Inr x \<and> f x = Inr y)"
  by (cases r) auto

lemma bind_result_Inl_iff:
  "bind_result r f = Inl e \<longleftrightarrow> r = Inl e \<or> (\<exists>x. r = Inr x \<and> f x = Inl e)"
  by (cases r) auto

text \<open>
  A call made under a mutex may also have to wait on a condition variable: \<open>Wait\<close> is the
  state in which the thread is blocked with the object unchanged.
\<close>

datatype 'a outcome = Done 'a | Wait | Fail cpp_error

section \<open>Byte buffers\<close>

text \<open>
  \<open>memcpy\<close> into a fixed array at an offset: writing past the end is undefined behaviour.
\<close>

definition memcpy_at :: "'a list \<Rightarrow> nat \<Rightarrow> 'a list \<Rightarrow> 'a list result" where
  "memcpy_at buf off bs =
     (if off + length bs \<le> length buf
      then Inr (take off buf @ bs @ drop (off + length bs) buf)
      else Inl (Undefined ''write past the end of a buffer''))"

lemma memcpy_at_ok [simp]:
  "off + length bs \<le> length buf \<Longrightarrow>
   memcpy_at buf off bs = Inr (take off buf @ bs @ drop (off + length bs) buf)"
  by (simp add: memcpy_at_def)

lemma memcpy_at_overflow:
  "length buf < off + length bs \<Longrightarrow>
   memcpy_at buf off bs = Inl (Undefined ''write past the end of a buffer'')"
  by (simp add: memcpy_at_def)

lemma memcpy_at_length: "memcpy_at buf off bs = Inr buf' \<Longrightarrow> length buf' = length buf"
  by (auto simp: memcpy_at_def split: if_splits)

text \<open>Reading one element of an array.\<close>

definition read_at :: "'a list \<Rightarrow> nat \<Rightarrow> 'a result" where
  "read_at bs i = (if i < length bs then Inr (bs ! i)
                   else Inl (Undefined ''read past the end of a buffer''))"

lemma read_at_ok [simp]: "i < length bs \<Longrightarrow> read_at bs i = Inr (bs ! i)"
  by (simp add: read_at_def)

section \<open>Cyclic reads\<close>

text \<open>The \<open>k\<close> elements of a ring that start at index \<open>p\<close>.\<close>

definition ring_slice :: "'a list \<Rightarrow> nat \<Rightarrow> nat \<Rightarrow> 'a list" where
  "ring_slice xs p k = map (\<lambda>i. xs ! ((p + i) mod length xs)) [0..<k]"

lemma ring_slice_0 [simp]: "ring_slice xs p 0 = []"
  by (simp add: ring_slice_def)

lemma length_ring_slice [simp]: "length (ring_slice xs p k) = k"
  by (simp add: ring_slice_def)

lemma ring_slice_Suc_front:
  assumes "p < length xs"
  shows "ring_slice xs p (Suc k) = xs ! p # ring_slice xs (Suc p mod length xs) k"
proof -
  have "[0..<Suc k] = 0 # map Suc [0..<k]"
    by (simp add: map_Suc_upt upt_conv_Cons del: upt_Suc)
  then show ?thesis
    using assms by (simp add: ring_slice_def mod_add_left_eq del: upt_Suc)
qed

lemma ring_slice_Suc_back:
  "ring_slice xs p (Suc k) = ring_slice xs p k @ [xs ! ((p + k) mod length xs)]"
  by (simp add: ring_slice_def)

text \<open>Writing a cell outside the slice does not change it.\<close>

lemma ring_slice_update:
  assumes "\<And>i. i < k \<Longrightarrow> (p + i) mod length xs \<noteq> j"
  shows "ring_slice (xs[j := x]) p k = ring_slice xs p k"
  using assms by (auto simp: ring_slice_def intro!: nth_list_update_neq) (metis)

text \<open>The distance from \<open>p\<close> forwards to \<open>w\<close> on a ring of \<open>n\<close> cells.\<close>

definition ring_dist :: "nat \<Rightarrow> nat \<Rightarrow> nat \<Rightarrow> nat" where
  "ring_dist n p w = (if p \<le> w then w - p else n + w - p)"

lemma ring_dist_less: "p < n \<Longrightarrow> w < n \<Longrightarrow> ring_dist n p w < n"
  by (auto simp: ring_dist_def)

lemma ring_dist_self [simp]: "ring_dist n p p = 0"
  by (simp add: ring_dist_def)

lemma ring_dist_eq_0: "p < n \<Longrightarrow> w < n \<Longrightarrow> ring_dist n p w = 0 \<longleftrightarrow> p = w"
  by (auto simp: ring_dist_def)

lemma Suc_mod_cases:
  "p < (n::nat) \<Longrightarrow> Suc p mod n = (if Suc p = n then 0 else Suc p)"
  by auto

lemma ring_dist_add:
  assumes "p < n" "w < n"
  shows "(p + ring_dist n p w) mod n = w"
proof (cases "p \<le> w")
  case True
  with assms show ?thesis by (simp add: ring_dist_def)
next
  case False
  then have "p + ring_dist n p w = n + w" using assms by (simp add: ring_dist_def)
  with assms show ?thesis by simp
qed

lemma ring_dist_step_write:
  assumes "p < n" "w < n" "p \<noteq> Suc w mod n"
  shows "ring_dist n p (Suc w mod n) = Suc (ring_dist n p w)"
  using assms by (auto simp: ring_dist_def Suc_mod_cases split: if_splits)

lemma ring_dist_step_read:
  assumes "p < n" "w < n" "p \<noteq> w"
  shows "Suc (ring_dist n (Suc p mod n) w) = ring_dist n p w"
  using assms by (auto simp: ring_dist_def Suc_mod_cases split: if_splits)

lemma ring_dist_full:
  assumes "w < n"
  shows "ring_dist n (Suc w mod n) w = n - 1"
  using assms by (auto simp: ring_dist_def Suc_mod_cases)

lemma ring_cell_free:
  assumes "p < n" "w < n" "i < ring_dist n p w"
  shows "(p + i) mod n \<noteq> w"
proof (cases "p + i < n")
  case True
  with assms show ?thesis by (auto simp: ring_dist_def split: if_splits)
next
  case False
  then have "(p + i) mod n = p + i - n"
    using assms ring_dist_less [of p n w] by (simp add: mod_if)
  with assms False show ?thesis by (auto simp: ring_dist_def split: if_splits)
qed

section \<open>Lists\<close>

lemma dropWhile_append_stop:
  "list_all P xs \<Longrightarrow> \<not> P c \<Longrightarrow> dropWhile P (xs @ c # ys) = c # ys"
  by (induction xs) auto

lemma takeWhile_append_stop:
  "list_all P xs \<Longrightarrow> \<not> P c \<Longrightarrow> takeWhile P (xs @ c # ys) = xs"
  by (induction xs) auto

lemma takeWhile_all: "list_all P xs \<Longrightarrow> takeWhile P xs = xs"
  by (induction xs) auto

lemma dropWhile_all: "list_all P xs \<Longrightarrow> dropWhile P xs = []"
  by (induction xs) auto

lemmas while_stop_simps =
  dropWhile_append_stop takeWhile_append_stop takeWhile_all dropWhile_all

end
