(* ===== verification/Containers.thy ===== *)
theory Containers
  imports Prelude
begin

text \<open>
  The two associative containers of the C++ standard library that the server uses.
  \<open>std::map\<close> keeps its keys sorted, and its iteration order is the key order: it is an
  association list sorted by key. \<open>std::unordered_map\<close> is an association list whose order is
  one of the iteration orders the standard allows; no property of the development depends on
  which. The locale \<open>finite_store\<close> is what a client may assume of either.
\<close>

section \<open>The contract of an associative container\<close>

locale finite_store =
  fixes lookup :: "'m \<Rightarrow> 'k \<Rightarrow> 'v option"
    and put :: "'k \<Rightarrow> 'v \<Rightarrow> 'm \<Rightarrow> 'm"
    and erase :: "'k \<Rightarrow> 'm \<Rightarrow> 'm"
    and valid :: "'m \<Rightarrow> bool"
  assumes lookup_put: "valid m \<Longrightarrow> lookup (put k v m) = (lookup m)(k \<mapsto> v)"
    and lookup_erase: "valid m \<Longrightarrow> lookup (erase k m) = (lookup m)(k := None)"
    and valid_put: "valid m \<Longrightarrow> valid (put k v m)"
    and valid_erase: "valid m \<Longrightarrow> valid (erase k m)"
begin

lemma lookup_put_same: "valid m \<Longrightarrow> lookup (put k v m) k = Some v"
  by (simp add: lookup_put)

lemma lookup_put_other: "valid m \<Longrightarrow> k \<noteq> k' \<Longrightarrow> lookup (put k v m) k' = lookup m k'"
  by (simp add: lookup_put)

lemma lookup_erase_same: "valid m \<Longrightarrow> lookup (erase k m) k = None"
  by (simp add: lookup_erase)

lemma lookup_erase_other: "valid m \<Longrightarrow> k \<noteq> k' \<Longrightarrow> lookup (erase k m) k' = lookup m k'"
  by (simp add: lookup_erase)

lemma lookup_put_put: "valid m \<Longrightarrow> lookup (put k v (put k v' m)) = lookup (put k v m)"
  by (simp add: lookup_put valid_put)

lemma lookup_put_erase: "valid m \<Longrightarrow> lookup (put k v (erase k m)) = lookup (put k v m)"
  by (simp add: lookup_put lookup_erase valid_erase)

lemma lookup_put_all:
  assumes "valid m"
  shows "valid (fold (\<lambda>(k, v). put k v) kvs m)"
  using assms by (induction kvs arbitrary: m) (auto simp: valid_put)

lemmas store_laws = lookup_put lookup_erase valid_put valid_erase

end

section \<open>std::map\<close>

fun map_put :: "'k::linorder \<Rightarrow> 'v \<Rightarrow> ('k \<times> 'v) list \<Rightarrow> ('k \<times> 'v) list" where
  "map_put k v [] = [(k, v)]"
| "map_put k v ((k', v') # m) =
     (if k < k' then (k, v) # (k', v') # m
      else if k = k' then (k, v) # m
      else (k', v') # map_put k v m)"

definition map_erase :: "'k \<Rightarrow> ('k \<times> 'v) list \<Rightarrow> ('k \<times> 'v) list" where
  "map_erase k m = filter (\<lambda>e. fst e \<noteq> k) m"

definition sorted_keys :: "('k::linorder \<times> 'v) list \<Rightarrow> bool" where
  "sorted_keys m \<longleftrightarrow> sorted_wrt (<) (map fst m)"

lemma sorted_keys_Nil [simp]: "sorted_keys []"
  by (simp add: sorted_keys_def)

lemma sorted_keys_Cons:
  "sorted_keys (e # m) \<longleftrightarrow> (\<forall>k\<in>fst ` set m. fst e < k) \<and> sorted_keys m"
  by (auto simp: sorted_keys_def)

lemma keys_map_put: "fst ` set (map_put k v m) = insert k (fst ` set m)"
  by (induction k v m rule: map_put.induct) auto

lemma values_map_put: "set (map_put k v m) \<subseteq> insert (k, v) (set m)"
  by (induction k v m rule: map_put.induct) auto

lemma map_of_map_put: "map_of (map_put k v m) = (map_of m)(k \<mapsto> v)"
  by (induction k v m rule: map_put.induct) auto

lemma sorted_keys_map_put [wf_intros]: "sorted_keys m \<Longrightarrow> sorted_keys (map_put k v m)"
proof (induction k v m rule: map_put.induct)
  case (2 k v k' v' m)
  then show ?case
    by (auto simp: sorted_keys_Cons keys_map_put dest: less_trans)
qed (simp add: sorted_keys_Cons)

lemma map_of_map_erase: "map_of (map_erase k m) = (map_of m)(k := None)"
  by (induction m) (auto simp: map_erase_def)

lemma sorted_keys_map_erase [wf_intros]: "sorted_keys m \<Longrightarrow> sorted_keys (map_erase k m)"
  by (induction m) (auto simp: map_erase_def sorted_keys_Cons)

lemma keys_map_erase: "fst ` set (map_erase k m) = fst ` set m - {k}"
  by (force simp: map_erase_def)

lemma set_map_erase: "set (map_erase k m) = {e \<in> set m. fst e \<noteq> k}"
  by (auto simp: map_erase_def)

text \<open>A key above all others goes to the end, so re-inserting a sorted map rebuilds it.\<close>

lemma map_put_last:
  "(\<And>k'. k' \<in> fst ` set m \<Longrightarrow> k' < k) \<Longrightarrow> map_put k v m = m @ [(k, v)]"
proof (induction m)
  case (Cons e m)
  have "fst e < k" by (rule Cons.prems) simp
  moreover have "map_put k v m = m @ [(k, v)]"
    by (rule Cons.IH) (rule Cons.prems, auto)
  ultimately show ?case by (cases e) auto
qed simp

lemma fold_map_put_sorted:
  "sorted_keys (m @ kvs) \<Longrightarrow> fold (\<lambda>(k, v). map_put k v) kvs m = m @ kvs"
proof (induction kvs arbitrary: m)
  case (Cons e kvs)
  obtain k v where e: "e = (k, v)" by (cases e)
  have "map_put k v m = m @ [(k, v)]"
    using Cons.prems by (intro map_put_last) (auto simp: sorted_keys_def sorted_wrt_append e)
  then show ?case
    using Cons.IH [of "m @ [e]"] Cons.prems by (simp add: e)
qed simp

lemma map_of_eq_Some_iff_sorted:
  assumes "sorted_keys m"
  shows "map_of m k = Some v \<longleftrightarrow> (k, v) \<in> set m"
proof -
  have "distinct (map fst m)"
    using assms by (auto simp: sorted_keys_def strict_sorted_iff)
  then show ?thesis by (rule map_of_eq_Some_iff)
qed

interpretation omap: finite_store map_of map_put map_erase sorted_keys
  by unfold_locales (auto simp: map_of_map_put map_of_map_erase intro: wf_intros)

section \<open>std::unordered_map\<close>

abbreviation umap_put :: "'k \<Rightarrow> 'v \<Rightarrow> ('k \<times> 'v) list \<Rightarrow> ('k \<times> 'v) list" where
  "umap_put \<equiv> AList.update"

abbreviation umap_erase :: "'k \<Rightarrow> ('k \<times> 'v) list \<Rightarrow> ('k \<times> 'v) list" where
  "umap_erase \<equiv> AList.delete"

definition distinct_keys :: "('k \<times> 'v) list \<Rightarrow> bool" where
  "distinct_keys m \<longleftrightarrow> distinct (map fst m)"

lemma distinct_keys_Nil [simp]: "distinct_keys []"
  by (simp add: distinct_keys_def)

lemma distinct_keys_update [wf_intros]: "distinct_keys m \<Longrightarrow> distinct_keys (umap_put k v m)"
  by (simp add: distinct_keys_def distinct_update)

lemma distinct_keys_delete [wf_intros]: "distinct_keys m \<Longrightarrow> distinct_keys (umap_erase k m)"
  by (simp add: distinct_keys_def distinct_delete)

interpretation umap: finite_store map_of umap_put umap_erase distinct_keys
  by unfold_locales (auto simp: update_conv' delete_conv' intro: wf_intros)

text \<open>Applying a function to every value, as a loop over the entries does.\<close>

definition map_values :: "('v \<Rightarrow> 'w) \<Rightarrow> ('k \<times> 'v) list \<Rightarrow> ('k \<times> 'w) list" where
  "map_values f m = map (\<lambda>(k, v). (k, f v)) m"

lemma map_of_map_values: "map_of (map_values f m) k = map_option f (map_of m k)"
  by (induction m) (auto simp: map_values_def)

lemma keys_map_values [simp]: "map fst (map_values f m) = map fst m"
  by (induction m) (auto simp: map_values_def)

lemma distinct_keys_map_values [wf_intros, simp]:
  "distinct_keys (map_values f m) = distinct_keys m"
  by (simp add: distinct_keys_def)

end
