(* ===== verification/Broadcast.thy ===== *)
theory Broadcast
  imports Prelude
begin

text \<open>
  The contract between a frame queue and its users (a media track's producer thread and the
  sessions' sender threads): a bounded channel with one list of unread items per joined
  reader. The locale \<open>broadcast_channel\<close> states what each operation does to those lists; the
  lemmas inside it are about whole runs of operations by any number of threads, in any order:
  every reader receives exactly what was sent after it joined, in order, and a blocked sender
  always finds a reader that can make progress.
\<close>

datatype 'a channel_op = Send 'a | Receive string | Join string | Leave string

text \<open>
  A run executes the operations in the given order, each under the mutex. An operation that
  has to wait cannot be scheduled at that point, so such an order is no run (\<open>None\<close>). The log
  holds what each reader received.
\<close>

fun run_channel ::
  "('a \<Rightarrow> 's \<Rightarrow> 's \<times> unit outcome) \<Rightarrow> (string \<Rightarrow> 's \<Rightarrow> 's \<times> 'a outcome) \<Rightarrow>
   (string \<Rightarrow> 's \<Rightarrow> 's) \<Rightarrow> (string \<Rightarrow> 's \<Rightarrow> 's) \<Rightarrow>
   'a channel_op list \<Rightarrow> 's \<Rightarrow> ('s \<times> (string \<times> 'a) list) option" where
  "run_channel send recv join leave [] s = Some (s, [])"
| "run_channel send recv join leave (Send x # ops) s =
     (case send x s of
        (s', Done _) \<Rightarrow> run_channel send recv join leave ops s'
      | _ \<Rightarrow> None)"
| "run_channel send recv join leave (Receive sid # ops) s =
     (case recv sid s of
        (s', Done y) \<Rightarrow>
          map_option (\<lambda>(s'', log). (s'', (sid, y) # log)) (run_channel send recv join leave ops s')
      | _ \<Rightarrow> None)"
| "run_channel send recv join leave (Join sid # ops) s =
     run_channel send recv join leave ops (join sid s)"
| "run_channel send recv join leave (Leave sid # ops) s =
     run_channel send recv join leave ops (leave sid s)"

fun sent :: "'a channel_op list \<Rightarrow> 'a list" where
  "sent [] = []"
| "sent (Send x # ops) = x # sent ops"
| "sent (_ # ops) = sent ops"

fun received :: "string \<Rightarrow> (string \<times> 'a) list \<Rightarrow> 'a list" where
  "received sid [] = []"
| "received sid ((sid', y) # log) = (if sid' = sid then y # received sid log else received sid log)"

definition stays :: "string \<Rightarrow> 'a channel_op list \<Rightarrow> bool" where
  "stays sid ops \<longleftrightarrow> Join sid \<notin> set ops \<and> Leave sid \<notin> set ops"

lemma stays_Cons [simp]:
  "stays sid (op # ops) \<longleftrightarrow> op \<noteq> Join sid \<and> op \<noteq> Leave sid \<and> stays sid ops"
  by (auto simp: stays_def)

locale broadcast_channel =
  fixes good :: "'s \<Rightarrow> bool"
    and content :: "'s \<Rightarrow> string \<Rightarrow> 'a list option"
    and room :: "'s \<Rightarrow> nat"
    and send :: "'a \<Rightarrow> 's \<Rightarrow> 's \<times> unit outcome"
    and recv :: "string \<Rightarrow> 's \<Rightarrow> 's \<times> 'a outcome"
    and join :: "string \<Rightarrow> 's \<Rightarrow> 's"
    and leave :: "string \<Rightarrow> 's \<Rightarrow> 's"
  assumes send_good: "good s \<Longrightarrow> good (fst (send x s))"
    and recv_good: "good s \<Longrightarrow> good (fst (recv sid s))"
    and join_good: "good s \<Longrightarrow> good (join sid s)"
    and leave_good: "good s \<Longrightarrow> good (leave sid s)"
    and send_content: "good s \<Longrightarrow> send x s = (s', Done u) \<Longrightarrow>
      content s' sid = map_option (\<lambda>l. l @ [x]) (content s sid)"
    and send_enabled: "good s \<Longrightarrow>
      snd (send x s) = (if \<exists>sid l. content s sid = Some l \<and> length l = room s then Wait else Done ())"
    and recv_content: "good s \<Longrightarrow> content s sid = Some l \<Longrightarrow>
      (case l of [] \<Rightarrow> snd (recv sid s) = Wait
       | y # ys \<Rightarrow> snd (recv sid s) = Done y \<and> content (fst (recv sid s)) sid = Some ys)"
    and recv_other: "good s \<Longrightarrow> sid' \<noteq> sid \<Longrightarrow> content (fst (recv sid s)) sid' = content s sid'"
    and join_content: "good s \<Longrightarrow> content (join sid s) = (content s)(sid \<mapsto> [])"
    and leave_content: "good s \<Longrightarrow> content (leave sid s) = (content s)(sid := None)"
    and content_bound: "good s \<Longrightarrow> content s sid = Some l \<Longrightarrow> length l \<le> room s"
    and send_room: "room (fst (send x s)) = room s"
    and recv_room: "room (fst (recv sid s)) = room s"
    and join_room: "room (join sid s) = room s"
    and leave_room: "room (leave sid s) = room s"
begin

lemma run_good:
  "run_channel send recv join leave ops s = Some (s', log) \<Longrightarrow> good s \<Longrightarrow> good s'"
proof (induction ops arbitrary: s log)
  case (Cons op ops)
  show ?case
  proof (cases op)
    case (Send x)
    with Cons.prems Cons.IH send_good [of s x] show ?thesis
      by (cases "send x s") (auto split: outcome.splits)
  next
    case (Receive sid)
    with Cons.prems Cons.IH recv_good [of s sid] show ?thesis
      by (cases "recv sid s") (auto split: outcome.splits)
  next
    case (Join sid)
    with Cons.prems Cons.IH join_good [of s sid] show ?thesis by auto
  next
    case (Leave sid)
    with Cons.prems Cons.IH leave_good [of s sid] show ?thesis by auto
  qed
qed simp

text \<open>
  First in, first out, nothing lost and nothing twice: what a reader had unread, followed by
  what is sent during the run, is what it receives during the run, followed by what it has
  unread at the end.
\<close>

lemma fifo:
  assumes "run_channel send recv join leave ops s = Some (s', log)"
    and "good s" and "content s sid = Some l" and "stays sid ops"
  shows "\<exists>l'. content s' sid = Some l' \<and> l @ sent ops = received sid log @ l'"
  using assms
proof (induction ops arbitrary: s l log)
  case (Cons op ops)
  show ?case
  proof (cases op)
    case (Send x)
    with Cons.prems obtain s1 u where s1: "send x s = (s1, Done u)"
      and run: "run_channel send recv join leave ops s1 = Some (s', log)"
      by (auto split: prod.splits outcome.splits)
    have "content s1 sid = Some (l @ [x])" "good s1"
      using send_content [OF Cons.prems(2) s1, of sid] send_good [OF Cons.prems(2), of x] Cons.prems(3) s1 by auto
    from Cons.IH [OF run this(2,1)] Cons.prems(4) Send show ?thesis by auto
  next
    case (Receive sid')
    with Cons.prems obtain s1 y log1 where s1: "recv sid' s = (s1, Done y)"
      and run: "run_channel send recv join leave ops s1 = Some (s', log1)"
      and log: "log = (sid', y) # log1"
      by (auto split: prod.splits outcome.splits)
    have "good s1" using recv_good [OF Cons.prems(2), of sid'] s1 by simp
    show ?thesis
    proof (cases "sid' = sid")
      case True
      with recv_content [OF Cons.prems(2,3)] s1 obtain ys
        where "l = y # ys" and "content s1 sid = Some ys"
        by (auto split: list.splits)
      with Cons.IH [OF run \<open>good s1\<close> this(2)] Cons.prems(4) Receive log True show ?thesis by auto
    next
      case False
      then have "content s1 sid = Some l"
        using recv_other [OF Cons.prems(2), of sid sid'] s1 Cons.prems(3) by simp
      with Cons.IH [OF run \<open>good s1\<close> this] Cons.prems(4) Receive log False show ?thesis by auto
    qed
  next
    case (Join sid')
    with Cons.prems Cons.IH [of "join sid' s" log l] join_good [of s sid'] show ?thesis
      by (auto simp: join_content)
  next
    case (Leave sid')
    with Cons.prems Cons.IH [of "leave sid' s" log l] leave_good [of s sid'] show ?thesis
      by (auto simp: leave_content)
  qed
qed simp

text \<open>From joining on: a new reader starts with nothing unread.\<close>

lemma fifo_from_join:
  assumes "good s" and "run_channel send recv join leave ops (join sid s) = Some (s', log)"
    and "stays sid ops"
  shows "\<exists>l'. content s' sid = Some l' \<and> sent ops = received sid log @ l' \<and> length l' \<le> room s'"
proof -
  have "content (join sid s) sid = Some []" using assms(1) by (simp add: join_content)
  then obtain l' where "content s' sid = Some l'" "sent ops = received sid log @ l'"
    using fifo [OF assms(2) join_good [OF assms(1)] _ assms(3)] by auto
  moreover have "good s'" using run_good [OF assms(2)] join_good [OF assms(1)] by simp
  ultimately show ?thesis using content_bound by auto
qed

lemma run_room:
  "run_channel send recv join leave ops s = Some (s', log) \<Longrightarrow> room s' = room s"
proof (induction ops arbitrary: s log)
  case (Cons op ops)
  show ?case
  proof (cases op)
    case (Send x)
    with Cons.prems Cons.IH send_room [of x s] show ?thesis
      by (cases "send x s") (auto split: outcome.splits)
  next
    case (Receive sid)
    with Cons.prems Cons.IH recv_room [of sid s] show ?thesis
      by (cases "recv sid s") (auto split: outcome.splits)
  qed (use Cons join_room leave_room in auto)
qed simp

lemma received_nothing:
  "run_channel send recv join leave ops s = Some (s', log) \<Longrightarrow> Receive sid \<notin> set ops \<Longrightarrow> received sid log = []"
proof (induction ops arbitrary: s log)
  case (Cons op ops)
  then show ?case
    by (cases op) (auto split: prod.splits outcome.splits)
qed simp

text \<open>
  One reader that stays but never receives stops everybody: whatever the others do, no more
  can be sent than it has room for.
\<close>

lemma silent_reader_bounds_sending:
  assumes "run_channel send recv join leave ops s = Some (s', log)"
    and "good s" and "content s sid = Some l" and "stays sid ops" and "Receive sid \<notin> set ops"
  shows "length l + length (sent ops) \<le> room s"
proof -
  obtain l' where "content s' sid = Some l'" "l @ sent ops = received sid log @ l'"
    using fifo [OF assms(1-4)] by blast
  then show ?thesis
    using content_bound [OF run_good [OF assms(1,2)]] received_nothing [OF assms(1,5)] run_room [OF assms(1)]
    by (metis append_Nil length_append)
qed

text \<open>A sender only waits for a reader that has something to read: the two never wait for each other.\<close>

lemma blocked_sender_has_reader:
  assumes "good s" and "0 < room s" and "snd (send x s) = Wait"
  shows "\<exists>sid y. snd (recv sid s) = Done y"
proof -
  obtain sid l where l: "content s sid = Some l" "length l = room s"
    using assms send_enabled [OF assms(1), of x] by (auto split: if_splits)
  then obtain y ys where "l = y # ys" using assms(2) by (cases l) auto
  with recv_content [OF assms(1) l(1)] show ?thesis by auto
qed

end

end
