(* ===== verification/CircularQueue.thy ===== *)
theory CircularQueue
  imports Containers Broadcast
begin

text \<open>
  \<open>CircularQueue<T>\<close> of CircularQueue.h: one ring buffer, one writer, and any number of
  registered consumers, each with a read position of its own, so every consumer sees every
  item (a broadcast channel). Each operation runs under the queue's mutex, so it is one
  atomic function from the state to the new state and an outcome; \<open>Wait\<close> is the state in
  which the caller sleeps on a condition variable. CircularQueueMonitor adds the sleeping
  threads and the notifications.

  The theory gives the operations, the invariant \<open>cq_wf\<close>, the abstract channel (for each
  consumer the list of items it has not read) with a simulation for every operation, and the
  locale \<open>broadcast_channel\<close> in which the first-in first-out law of whole runs is proved.
\<close>

section \<open>The class\<close>

record 'a circular_queue =
  buffer :: "'a list"
  write_position :: nat
  consumer_positions :: "(string \<times> nat) list"
  exit_flag :: bool

text \<open>The constructor; \<open>t0\<close> is the value-initialised \<open>T()\<close>.\<close>

definition circular_queue :: "'a \<Rightarrow> nat \<Rightarrow> 'a circular_queue" where
  "circular_queue t0 capacity =
     \<lparr>buffer = replicate capacity t0, write_position = 0, consumer_positions = [], exit_flag = False\<rparr>"

definition set_exit :: "'a circular_queue \<Rightarrow> 'a circular_queue" where
  "set_exit q = q\<lparr>exit_flag := True\<rparr>"

definition is_exit :: "'a circular_queue \<Rightarrow> bool" where
  "is_exit q = exit_flag q"

definition set_run :: "'a circular_queue \<Rightarrow> 'a circular_queue" where
  "set_run q = q\<lparr>exit_flag := False\<rparr>"

fun is_position_in_use :: "'a circular_queue \<Rightarrow> nat \<Rightarrow> bool" where
  "is_position_in_use q position = list_ex (\<lambda>consumer. snd consumer = position) (consumer_positions q)"

text \<open>
  \<open>produce\<close>: the writer sleeps while a consumer still stands on the cell after the write
  position; once \<open>exit_\<close> is set it writes without looking.
\<close>

definition produce :: "'a \<Rightarrow> 'a circular_queue \<Rightarrow> 'a circular_queue \<times> unit outcome" where
  "produce item q =
     (if buffer q = [] then (q, Fail (Undefined ''remainder by zero''))
      else
        let next_position = (write_position q + 1) mod length (buffer q) in
        if is_position_in_use q next_position \<and> \<not> exit_flag q then (q, Wait)
        else (q\<lparr>buffer := (buffer q)[write_position q := item],
                write_position := next_position\<rparr>, Done ()))"

text \<open>
  \<open>consumer_positions_[session_id]\<close> as an lvalue: \<open>operator[]\<close> inserts position 0 for an
  unknown session.
\<close>

definition consumer_slot :: "string \<Rightarrow> 'a circular_queue \<Rightarrow> 'a circular_queue \<times> nat" where
  "consumer_slot session_id q =
     (case map_of (consumer_positions q) session_id of
        Some p \<Rightarrow> (q, p)
      | None \<Rightarrow> (q\<lparr>consumer_positions := map_put session_id 0 (consumer_positions q)\<rparr>, 0))"

definition consume :: "'a \<Rightarrow> string \<Rightarrow> 'a circular_queue \<Rightarrow> 'a circular_queue \<times> 'a outcome" where
  "consume t0 session_id q =
     (let (q1, position) = consumer_slot session_id q in
      if position = write_position q1 \<and> \<not> exit_flag q1 then (q1, Wait)
      else if exit_flag q1 then (q1, Done t0)
      else case read_at (buffer q1) position of
             Inl e \<Rightarrow> (q1, Fail e)
           | Inr item \<Rightarrow>
               (q1\<lparr>consumer_positions :=
                     map_put session_id ((position + 1) mod length (buffer q1)) (consumer_positions q1)\<rparr>,
                Done item))"

definition register_consumer :: "string \<Rightarrow> 'a circular_queue \<Rightarrow> 'a circular_queue" where
  "register_consumer session_id q =
     q\<lparr>consumer_positions := map_put session_id (write_position q) (consumer_positions q)\<rparr>"

definition unregister_consumer :: "string \<Rightarrow> 'a circular_queue \<Rightarrow> 'a circular_queue" where
  "unregister_consumer session_id q =
     q\<lparr>consumer_positions := map_erase session_id (consumer_positions q)\<rparr>"

definition no_consumer :: "'a circular_queue \<Rightarrow> bool" where
  "no_consumer q \<longleftrightarrow> consumer_positions q = []"

section \<open>The invariant\<close>

definition cq_wf :: "'a circular_queue \<Rightarrow> bool" where
  "cq_wf q \<longleftrightarrow>
     0 < length (buffer q) \<and>
     write_position q < length (buffer q) \<and>
     sorted_keys (consumer_positions q) \<and>
     (\<forall>p \<in> snd ` set (consumer_positions q). p < length (buffer q))"

lemma cq_wf_init [wf_intros]: "0 < n \<Longrightarrow> cq_wf (circular_queue t0 n)"
  by (simp add: cq_wf_def circular_queue_def)

lemma cq_wf_set_exit [wf_intros]: "cq_wf q \<Longrightarrow> cq_wf (set_exit q)"
  by (simp add: cq_wf_def set_exit_def)

lemma cq_wf_set_run [wf_intros]: "cq_wf q \<Longrightarrow> cq_wf (set_run q)"
  by (simp add: cq_wf_def set_run_def)

lemma snd_map_put_bound:
  assumes "\<forall>p \<in> snd ` set m. p < (n::nat)" and "p' < n"
  shows "\<forall>p \<in> snd ` set (map_put k p' m). p < n"
  using values_map_put [of k p' m] assms by fastforce

lemma cq_wf_put_position:
  assumes "cq_wf q" and "p < length (buffer q)"
  shows "cq_wf (q\<lparr>consumer_positions := map_put k p (consumer_positions q)\<rparr>)"
proof -
  have "\<forall>p' \<in> snd ` set (map_put k p (consumer_positions q)). p' < length (buffer q)"
    by (rule snd_map_put_bound) (use assms in \<open>simp_all add: cq_wf_def\<close>)
  with assms show ?thesis
    by (simp add: cq_wf_def sorted_keys_map_put del: ball_simps)
qed

lemma cq_wf_register [wf_intros]: "cq_wf q \<Longrightarrow> cq_wf (register_consumer sid q)"
  unfolding register_consumer_def by (rule cq_wf_put_position) (auto simp: cq_wf_def)

lemma cq_wf_unregister [wf_intros]: "cq_wf q \<Longrightarrow> cq_wf (unregister_consumer sid q)"
  by (auto simp: cq_wf_def unregister_consumer_def set_map_erase sorted_keys_map_erase)

lemma cq_wf_produce [wf_intros]: "cq_wf q \<Longrightarrow> cq_wf (fst (produce item q))"
  by (auto simp: cq_wf_def produce_def Let_def)

lemma cq_wf_position:
  assumes "cq_wf q" and "map_of (consumer_positions q) sid = Some p"
  shows "p < length (buffer q)"
  using assms map_of_SomeD by (force simp: cq_wf_def)

lemma consumer_slot_wf:
  assumes "cq_wf q" and "consumer_slot sid q = (q1, p)"
  shows "cq_wf q1 \<and> p < length (buffer q1) \<and> map_of (consumer_positions q1) sid = Some p
    \<and> buffer q1 = buffer q \<and> write_position q1 = write_position q \<and> exit_flag q1 = exit_flag q"
proof (cases "map_of (consumer_positions q) sid")
  case None
  have "0 < length (buffer q)" using assms by (simp add: cq_wf_def)
  then have "cq_wf (q\<lparr>consumer_positions := map_put sid 0 (consumer_positions q)\<rparr>)"
    using assms by (intro cq_wf_put_position)
  with None assms \<open>0 < length (buffer q)\<close> show ?thesis
    by (auto simp: consumer_slot_def map_of_map_put)
next
  case (Some p')
  with assms cq_wf_position [OF assms(1) Some] show ?thesis
    by (auto simp: consumer_slot_def)
qed

lemma cq_wf_consume [wf_intros]:
  assumes "cq_wf q"
  shows "cq_wf (fst (consume t0 sid q))"
proof -
  obtain q1 p where q1: "consumer_slot sid q = (q1, p)" by (cases "consumer_slot sid q")
  note wf = consumer_slot_wf [OF assms q1]
  have "cq_wf (q1\<lparr>consumer_positions :=
      map_put sid (Suc p mod length (buffer q1)) (consumer_positions q1)\<rparr>)"
    using wf by (intro cq_wf_put_position) (auto simp: cq_wf_def)
  with wf show ?thesis by (simp add: consume_def q1 Let_def split: sum.split)
qed

section \<open>The abstract channel\<close>

text \<open>
  What a client sees: for each registered consumer the items it has still to read, the room
  of the channel (one cell less than the capacity), and whether it has been told to exit.
\<close>

record 'a channel =
  ch_pending :: "string \<Rightarrow> 'a list option"
  ch_room :: nat
  ch_exit :: bool

definition pending :: "'a circular_queue \<Rightarrow> string \<Rightarrow> 'a list option" where
  "pending q sid =
     map_option (\<lambda>p. ring_slice (buffer q) p (ring_dist (length (buffer q)) p (write_position q)))
       (map_of (consumer_positions q) sid)"

definition abs_channel :: "'a circular_queue \<Rightarrow> 'a channel" where
  "abs_channel q = \<lparr>ch_pending = pending q, ch_room = length (buffer q) - 1, ch_exit = exit_flag q\<rparr>"

definition ch_full :: "'a channel \<Rightarrow> bool" where
  "ch_full c \<longleftrightarrow> (\<exists>sid l. ch_pending c sid = Some l \<and> length l = ch_room c)"

text \<open>
  Sending appends to every consumer's list; when the channel has been told to exit, a
  consumer whose list was full loses all of it.
\<close>

definition ch_produce :: "'a \<Rightarrow> 'a channel \<Rightarrow> 'a channel \<times> unit outcome" where
  "ch_produce item c =
     (if ch_full c \<and> \<not> ch_exit c then (c, Wait)
      else (c\<lparr>ch_pending := (\<lambda>sid. map_option
                (\<lambda>l. if length l = ch_room c then [] else l @ [item]) (ch_pending c sid))\<rparr>, Done ()))"

text \<open>Receiving, for a registered consumer.\<close>

definition ch_consume :: "'a \<Rightarrow> string \<Rightarrow> 'a channel \<Rightarrow> 'a channel \<times> 'a outcome" where
  "ch_consume t0 sid c =
     (if ch_exit c then (c, Done t0)
      else case ch_pending c sid of
             Some (x # xs) \<Rightarrow> (c\<lparr>ch_pending := (ch_pending c)(sid \<mapsto> xs)\<rparr>, Done x)
           | _ \<Rightarrow> (c, Wait))"

lemma abs_channel_simps [simp]:
  "ch_pending (abs_channel q) = pending q"
  "ch_room (abs_channel q) = length (buffer q) - 1"
  "ch_exit (abs_channel q) = exit_flag q"
  by (simp_all add: abs_channel_def)

lemma in_use_iff:
  assumes "cq_wf q"
  shows "is_position_in_use q n \<longleftrightarrow> (\<exists>sid. map_of (consumer_positions q) sid = Some n)"
  using assms by (force simp: list_ex_iff cq_wf_def map_of_eq_Some_iff_sorted)

text \<open>A consumer's list is full exactly when it stands on the cell after the write position.\<close>

lemma ring_dist_full_iff:
  assumes "p < n" "w < n"
  shows "ring_dist n p w = n - 1 \<longleftrightarrow> p = Suc w mod n"
  using assms by (auto simp: ring_dist_def Suc_mod_cases split: if_splits)

lemma ch_full_iff:
  assumes "cq_wf q"
  shows "ch_full (abs_channel q) \<longleftrightarrow>
    is_position_in_use q (Suc (write_position q) mod length (buffer q))"
proof -
  have "ring_dist (length (buffer q)) p (write_position q) = length (buffer q) - 1
      \<longleftrightarrow> p = Suc (write_position q) mod length (buffer q)"
    if "map_of (consumer_positions q) sid = Some p" for sid p
    using cq_wf_position [OF assms that] assms by (intro ring_dist_full_iff) (auto simp: cq_wf_def)
  then show ?thesis
    unfolding in_use_iff [OF assms] ch_full_def by (fastforce simp: pending_def)
qed

text \<open>The effect of a write on one consumer's list.\<close>

lemma ring_slice_produce:
  assumes "p < length buf" "w < length buf"
  shows "ring_slice (buf[w := x]) p (ring_dist (length buf) p (Suc w mod length buf)) =
    (if ring_dist (length buf) p w = length buf - 1 then []
     else ring_slice buf p (ring_dist (length buf) p w) @ [x])"
proof (cases "p = Suc w mod length buf")
  case True
  then show ?thesis using ring_dist_full [OF assms(2)] by simp
next
  case False
  then have d: "ring_dist (length buf) p (Suc w mod length buf) = Suc (ring_dist (length buf) p w)"
    using assms by (intro ring_dist_step_write)
  have "ring_slice (buf[w := x]) p (ring_dist (length buf) p w) = ring_slice buf p (ring_dist (length buf) p w)"
    using assms ring_cell_free by (intro ring_slice_update) auto
  moreover have "ring_dist (length buf) p w \<noteq> length buf - 1"
    using False assms ring_dist_full_iff by blast
  ultimately show ?thesis
    unfolding d ring_slice_Suc_back using assms ring_dist_add [OF assms] by simp
qed

lemma pending_produce_Done:
  assumes "cq_wf q"
  shows "pending (q\<lparr>buffer := (buffer q)[write_position q := x],
                  write_position := Suc (write_position q) mod length (buffer q)\<rparr>) sid =
    map_option (\<lambda>l. if length l = length (buffer q) - 1 then [] else l @ [x]) (pending q sid)"
proof (cases "map_of (consumer_positions q) sid")
  case (Some p)
  have "p < length (buffer q)" "write_position q < length (buffer q)"
    using cq_wf_position [OF assms Some] assms by (auto simp: cq_wf_def)
  from ring_slice_produce [OF this] Some show ?thesis by (simp add: pending_def)
qed (simp add: pending_def)

lemma produce_refines:
  assumes "cq_wf q"
  shows "(case produce x q of (q', r) \<Rightarrow> (abs_channel q', r)) = ch_produce x (abs_channel q)"
proof -
  have "buffer q \<noteq> []" using assms by (auto simp: cq_wf_def)
  then show ?thesis
    using ch_full_iff [OF assms] pending_produce_Done [OF assms, of x]
    by (auto simp: produce_def ch_produce_def Let_def abs_channel_def)
qed

lemma pending_put_position:
  "pending (q\<lparr>consumer_positions := map_put sid p (consumer_positions q)\<rparr>) =
   (pending q)(sid \<mapsto> ring_slice (buffer q) p (ring_dist (length (buffer q)) p (write_position q)))"
  by (auto simp: pending_def map_of_map_put fun_eq_iff)

lemma consume_refines:
  assumes "cq_wf q" and "pending q sid \<noteq> None"
  shows "(case consume t0 sid q of (q', r) \<Rightarrow> (abs_channel q', r)) = ch_consume t0 sid (abs_channel q)"
proof -
  obtain p where p: "map_of (consumer_positions q) sid = Some p"
    using assms by (auto simp: pending_def)
  have bounds: "p < length (buffer q)" "write_position q < length (buffer q)"
    using cq_wf_position [OF assms(1) p] assms by (auto simp: cq_wf_def)
  show ?thesis
  proof (cases "p = write_position q")
    case True
    with p bounds show ?thesis
      by (auto simp: consume_def consumer_slot_def ch_consume_def pending_def)
  next
    case False
    have "Suc (ring_dist (length (buffer q)) (Suc p mod length (buffer q)) (write_position q))
        = ring_dist (length (buffer q)) p (write_position q)"
      using bounds False by (rule ring_dist_step_read)
    then have "pending q sid = Some (buffer q ! p # ring_slice (buffer q) (Suc p mod length (buffer q))
        (ring_dist (length (buffer q)) (Suc p mod length (buffer q)) (write_position q)))"
      using p unfolding ring_slice_Suc_front [OF bounds(1), symmetric] by (simp add: pending_def)
    with False p bounds show ?thesis
      by (simp add: consume_def consumer_slot_def ch_consume_def abs_channel_def pending_put_position)
  qed
qed

lemma pending_register:
  assumes "cq_wf q"
  shows "pending (register_consumer sid q) = (pending q)(sid \<mapsto> [])"
  unfolding register_consumer_def by (simp add: pending_put_position)

lemma pending_unregister: "pending (unregister_consumer sid q) = (pending q)(sid := None)"
  by (auto simp: pending_def unregister_consumer_def map_of_map_erase fun_eq_iff)

lemma pending_length:
  assumes "cq_wf q" and "pending q sid = Some l"
  shows "length l < length (buffer q)"
proof -
  obtain p where p: "map_of (consumer_positions q) sid = Some p"
    and l: "length l = ring_dist (length (buffer q)) p (write_position q)"
    using assms by (auto simp: pending_def)
  show ?thesis
    unfolding l using cq_wf_position [OF assms(1) p] assms by (intro ring_dist_less) (auto simp: cq_wf_def)
qed

section \<open>The queue is a broadcast channel\<close>

text \<open>The states in which the track is running: well formed, and not told to exit.\<close>

definition running :: "'a circular_queue \<Rightarrow> bool" where
  "running q \<longleftrightarrow> cq_wf q \<and> \<not> exit_flag q"

lemma running_produce: "running q \<Longrightarrow> running (fst (produce x q))"
  by (auto simp: running_def cq_wf_produce) (auto simp: produce_def Let_def split: if_splits)

lemma consume_frame:
  assumes "cq_wf q"
  shows "exit_flag (fst (consume t0 sid q)) = exit_flag q
    \<and> (sid' \<noteq> sid \<longrightarrow> pending (fst (consume t0 sid q)) sid' = pending q sid')"
proof -
  obtain q1 p where q1: "consumer_slot sid q = (q1, p)" by (cases "consumer_slot sid q")
  note wf = consumer_slot_wf [OF assms q1]
  have "pending q1 sid' = pending q sid'" if "sid' \<noteq> sid"
    using q1 that by (auto simp: consumer_slot_def pending_put_position split: option.splits)
  with wf show ?thesis
    by (auto simp: consume_def q1 Let_def pending_put_position)
qed

lemma running_consume: "running q \<Longrightarrow> running (fst (consume t0 sid q))"
  using consume_frame [of q t0 sid] by (simp add: running_def cq_wf_consume)

lemma produce_running:
  assumes "running q"
  shows "snd (produce x q) =
      (if \<exists>sid l. pending q sid = Some l \<and> length l = length (buffer q) - 1 then Wait else Done ())"
    and "produce x q = (q', Done u) \<Longrightarrow> pending q' sid = map_option (\<lambda>l. l @ [x]) (pending q sid)"
proof -
  have ref: "(case produce x q of (q', r) \<Rightarrow> (abs_channel q', r)) = ch_produce x (abs_channel q)"
    using assms produce_refines by (auto simp: running_def)
  have "\<not> exit_flag q" using assms by (simp add: running_def)
  with ref show "snd (produce x q) =
      (if \<exists>sid l. pending q sid = Some l \<and> length l = length (buffer q) - 1 then Wait else Done ())"
    by (auto simp: ch_produce_def ch_full_def split: prod.splits if_splits)
  assume *: "produce x q = (q', Done u)"
  with ref \<open>\<not> exit_flag q\<close> have "\<not> ch_full (abs_channel q)"
    and "pending q' = (\<lambda>sid. map_option
      (\<lambda>l. if length l = length (buffer q) - 1 then [] else l @ [x]) (pending q sid))"
    by (auto simp: ch_produce_def abs_channel_def split: if_splits)
  then show "pending q' sid = map_option (\<lambda>l. l @ [x]) (pending q sid)"
    by (cases "pending q sid") (auto simp: ch_full_def)
qed

lemma consume_running:
  assumes "running q" and "pending q sid = Some l"
  shows "case l of [] \<Rightarrow> snd (consume t0 sid q) = Wait
    | y # ys \<Rightarrow> snd (consume t0 sid q) = Done y \<and> pending (fst (consume t0 sid q)) sid = Some ys"
proof -
  have "(case consume t0 sid q of (q', r) \<Rightarrow> (abs_channel q', r)) = ch_consume t0 sid (abs_channel q)"
    using assms by (intro consume_refines) (auto simp: running_def)
  moreover have "\<not> exit_flag q" using assms by (simp add: running_def)
  ultimately show ?thesis
    using assms(2)
    by (auto simp: ch_consume_def abs_channel_def split: prod.splits list.splits)
qed

lemma buffer_length:
  "length (buffer (fst (produce x q))) = length (buffer q)"
  "length (buffer (fst (consume t0 sid q))) = length (buffer q)"
  "length (buffer (register_consumer sid q)) = length (buffer q)"
  "length (buffer (unregister_consumer sid q)) = length (buffer q)"
  by (auto simp: produce_def consume_def consumer_slot_def register_consumer_def unregister_consumer_def Let_def
      split: option.split sum.split)

interpretation cq: broadcast_channel running pending "\<lambda>q. length (buffer q) - 1"
  produce "consume t0" register_consumer unregister_consumer for t0
proof unfold_locales
  fix q :: "'a circular_queue" and sid sid' l and x
  assume run: "running q"
  then have wf: "cq_wf q" by (simp add: running_def)
  show "running (register_consumer sid q)" "running (unregister_consumer sid q)"
    using run cq_wf_register [OF wf] cq_wf_unregister [OF wf]
    by (auto simp: running_def register_consumer_def unregister_consumer_def)
  show "pending (register_consumer sid q) = (pending q)(sid \<mapsto> [])"
    using wf by (rule pending_register)
  show "length l \<le> length (buffer q) - 1" if "pending q sid = Some l"
    using pending_length [OF wf that] by simp
  show "pending (fst (consume t0 sid q)) sid' = pending q sid'" if "sid' \<noteq> sid"
    using consume_frame [OF wf] that by blast
qed (simp_all add: running_produce running_consume produce_running consume_running pending_unregister
    buffer_length)

section \<open>Properties\<close>

text \<open>
  C4 (refinement). On every well-formed queue and for every registered session, the ring
  buffer with its indices modulo the capacity does exactly what the abstract channel does:
  \<open>produce\<close> and \<open>consume\<close> have the same outcome (an item, waiting, or the null item
  after \<open>set_exit\<close>) and reach the matching state; registering starts a session with nothing
  to read and unregistering forgets it; and the invariant is kept by all four.
\<close>

theorem queue_refines_channel:
  assumes "cq_wf q" and "pending q sid \<noteq> None"
  shows "(case produce x q of (q', r) \<Rightarrow> (abs_channel q', r)) = ch_produce x (abs_channel q)
    \<and> (case consume t0 sid q of (q', r) \<Rightarrow> (abs_channel q', r)) = ch_consume t0 sid (abs_channel q)
    \<and> pending (register_consumer new q) = (pending q)(new \<mapsto> [])
    \<and> pending (unregister_consumer sid q) = (pending q)(sid := None)
    \<and> cq_wf (fst (produce x q)) \<and> cq_wf (fst (consume t0 sid q))
    \<and> cq_wf (register_consumer new q) \<and> cq_wf (unregister_consumer sid q)"
  using assms
  by (simp add: produce_refines consume_refines pending_register pending_unregister wf_intros)

theorem queue_refines_channel_witness:
  "ch_produce (7::nat) (abs_channel (register_consumer ''A'' (circular_queue 0 3)))
     = (case produce 7 (register_consumer ''A'' (circular_queue 0 3)) of (q', r) \<Rightarrow> (abs_channel q', r))"
proof -
  have wf: "cq_wf (register_consumer ''A'' (circular_queue (0::nat) 3))"
    by (simp add: wf_intros)
  have reg: "pending (register_consumer ''A'' (circular_queue (0::nat) 3)) ''A'' \<noteq> None"
    by (simp add: pending_register wf_intros)
  show ?thesis using queue_refines_channel [OF wf reg, of 7 0 "''B''"] by simp
qed

text \<open>
  C5 (functional). First in, first out, for every session: in any run of sends, receives,
  registrations and removals, in any order and by any number of sessions, a session that
  registers and stays registered receives exactly the items sent since, in the order sent,
  none lost and none twice; what it has not received yet is still in the ring, and is less
  than the capacity.
\<close>

theorem queue_fifo:
  assumes "running q"
    and "run_channel produce (consume t0) register_consumer unregister_consumer ops
           (register_consumer sid q) = Some (q', log)"
    and "stays sid ops"
  shows "\<exists>unread. pending q' sid = Some unread \<and> sent ops = received sid log @ unread
    \<and> length unread \<le> length (buffer q') - 1"
  using cq.fifo_from_join [OF assms] .

theorem queue_fifo_witness:
  "\<exists>q' log unread.
     run_channel produce (consume 0) register_consumer unregister_consumer
       [Send 1, Send 2, Receive ''A'', Send (3::nat)] (register_consumer ''A'' (circular_queue 0 4)) = Some (q', log)
     \<and> pending q' ''A'' = Some unread \<and> [1, 2, 3] = received ''A'' log @ unread"
proof -
  let ?q = "register_consumer ''A'' (circular_queue (0::nat) 4)"
  let ?ops = "[Send 1, Send 2, Receive ''A'', Send (3::nat)]"
  have "run_channel produce (consume 0) register_consumer unregister_consumer ?ops ?q \<noteq> None"
    by code_simp
  then obtain q' log where run: "run_channel produce (consume 0) register_consumer unregister_consumer ?ops ?q
      = Some (q', log)" by auto
  have "running (circular_queue (0::nat) 4)"
    by (simp add: running_def wf_intros) (simp add: circular_queue_def)
  from queue_fifo [OF this run] run show ?thesis by (auto simp: stays_def)
qed

text \<open>
  While the queue runs and has at least two cells, a writer that has to wait
  always has some session with something to read: the writer and the readers never all wait
  for each other.
\<close>

lemma queue_writer_progress:
  assumes "running q" and "2 \<le> length (buffer q)" and "snd (produce x q) = Wait"
  shows "\<exists>sid y. snd (consume t0 sid q) = Done y"
  using cq.blocked_sender_has_reader [OF assms(1) _ assms(3), of t0] assms(2) by simp

lemma queue_writer_progress_witness:
  "\<exists>sid y. snd (consume 0 sid
     (fst (produce (1::nat) (register_consumer ''A'' (circular_queue 0 2))))) = Done y"
proof (rule queue_writer_progress [where x = 2])
  show "running (fst (produce (1::nat) (register_consumer ''A'' (circular_queue 0 2))))"
    by (rule running_produce)
      (simp add: running_def wf_intros, simp add: circular_queue_def register_consumer_def)
qed (simp_all add: circular_queue_def register_consumer_def produce_def Let_def)

end
