(* ===== verification/CircularQueueMonitor.thy ===== *)
theory CircularQueueMonitor
  imports CircularQueue
begin

text \<open>
  The queue of CircularQueue.h with its threads: a thread that has to wait is put to sleep on
  \<open>not_full_\<close> (the writer) or \<open>not_empty_\<close> (a reader) and stays asleep until an operation
  notifies that condition variable; then it takes the mutex again and re-evaluates its loop
  condition. A writer computes \<open>next_position\<close> once, before its loop, and keeps it while it sleeps.
  One event of the model is one critical section. Which operations notify which condition
  variable is what the code says: \<open>unregister_consumer\<close> and \<open>register_consumer\<close> notify none.
\<close>

datatype 'a thread_state =
    Outside
  | Wait_Not_Full 'a nat    \<comment> \<open>the item and \<open>next_position\<close>\<close>
  | Retry_Not_Full 'a nat
  | Wait_Not_Empty string
  | Retry_Not_Empty string

record 'a monitor =
  mon_queue :: "'a circular_queue"
  mon_thread :: "nat \<Rightarrow> 'a thread_state"

fun notify_not_full :: "'a thread_state \<Rightarrow> 'a thread_state" where
  "notify_not_full (Wait_Not_Full x n) = Retry_Not_Full x n"
| "notify_not_full s = s"

fun notify_not_empty :: "'a thread_state \<Rightarrow> 'a thread_state" where
  "notify_not_empty (Wait_Not_Empty sid) = Retry_Not_Empty sid"
| "notify_not_empty s = s"

definition next_position :: "'a circular_queue \<Rightarrow> nat" where
  "next_position q = (write_position q + 1) mod length (buffer q)"

text \<open>\<open>produce\<close> from its loop on.\<close>

definition produce_at :: "nat \<Rightarrow> 'a \<Rightarrow> 'a circular_queue \<Rightarrow> 'a circular_queue \<times> unit outcome" where
  "produce_at n item q =
     (if buffer q = [] then (q, Fail (Undefined ''remainder by zero''))
      else if is_position_in_use q n \<and> \<not> exit_flag q then (q, Wait)
      else (q\<lparr>buffer := (buffer q)[write_position q := item], write_position := n\<rparr>, Done ()))"

lemma produce_at_next: "produce_at (next_position q) x q = produce x q"
  by (simp add: produce_at_def produce_def next_position_def Let_def)

text \<open>\<open>produce\<close> and \<open>consume\<close> by thread \<open>t\<close>, on entry and after every wake-up.\<close>

definition mon_produce :: "nat \<Rightarrow> 'a \<Rightarrow> nat \<Rightarrow> 'a monitor \<Rightarrow> 'a monitor option" where
  "mon_produce t x n m =
     (case produce_at n x (mon_queue m) of
        (q, Wait) \<Rightarrow> Some (m\<lparr>mon_queue := q, mon_thread := (mon_thread m)(t := Wait_Not_Full x n)\<rparr>)
      | (q, Done _) \<Rightarrow>
          Some (m\<lparr>mon_queue := q, mon_thread := (notify_not_empty \<circ> mon_thread m)(t := Outside)\<rparr>)
      | (q, Fail _) \<Rightarrow> None)"

definition mon_consume :: "'a \<Rightarrow> nat \<Rightarrow> string \<Rightarrow> 'a monitor \<Rightarrow> 'a monitor option" where
  "mon_consume t0 t sid m =
     (case consume t0 sid (mon_queue m) of
        (q, Wait) \<Rightarrow> Some (m\<lparr>mon_queue := q, mon_thread := (mon_thread m)(t := Wait_Not_Empty sid)\<rparr>)
      | (q, Done _) \<Rightarrow>
          Some (m\<lparr>mon_queue := q,
                  mon_thread := (if exit_flag q then mon_thread m
                                 else notify_not_full \<circ> mon_thread m)(t := Outside)\<rparr>)
      | (q, Fail _) \<Rightarrow> None)"

datatype 'a mon_event =
    Call_Produce nat 'a
  | Call_Consume nat string
  | Retry nat
  | Spurious nat
  | Call_Set_Exit
  | Call_Set_Run
  | Call_Register string
  | Call_Unregister string

fun mon_exec :: "'a \<Rightarrow> 'a mon_event \<Rightarrow> 'a monitor \<Rightarrow> 'a monitor option" where
  "mon_exec t0 (Call_Produce t x) m =
     (case mon_thread m t of Outside \<Rightarrow> mon_produce t x (next_position (mon_queue m)) m | _ \<Rightarrow> None)"
| "mon_exec t0 (Call_Consume t sid) m =
     (case mon_thread m t of Outside \<Rightarrow> mon_consume t0 t sid m | _ \<Rightarrow> None)"
| "mon_exec t0 (Retry t) m =
     (case mon_thread m t of
        Retry_Not_Full x n \<Rightarrow> mon_produce t x n m
      | Retry_Not_Empty sid \<Rightarrow> mon_consume t0 t sid m
      | _ \<Rightarrow> None)"
| "mon_exec t0 (Spurious t) m =
     Some (m\<lparr>mon_thread := (mon_thread m)(t := notify_not_full (notify_not_empty (mon_thread m t)))\<rparr>)"
| "mon_exec t0 Call_Set_Exit m =
     Some (m\<lparr>mon_queue := set_exit (mon_queue m),
             mon_thread := notify_not_full \<circ> (notify_not_empty \<circ> mon_thread m)\<rparr>)"
| "mon_exec t0 Call_Set_Run m =
     Some (m\<lparr>mon_queue := set_run (mon_queue m), mon_thread := notify_not_full \<circ> mon_thread m\<rparr>)"
| "mon_exec t0 (Call_Register sid) m = Some (m\<lparr>mon_queue := register_consumer sid (mon_queue m)\<rparr>)"
| "mon_exec t0 (Call_Unregister sid) m = Some (m\<lparr>mon_queue := unregister_consumer sid (mon_queue m)\<rparr>)"

definition mon_init :: "'a \<Rightarrow> nat \<Rightarrow> 'a monitor" where
  "mon_init t0 capacity = \<lparr>mon_queue = circular_queue t0 capacity, mon_thread = (\<lambda>_. Outside)\<rparr>"

fun mon_run :: "'a \<Rightarrow> 'a mon_event list \<Rightarrow> 'a monitor \<Rightarrow> 'a monitor option" where
  "mon_run t0 [] m = Some m"
| "mon_run t0 (e # es) m = (case mon_exec t0 e m of None \<Rightarrow> None | Some m' \<Rightarrow> mon_run t0 es m')"

section \<open>No lost wake-up without unregistering\<close>

text \<open>The \<open>next_position\<close> of a thread that is in \<open>produce\<close>.\<close>

fun writing :: "'a thread_state \<Rightarrow> nat option" where
  "writing (Wait_Not_Full x n) = Some n"
| "writing (Retry_Not_Full x n) = Some n"
| "writing s = None"

lemma writing_notify [simp]:
  "writing (notify_not_full s) = writing s" "writing (notify_not_empty s) = writing s"
  by (cases s; simp)+

text \<open>
  The events after which every sleeper still has a reason to sleep: all but unregistering,
  and registering a session again. As in the program, where a track has one producer thread,
  nobody calls \<open>produce\<close> while another thread is in it.
\<close>

fun quiet_event :: "'a monitor \<Rightarrow> 'a mon_event \<Rightarrow> bool" where
  "quiet_event m (Call_Produce t x) = (\<forall>t'. writing (mon_thread m t') = None)"
| "quiet_event m (Call_Register sid) = (map_of (consumer_positions (mon_queue m)) sid = None)"
| "quiet_event m (Call_Unregister sid) = False"
| "quiet_event m e = True"

inductive mon_reach :: "'a \<Rightarrow> nat \<Rightarrow> 'a monitor \<Rightarrow> bool" for t0 n where
  start: "mon_reach t0 n (mon_init t0 n)"
| step: "mon_reach t0 n m \<Longrightarrow> quiet_event m e \<Longrightarrow> mon_exec t0 e m = Some m' \<Longrightarrow> mon_reach t0 n m'"

fun blocked_for_good_reason :: "'a circular_queue \<Rightarrow> 'a thread_state \<Rightarrow> bool" where
  "blocked_for_good_reason q (Wait_Not_Full x n) = (is_position_in_use q n \<and> \<not> exit_flag q)"
| "blocked_for_good_reason q (Wait_Not_Empty sid) =
     (map_of (consumer_positions q) sid = Some (write_position q) \<and> \<not> exit_flag q)"
| "blocked_for_good_reason q s = True"

text \<open>At most one thread is in \<open>produce\<close>, and the position it keeps is still the next one.\<close>

definition one_writer :: "'a circular_queue \<Rightarrow> (nat \<Rightarrow> 'a thread_state) \<Rightarrow> bool" where
  "one_writer q th \<longleftrightarrow> (\<forall>t n. writing (th t) = Some n \<longrightarrow> n = next_position q \<and> (\<forall>t'. t' \<noteq> t \<longrightarrow> writing (th t') = None))"

definition mon_ok :: "'a monitor \<Rightarrow> bool" where
  "mon_ok m \<longleftrightarrow> cq_wf (mon_queue m) \<and> (\<forall>t. blocked_for_good_reason (mon_queue m) (mon_thread m t))
     \<and> one_writer (mon_queue m) (mon_thread m)"

lemma blocked_not_writing: "writing s = None \<Longrightarrow> blocked_for_good_reason q (notify_not_empty s)"
  by (cases s) auto

lemma one_writerD:
  assumes "one_writer q th" and "writing (th t) = Some n"
  shows "n = next_position q" and "t' \<noteq> t \<Longrightarrow> writing (th t') = None"
  using assms unfolding one_writer_def by blast+

lemma one_writer_update:
  assumes "\<And>t'. t' \<noteq> t \<Longrightarrow> writing (th t') = None"
    and "\<And>n. writing s = Some n \<Longrightarrow> n = next_position q"
  shows "one_writer q (th(t := s))"
  using assms by (auto simp: one_writer_def)

lemma one_writer_frame:
  assumes "one_writer q th" and "next_position q' = next_position q"
    and "\<And>t. writing (th' t) = None \<or> writing (th' t) = writing (th t)"
  shows "one_writer q' th'"
  using assms unfolding one_writer_def by (metis option.distinct(1))

lemma blocked_frame:
  assumes "blocked_for_good_reason q s"
    and "exit_flag q' = exit_flag q" "write_position q' = write_position q"
    and "\<And>n. is_position_in_use q n \<Longrightarrow> is_position_in_use q' n"
    and "\<And>sid. s = Wait_Not_Empty sid \<Longrightarrow>
      map_of (consumer_positions q') sid = map_of (consumer_positions q) sid"
  shows "blocked_for_good_reason q' s"
  using assms by (cases s) auto

lemma in_use_add_consumer:
  assumes "cq_wf q" "map_of (consumer_positions q) sid = None" "is_position_in_use q n"
  shows "is_position_in_use (q\<lparr>consumer_positions := map_put sid p (consumer_positions q)\<rparr>) n"
proof -
  obtain sid' where "map_of (consumer_positions q) sid' = Some n"
    using assms in_use_iff by blast
  then have "(sid', n) \<in> set (map_put sid p (consumer_positions q))"
    using assms(2) by (intro map_of_SomeD) (auto simp: map_of_map_put)
  then show ?thesis by (force simp: list_ex_iff)
qed

lemma mon_produce_ok:
  assumes "mon_ok m" and "mon_produce t x (next_position (mon_queue m)) m = Some m'"
    and alone: "\<And>t'. t' \<noteq> t \<Longrightarrow> writing (mon_thread m t') = None"
  shows "mon_ok m'"
proof -
  let ?q = "mon_queue m" and ?n = "next_position (mon_queue m)"
  have wf: "cq_wf ?q" and bl: "\<And>t. blocked_for_good_reason ?q (mon_thread m t)"
    using assms(1) by (simp_all add: mon_ok_def)
  have ne: "buffer ?q \<noteq> []" using wf by (auto simp: cq_wf_def)
  show ?thesis
  proof (cases "is_position_in_use ?q ?n \<and> \<not> exit_flag ?q")
    case True
    then have "m' = m\<lparr>mon_queue := ?q, mon_thread := (mon_thread m)(t := Wait_Not_Full x ?n)\<rparr>"
      using assms(2) ne by (auto simp: mon_produce_def produce_at_def)
    moreover have "one_writer ?q ((mon_thread m)(t := Wait_Not_Full x ?n))"
      by (rule one_writer_update) (use alone in auto)
    ultimately show ?thesis using True wf bl by (simp add: mon_ok_def)
  next
    case False
    then obtain q' where q': "produce_at ?n x ?q = (q', Done ())"
      using ne by (auto simp: produce_at_def)
    then have "cq_wf q'" using cq_wf_produce [OF wf, of x] by (simp add: produce_at_next)
    with assms(2) q' show ?thesis
      by (auto simp: mon_produce_def mon_ok_def blocked_not_writing alone intro!: one_writer_update)
  qed
qed

lemma mon_consume_ok:
  assumes "mon_ok m" and "mon_consume t0 t sid m = Some m'"
  shows "mon_ok m'"
proof -
  let ?q = "mon_queue m"
  have wf: "cq_wf ?q" and bl: "\<And>t. blocked_for_good_reason ?q (mon_thread m t)"
    and one: "one_writer ?q (mon_thread m)"
    using assms(1) by (simp_all add: mon_ok_def)
  obtain q1 p where q1: "consumer_slot sid ?q = (q1, p)" by (cases "consumer_slot sid ?q")
  note slot = consumer_slot_wf [OF wf q1]
  have bl1: "blocked_for_good_reason q1 (mon_thread m t)" for t
  proof (rule blocked_frame [OF bl])
    fix n assume "is_position_in_use ?q n"
    then show "is_position_in_use q1 n"
      using q1 in_use_add_consumer [OF wf] by (auto simp: consumer_slot_def split: option.splits)
  next
    fix sid' assume "mon_thread m t = Wait_Not_Empty sid'"
    then have "map_of (consumer_positions ?q) sid' = Some (write_position ?q)"
      using bl [of t] by simp
    then show "map_of (consumer_positions q1) sid' = map_of (consumer_positions ?q) sid'"
      using q1 by (auto simp: consumer_slot_def map_of_map_put split: option.splits)
  qed (use slot in auto)
  have pos: "next_position q1 = next_position ?q" using slot by (simp add: next_position_def)
  note one1 = one_writer_frame [OF one]
  consider (wait) "p = write_position q1" "\<not> exit_flag q1" | (exit) "exit_flag q1"
    | (item) "p \<noteq> write_position q1" "\<not> exit_flag q1" by blast
  then show ?thesis
  proof cases
    case wait
    with assms(2) have "m' = m\<lparr>mon_queue := q1, mon_thread := (mon_thread m)(t := Wait_Not_Empty sid)\<rparr>"
      by (simp add: mon_consume_def consume_def q1)
    with wait slot bl1 show ?thesis by (auto simp: mon_ok_def pos intro!: one1)
  next
    case exit
    with assms(2) have "m' = m\<lparr>mon_queue := q1, mon_thread := (mon_thread m)(t := Outside)\<rparr>"
      by (simp add: mon_consume_def consume_def q1)
    with slot bl1 show ?thesis by (auto simp: mon_ok_def pos intro!: one1)
  next
    case item
    let ?q2 = "q1\<lparr>consumer_positions := map_put sid (Suc p mod length (buffer q1)) (consumer_positions q1)\<rparr>"
    have rd: "read_at (buffer q1) p = Inr (buffer q1 ! p)"
      by (rule read_at_ok) (use slot in blast)
    have m': "m' = m\<lparr>mon_queue := ?q2, mon_thread := (notify_not_full \<circ> mon_thread m)(t := Outside)\<rparr>"
      using item assms(2) by (simp add: mon_consume_def consume_def q1 rd)
    have "cq_wf ?q2" using cq_wf_consume [OF wf, of t0 sid] item by (simp add: consume_def q1 rd)
    moreover have "blocked_for_good_reason ?q2 (notify_not_full (mon_thread m t'))" for t'
      using bl1 [of t'] item slot
      by (cases "mon_thread m t'") (auto simp: map_of_map_put)
    moreover have "next_position ?q2 = next_position ?q" using pos by (simp add: next_position_def)
    ultimately show ?thesis by (auto simp: mon_ok_def m' intro!: one1)
  qed
qed

lemma blocked_notify_both:
  "blocked_for_good_reason q (notify_not_full (notify_not_empty s))"
  by (cases s) auto

lemma next_position_frame [simp]:
  "next_position (set_exit q) = next_position q" "next_position (set_run q) = next_position q"
  "next_position (register_consumer sid q) = next_position q"
  by (simp_all add: next_position_def set_exit_def set_run_def register_consumer_def)

lemma mon_exec_ok:
  assumes "mon_ok m" and "quiet_event m e" and "mon_exec t0 e m = Some m'"
  shows "mon_ok m'"
proof (cases e)
  case (Call_Produce t x)
  with assms show ?thesis by (auto intro: mon_produce_ok split: thread_state.splits)
next
  case (Call_Consume t sid)
  with assms show ?thesis by (auto intro: mon_consume_ok split: thread_state.splits)
next
  case (Retry t)
  have one: "one_writer (mon_queue m) (mon_thread m)" using assms by (simp add: mon_ok_def)
  show ?thesis
  proof (cases "mon_thread m t")
    case (Retry_Not_Full x n)
    then have n: "n = next_position (mon_queue m)" and "\<And>t'. t' \<noteq> t \<Longrightarrow> writing (mon_thread m t') = None"
      using one_writerD [OF one, of t n] by auto
    then show ?thesis
      using assms Retry Retry_Not_Full by (intro mon_produce_ok [OF assms(1), of t x]) auto
  next
    case (Retry_Not_Empty sid)
    with assms Retry show ?thesis by (auto intro: mon_consume_ok)
  qed (use assms Retry in auto)
next
  case (Spurious t)
  with assms show ?thesis
    by (auto simp: mon_ok_def blocked_notify_both elim!: one_writer_frame)
next
  case Call_Set_Exit
  with assms show ?thesis
    by (auto simp: mon_ok_def cq_wf_set_exit blocked_notify_both intro: one_writer_frame)
next
  case Call_Set_Run
  have "blocked_for_good_reason (set_run (mon_queue m)) (notify_not_full (mon_thread m t))" for t
  proof -
    have "blocked_for_good_reason (mon_queue m) (mon_thread m t)"
      using assms by (simp add: mon_ok_def)
    then show ?thesis by (cases "mon_thread m t") (auto simp: set_run_def)
  qed
  with assms Call_Set_Run show ?thesis
    by (auto simp: mon_ok_def cq_wf_set_run intro: one_writer_frame)
next
  case (Call_Register sid)
  have wf: "cq_wf (mon_queue m)" using assms by (simp add: mon_ok_def)
  have fresh: "map_of (consumer_positions (mon_queue m)) sid = None"
    using assms Call_Register by simp
  have "blocked_for_good_reason (register_consumer sid (mon_queue m)) (mon_thread m t)" for t
  proof (rule blocked_frame)
    show bl: "blocked_for_good_reason (mon_queue m) (mon_thread m t)"
      using assms by (simp add: mon_ok_def)
    fix sid' assume "mon_thread m t = Wait_Not_Empty sid'"
    with bl fresh show "map_of (consumer_positions (register_consumer sid (mon_queue m))) sid' =
        map_of (consumer_positions (mon_queue m)) sid'"
      by (auto simp: register_consumer_def map_of_map_put)
  next
    show "is_position_in_use (register_consumer sid (mon_queue m)) n"
      if "is_position_in_use (mon_queue m) n" for n
      unfolding register_consumer_def using in_use_add_consumer [OF wf fresh that] .
  qed (simp_all add: register_consumer_def)
  with assms Call_Register show ?thesis
    by (auto simp: mon_ok_def cq_wf_register intro: one_writer_frame)
next
  case (Call_Unregister sid)
  with assms show ?thesis by simp
qed

lemma mon_exec_capacity:
  "mon_exec t0 e m = Some m' \<Longrightarrow> length (buffer (mon_queue m')) = length (buffer (mon_queue m))"
  by (cases e)
    (auto simp: mon_produce_def mon_consume_def produce_at_def consume_def consumer_slot_def Let_def
      set_exit_def set_run_def register_consumer_def unregister_consumer_def
      split: thread_state.splits prod.splits outcome.splits if_splits option.splits sum.splits)

lemma mon_reach_capacity: "mon_reach t0 n m \<Longrightarrow> length (buffer (mon_queue m)) = n"
proof (induction rule: mon_reach.induct)
  case start
  then show ?case by (simp add: mon_init_def circular_queue_def)
next
  case (step m e m')
  then show ?case using mon_exec_capacity by metis
qed

lemma mon_reach_ok: "mon_reach t0 n m \<Longrightarrow> 0 < n \<Longrightarrow> mon_ok m"
proof (induction rule: mon_reach.induct)
  case start
  then show ?case by (simp add: mon_ok_def mon_init_def cq_wf_init one_writer_def)
next
  case (step m e m')
  from step.IH [OF step.prems] step.hyps(2,3) show ?case by (rule mon_exec_ok)
qed

section \<open>Properties\<close>

lemma sleeping_writer_waits:
  assumes "mon_ok m" and "mon_thread m t = Wait_Not_Full x n"
  shows "produce_at n x (mon_queue m) = (mon_queue m, Wait)"
proof -
  have "blocked_for_good_reason (mon_queue m) (mon_thread m t)" "buffer (mon_queue m) \<noteq> []"
    using assms(1) by (auto simp: mon_ok_def cq_wf_def)
  with assms(2) show ?thesis by (simp add: produce_at_def)
qed

lemma sleeping_reader_waits:
  assumes "mon_ok m" and "mon_thread m t = Wait_Not_Empty sid"
  shows "consume t0 sid (mon_queue m) = (mon_queue m, Wait)"
proof -
  have "blocked_for_good_reason (mon_queue m) (mon_thread m t)"
    using assms(1) by (auto simp: mon_ok_def)
  with assms(2) show ?thesis by (simp add: consume_def consumer_slot_def)
qed

text \<open>
  C9 (safety). No lost wake-up: in every state the threads can reach by producing, consuming,
  exiting, restarting, registering new sessions and waking up (spuriously or not), with one
  producer thread at a time, a sleeping writer would still have to wait if it looked again, a sleeping reader too, and while a
  writer sleeps there is a session with something to read whose reader is not asleep.
\<close>

theorem no_lost_wakeup:
  assumes "mon_reach t0 n m" and "2 \<le> n"
  shows "(mon_thread m t = Wait_Not_Full x p' \<longrightarrow>
            produce_at p' x (mon_queue m) = (mon_queue m, Wait)
            \<and> (\<exists>sid p. map_of (consumer_positions (mon_queue m)) sid = Some p
                 \<and> p \<noteq> write_position (mon_queue m) \<and> (\<forall>t'. mon_thread m t' \<noteq> Wait_Not_Empty sid)))
    \<and> (mon_thread m t = Wait_Not_Empty sid \<longrightarrow> consume t0 sid (mon_queue m) = (mon_queue m, Wait))"
proof -
  let ?q = "mon_queue m"
  have ok: "mon_ok m" using assms by (intro mon_reach_ok) auto
  have wf: "cq_wf ?q" and bl: "blocked_for_good_reason ?q (mon_thread m t')" for t'
    using ok by (auto simp: mon_ok_def)
  have cap: "2 \<le> length (buffer ?q)" using mon_reach_capacity [OF assms(1)] assms(2) by simp
  have "\<exists>sid p. map_of (consumer_positions ?q) sid = Some p
      \<and> p \<noteq> write_position ?q \<and> (\<forall>t'. mon_thread m t' \<noteq> Wait_Not_Empty sid)"
    if "mon_thread m t = Wait_Not_Full x p'"
  proof -
    have "p' = next_position ?q" using ok that one_writerD(1) [of ?q "mon_thread m" t] by (simp add: mon_ok_def)
    with bl [of t] that obtain sid
      where sid: "map_of (consumer_positions ?q) sid = Some (Suc (write_position ?q) mod length (buffer ?q))"
      using in_use_iff [OF wf] by (auto simp: next_position_def)
    have "Suc (write_position ?q) mod length (buffer ?q) \<noteq> write_position ?q"
      using wf cap by (auto simp: cq_wf_def Suc_mod_cases)
    moreover have "mon_thread m t' \<noteq> Wait_Not_Empty sid" for t'
      using bl [of t'] sid calculation by auto
    ultimately show ?thesis using sid by blast
  qed
  then show ?thesis using sleeping_writer_waits [OF ok] sleeping_reader_waits [OF ok] by blast
qed

text \<open>
  C10 (error). \<open>unregister_consumer\<close> loses a wake-up: when the writer sleeps only because of
  the session that is now removed, and every other thread sleeps too, then after the removal
  the writer could go on, but it is still asleep, nobody has been notified, and no thread of
  the queue can take a step of its own (a spurious wake-up apart).
\<close>

theorem unregister_loses_wakeup:
  assumes "mon_ok m" and "mon_thread m t = Wait_Not_Full x n"
    and "\<forall>t'. (\<forall>y p. mon_thread m t' \<noteq> Retry_Not_Full y p) \<and> (\<forall>s. mon_thread m t' \<noteq> Retry_Not_Empty s)"
    and "\<forall>sid'. map_of (consumer_positions (mon_queue m)) sid' =
           Some n \<longrightarrow> sid' = sid"
  shows "\<exists>m'. mon_exec t0 (Call_Unregister sid) m = Some m'
    \<and> snd (produce_at n x (mon_queue m')) = Done ()
    \<and> mon_thread m' t = Wait_Not_Full x n \<and> (\<forall>t'. mon_exec t0 (Retry t') m' = None)"
proof -
  let ?q = "unregister_consumer sid (mon_queue m)"
  have wf: "cq_wf (mon_queue m)" using assms(1) by (simp add: mon_ok_def)
  have wf': "cq_wf ?q" by (rule cq_wf_unregister [OF wf])
  have "\<not> is_position_in_use ?q n"
    unfolding in_use_iff [OF wf'] using assms(4)
    by (auto simp: unregister_consumer_def map_of_map_erase)
  moreover have "buffer ?q \<noteq> []" using wf' by (auto simp: cq_wf_def)
  ultimately have "snd (produce_at n x ?q) = Done ()" by (simp add: produce_at_def)
  moreover have "mon_exec t0 (Retry t') (m\<lparr>mon_queue := ?q\<rparr>) = None" for t'
    using assms(3) [rule_format, of t'] by (auto split: thread_state.splits)
  ultimately show ?thesis using assms(2) by simp
qed

text \<open>One session that reads nothing, and a writer that fills the two-cell queue and sleeps.\<close>

theorem no_lost_wakeup_witness:
  "\<exists>m. mon_reach (0::nat) 2 m \<and> mon_thread m 0 = Wait_Not_Full 2 0
     \<and> produce_at 0 2 (mon_queue m) = (mon_queue m, Wait)"
proof -
  note events = mon_init_def circular_queue_def register_consumer_def mon_produce_def produce_at_def
    next_position_def consume_def consumer_slot_def Let_def numeral_2_eq_2
  obtain m1 where m1: "mon_exec 0 (Call_Register ''A'') (mon_init (0::nat) 2) = Some m1" by simp
  obtain m2 where m2: "mon_exec 0 (Call_Produce 0 1) m1 = Some m2"
    using m1 by (auto simp: events)
  obtain m3 where m3: "mon_exec 0 (Call_Produce 0 2) m2 = Some m3" "mon_thread m3 0 = Wait_Not_Full 2 0"
    "\<forall>t'. writing (mon_thread m2 t') = None"
    using m1 m2 by (auto simp: events)
  have "mon_reach 0 2 m1"
    by (rule mon_reach.step [OF mon_reach.start _ m1]) (simp add: mon_init_def circular_queue_def)
  from mon_reach.step [OF this _ m2] have "mon_reach 0 2 m2" using m1 by (auto simp: mon_init_def)
  from mon_reach.step [OF this _ m3(1)] have "mon_reach 0 2 m3" using m3(3) by simp
  from no_lost_wakeup [OF this, of 0 2 0] m3(2)
  have "produce_at 0 2 (mon_queue m3) = (mon_queue m3, Wait)" by simp
  with m3(2) \<open>mon_reach 0 2 m3\<close> show ?thesis by blast
qed

text \<open>
  The witness is a run of the program: two sessions on a two-cell queue, the writer asleep
  because session B has not read, session A's reader asleep because it has read everything.
\<close>

theorem unregister_loses_wakeup_witness:
  "\<exists>m m'. mon_run 0 [Call_Register ''A'', Call_Register ''B'', Call_Produce 0 1, Call_Produce 0 2,
              Call_Consume 1 ''A'', Retry 0, Call_Consume 1 ''A''] (mon_init 0 2) = Some m
     \<and> mon_exec 0 (Call_Unregister ''B'') m = Some m'
     \<and> mon_thread m' 0 = Wait_Not_Full (2::nat) 0 \<and> (\<forall>t'. mon_exec 0 (Retry t') m' = None)"
proof -
  let ?m = "\<lparr>mon_queue = \<lparr>buffer = [1::nat, 0], write_position = 1,
      consumer_positions = [(''A'', 1), (''B'', 0)], exit_flag = False\<rparr>,
      mon_thread = (notify_not_full \<circ> (notify_not_empty \<circ> (\<lambda>_. Outside))(0 := Wait_Not_Full 2 0))
        (0 := Wait_Not_Full 2 0, 1 := Wait_Not_Empty ''A'')\<rparr>"
  have run: "mon_run 0 [Call_Register ''A'', Call_Register ''B'', Call_Produce 0 1, Call_Produce 0 2,
      Call_Consume 1 ''A'', Retry 0, Call_Consume 1 ''A''] (mon_init (0::nat) 2) = Some ?m"
    by (simp add: mon_init_def circular_queue_def register_consumer_def mon_produce_def mon_consume_def
        produce_at_def next_position_def consume_def consumer_slot_def Let_def read_at_def
        numeral_2_eq_2 less_char_def)
  have "mon_ok ?m"
    by (auto simp: mon_ok_def cq_wf_def sorted_keys_def less_char_def one_writer_def next_position_def)
  then have "\<exists>m'. mon_exec 0 (Call_Unregister ''B'') ?m = Some m'
    \<and> snd (produce_at 0 2 (mon_queue m')) = Done ()
    \<and> mon_thread m' 0 = Wait_Not_Full (2::nat) 0 \<and> (\<forall>t'. mon_exec 0 (Retry t') m' = None)"
    by (rule unregister_loses_wakeup) auto
  with run show ?thesis by blast
qed

end
