(* ===== verification/CppText.thy ===== *)
theory CppText
  imports Prelude
begin

text \<open>
  What the sources use of \<open>std::string\<close>, \<open>std::istringstream\<close> and number conversion, in the
  C locale: \<open>getline\<close>, \<open>operator>>\<close> into a string, \<open>find_first_not_of\<close> and
  \<open>find_last_not_of\<close> with \<open>substr\<close>, \<open>std::stoi\<close>, \<open>std::to_string\<close>, and \<open>setw\<close>/\<open>setfill\<close>.
  A stream is the text not read yet.
\<close>

abbreviation CR :: char where "CR \<equiv> CHR 0x0D"
abbreviation LF :: char where "LF \<equiv> CHR 0x0A"
abbreviation crlf :: string where "crlf \<equiv> [CR, LF]"

definition is_space :: "char \<Rightarrow> bool" where
  "is_space c \<longleftrightarrow> c \<in> {CHR '' '', CHR 0x09, LF, CHR 0x0B, CHR 0x0C, CR}"

definition is_digit :: "char \<Rightarrow> bool" where
  "is_digit c \<longleftrightarrow> CHR ''0'' \<le> c \<and> c \<le> CHR ''9''"

section \<open>Streams\<close>

text \<open>
  \<open>getline\<close> extracts up to the delimiter and discards it; at the end of the stream it
  extracts nothing and fails.
\<close>

definition getline :: "char \<Rightarrow> string \<Rightarrow> (string \<times> string) option" where
  "getline delim s =
     (if s = [] then None
      else Some (takeWhile (\<lambda>c. c \<noteq> delim) s, drop 1 (dropWhile (\<lambda>c. c \<noteq> delim) s)))"

text \<open>
  \<open>operator>>\<close> skips white space and extracts up to the next white space; with nothing left
  it fails and leaves its argument alone.
\<close>

definition extract_word :: "string \<Rightarrow> (string \<times> string) option" where
  "extract_word s =
     (case dropWhile is_space s of
        [] \<Rightarrow> None
      | w \<Rightarrow> Some (takeWhile (\<lambda>c. \<not> is_space c) w, dropWhile (\<lambda>c. \<not> is_space c) w))"

lemma list_all_neq: "d \<notin> set s \<Longrightarrow> list_all (\<lambda>c. c \<noteq> d) s"
  by (auto simp: list_all_iff)

lemma getline_append:
  "d \<notin> set line \<Longrightarrow> getline d (line @ d # rest) = Some (line, rest)"
  by (simp add: getline_def while_stop_simps list_all_neq)

lemma getline_last:
  "d \<notin> set line \<Longrightarrow> line \<noteq> [] \<Longrightarrow> getline d line = Some (line, [])"
  by (simp add: getline_def while_stop_simps list_all_neq)

lemma getline_rest_length: "getline d s = Some (line, rest) \<Longrightarrow> length rest < length s"
proof -
  assume "getline d s = Some (line, rest)"
  then have ne: "s \<noteq> []" and rest: "rest = drop 1 (dropWhile (\<lambda>c. c \<noteq> d) s)"
    by (auto simp: getline_def split: if_splits)
  have "length (dropWhile (\<lambda>c. c \<noteq> d) s) \<le> length s" by (rule length_dropWhile_le)
  with ne rest show ?thesis
    by (cases s) (auto simp: le_less_trans [OF _ lessI] intro: le_less_trans [OF diff_le_self] split: if_splits)
qed

definition word :: "string \<Rightarrow> bool" where
  "word w \<longleftrightarrow> w \<noteq> [] \<and> list_all (\<lambda>c. \<not> is_space c) w"

lemma word_no_space: "word w \<Longrightarrow> is_space c \<Longrightarrow> c \<notin> set w"
  by (auto simp: word_def list_all_iff)

lemma is_space_simps [simp]: "is_space CHR '' ''" "is_space CR" "is_space LF"
  by (simp_all add: is_space_def)

lemma extract_word_append:
  assumes "word w" and "is_space c"
  shows "extract_word (w @ c # rest) = Some (w, c # rest)"
proof -
  obtain x xs where w: "w = x # xs" using assms(1) by (cases w) (auto simp: word_def)
  then have "dropWhile is_space (w @ c # rest) = w @ c # rest"
    using assms(1) by (simp add: word_def)
  moreover have "takeWhile (\<lambda>c. \<not> is_space c) (w @ c # rest) = w"
    and "dropWhile (\<lambda>c. \<not> is_space c) (w @ c # rest) = c # rest"
    using assms by (simp_all add: word_def while_stop_simps)
  ultimately show ?thesis using w by (auto simp: extract_word_def split: list.split)
qed

lemma extract_word_word:
  assumes "extract_word s = Some (w, r)"
  shows "word w"
proof -
  obtain c cs where c: "dropWhile is_space s = c # cs" "w = takeWhile (\<lambda>c. \<not> is_space c) (c # cs)"
    using assms by (auto simp: extract_word_def split: list.splits)
  have "\<not> is_space c" using hd_dropWhile [of is_space s] c(1) by simp
  then show ?thesis using c(2) by (auto simp: word_def list_all_iff dest: set_takeWhileD)
qed

lemma getline_Some:
  assumes "getline d s = Some (l, r)"
  shows "d \<notin> set l" and "set l \<subseteq> set s" and "set r \<subseteq> set s"
  using assms by (auto simp: getline_def split: if_splits dest: set_takeWhileD set_dropWhileD in_set_dropD)

lemma extract_word_space:
  "is_space c \<Longrightarrow> extract_word (c # s) = extract_word s"
  by (simp add: extract_word_def)

section \<open>Trimming\<close>

text \<open>
  \<open>s.substr(begin_pos, end_pos - begin_pos + 1)\<close> with the positions that
  \<open>find_first_not_of(' ')\<close> and \<open>find_last_not_of(' ')\<close> return. When there is no other
  character than blanks the first is \<open>npos\<close>, which is past the end, and \<open>substr\<close> throws.
\<close>

definition find_first_not_of :: "char \<Rightarrow> string \<Rightarrow> nat option" where
  "find_first_not_of c s =
     (let n = length (takeWhile (\<lambda>x. x = c) s) in if n < length s then Some n else None)"

definition find_last_not_of :: "char \<Rightarrow> string \<Rightarrow> nat option" where
  "find_last_not_of c s =
     (let n = length (takeWhile (\<lambda>x. x = c) (rev s)) in if n < length s then Some (length s - 1 - n) else None)"

definition trim_substr :: "string \<Rightarrow> string result" where
  "trim_substr s =
     (case (find_first_not_of CHR '' '' s, find_last_not_of CHR '' '' s) of
        (Some begin_pos, Some end_pos) \<Rightarrow> Inr (take (end_pos - begin_pos + 1) (drop begin_pos s))
      | _ \<Rightarrow> Inl Out_Of_Range)"

lemma trim_substr_blank:
  assumes "set s \<subseteq> {CHR '' ''}"
  shows "trim_substr s = Inl Out_Of_Range"
proof -
  have "takeWhile (\<lambda>c. c = CHR '' '') s = s" using assms by (auto simp: takeWhile_eq_all_conv)
  then show ?thesis by (simp add: trim_substr_def find_first_not_of_def Let_def del: takeWhile_eq_all_conv)
qed

definition trimmed :: "string \<Rightarrow> bool" where
  "trimmed s \<longleftrightarrow> s \<noteq> [] \<and> hd s \<noteq> CHR '' '' \<and> last s \<noteq> CHR '' ''"

lemma trim_substr_space:
  assumes "trimmed s"
  shows "trim_substr (CHR '' '' # s) = Inr s"
proof -
  obtain x xs where s: "s = x # xs" "x \<noteq> CHR '' ''"
    using assms by (cases s) (auto simp: trimmed_def)
  obtain y ys where r: "s = ys @ [y]" "y \<noteq> CHR '' ''"
    using assms by (cases s rule: rev_cases) (auto simp: trimmed_def)
  have "find_first_not_of CHR '' '' (CHR '' '' # s) = Some 1"
    using s by (simp add: find_first_not_of_def)
  moreover have "find_last_not_of CHR '' '' (CHR '' '' # s) = Some (length s)"
    using r by (simp add: find_last_not_of_def)
  moreover have "length s - 1 + 1 = length s" using s by simp
  ultimately show ?thesis by (simp add: trim_substr_def)
qed

lemma takeWhile_blanks:
  assumes "s \<noteq> []" and "hd s \<noteq> c"
  shows "takeWhile (\<lambda>x. x = c) (replicate n c @ s @ r) = replicate n c"
  using assms by (cases s) (auto simp: takeWhile_append)

lemma trim_substr_blanks:
  assumes "trimmed s"
  shows "trim_substr (replicate b CHR '' '' @ s @ replicate a CHR '' '') = Inr s"
proof -
  let ?t = "replicate b CHR '' '' @ s @ replicate a CHR '' ''"
  have s: "s \<noteq> []" "hd s \<noteq> CHR '' ''" "rev s \<noteq> []" "hd (rev s) \<noteq> CHR '' ''"
    using assms by (auto simp: trimmed_def hd_rev)
  have "find_first_not_of CHR '' '' ?t = Some b"
    using takeWhile_blanks [OF s(1,2), of b] s(1) by (simp add: find_first_not_of_def)
  moreover have "find_last_not_of CHR '' '' ?t = Some (b + length s - 1)"
    using takeWhile_blanks [OF s(3,4), of a "replicate b CHR '' ''"] s(1) by (simp add: find_last_not_of_def)
  moreover have "b + length s - 1 - b + 1 = length s" using s(1) by (cases s) simp_all
  ultimately show ?thesis by (simp add: trim_substr_def)
qed

lemma trim_substr_Inr:
  assumes "trim_substr s = Inr v"
  shows "trimmed v" and "set v \<subseteq> set s"
proof -
  let ?b = "CHR '' ''"
  let ?i = "length (takeWhile (\<lambda>x. x = ?b) s)" and ?k = "length (takeWhile (\<lambda>x. x = ?b) (rev s))"
  let ?j = "length s - 1 - ?k"
  from assms have i: "?i < length s" and k: "?k < length s" and v: "v = take (?j - ?i + 1) (drop ?i s)"
    by (auto simp: trim_substr_def find_first_not_of_def find_last_not_of_def Let_def
        split: option.splits if_splits)
  have first: "s ! ?i \<noteq> ?b" using nth_length_takeWhile [OF i] by simp
  have last_char: "s ! ?j \<noteq> ?b"
    using nth_length_takeWhile [of "\<lambda>x. x = ?b" "rev s"] k by (simp add: rev_nth)
  have le: "?i \<le> ?j"
  proof (rule ccontr)
    assume "\<not> ?i \<le> ?j"
    then have "s ! ?j = takeWhile (\<lambda>x. x = ?b) s ! ?j" by (simp add: takeWhile_nth)
    also have "\<dots> = ?b" using \<open>\<not> ?i \<le> ?j\<close> nth_mem [of ?j "takeWhile (\<lambda>x. x = ?b) s"] set_takeWhileD by fastforce
    finally show False using last_char by simp
  qed
  have len: "length v = ?j - ?i + 1" using i k le by (simp add: v)
  have "hd v = s ! ?i" using i by (simp add: v hd_take hd_drop_conv_nth)
  moreover have "last v = s ! ?j" using len le i k by (simp add: last_conv_nth v)
  moreover have "v \<noteq> []" using len by auto
  ultimately show "trimmed v" using first last_char by (simp add: trimmed_def)
  show "set v \<subseteq> set s" unfolding v by (meson set_drop_subset set_take_subset subset_trans)
qed

lemma trim_substr_Inl: "trim_substr s = Inl e \<Longrightarrow> e = Out_Of_Range"
  by (auto simp: trim_substr_def split: option.splits)

section \<open>Numbers\<close>

definition digit_value :: "char \<Rightarrow> nat" where
  "digit_value c = of_char c - 48"

fun digits_value :: "nat \<Rightarrow> string \<Rightarrow> nat" where
  "digits_value n [] = n"
| "digits_value n (c # cs) = digits_value (10 * n + digit_value c) cs"

text \<open>
  \<open>std::stoi\<close>: leading white space, an optional sign, then the longest run of digits;
  anything after it is ignored. No digit is \<open>invalid_argument\<close>, a value outside \<open>int\<close> is
  \<open>out_of_range\<close>.
\<close>

definition stoi_sign :: "string \<Rightarrow> bool \<times> string" where
  "stoi_sign s =
     (case s of
        [] \<Rightarrow> (False, [])
      | c # r \<Rightarrow> if c = CHR ''-'' then (True, r) else if c = CHR ''+'' then (False, r) else (False, s))"

definition stoi :: "string \<Rightarrow> int result" where
  "stoi s =
     (let (neg, r) = stoi_sign (dropWhile is_space s); ds = takeWhile is_digit r in
      if ds = [] then Inl Invalid_Argument
      else let v = (if neg then - int (digits_value 0 ds) else int (digits_value 0 ds)) in
        if v < - (2 ^ 31) \<or> 2 ^ 31 \<le> v then Inl Out_Of_Range else Inr v)"

lemma stoi_Inl: "stoi s = Inl e \<Longrightarrow> e \<in> {Invalid_Argument, Out_Of_Range}"
  by (auto simp: stoi_def Let_def split: prod.splits if_splits)

definition digit_char :: "nat \<Rightarrow> char" where
  "digit_char d = char_of (48 + d)"

text \<open>\<open>std::to_string\<close>, and the same decimal text as an inserter writes it.\<close>

fun nat_to_string :: "nat \<Rightarrow> string" where
  "nat_to_string n =
     (if n < 10 then [digit_char n] else nat_to_string (n div 10) @ [digit_char (n mod 10)])"

declare nat_to_string.simps [simp del]

definition to_string :: "int \<Rightarrow> string" where
  "to_string i = (if i < 0 then CHR ''-'' # nat_to_string (nat (- i)) else nat_to_string (nat i))"

text \<open>\<open>std::setw(w) << std::setfill('0')\<close> before a number: pad on the left, never cut.\<close>

definition pad_left :: "nat \<Rightarrow> string \<Rightarrow> string" where
  "pad_left w s = replicate (w - length s) CHR ''0'' @ s"

lemma of_char_digit_char: "d < 10 \<Longrightarrow> (of_char (digit_char d) :: nat) = 48 + d"
  by (simp add: digit_char_def)

lemma digit_char_digit: "d < 10 \<Longrightarrow> is_digit (digit_char d)"
  by (simp add: is_digit_def less_eq_char_def of_char_digit_char)

lemma digit_value_digit_char: "d < 10 \<Longrightarrow> digit_value (digit_char d) = d"
  by (simp add: digit_value_def of_char_digit_char)

lemma digit_not_space: "is_digit c \<Longrightarrow> \<not> is_space c"
  by (auto simp: is_digit_def is_space_def less_eq_char_def)

lemma digits_value_append:
  "digits_value n (xs @ ys) = digits_value (digits_value n xs) ys"
  by (induction n xs rule: digits_value.induct) auto

lemma nat_to_string_digits: "list_all is_digit (nat_to_string n)"
proof (induction n rule: nat_to_string.induct)
  case (1 n)
  then show ?case
    by (subst nat_to_string.simps) (auto simp: digit_char_digit)
qed

lemma nat_to_string_no: "\<not> is_digit c \<Longrightarrow> c \<notin> set (nat_to_string n)"
  using nat_to_string_digits [of n] by (auto simp: list_all_iff)

lemma not_digit_simps [simp]:
  "\<not> is_digit LF" "\<not> is_digit CR" "\<not> is_digit CHR '' ''" "\<not> is_digit CHR '':''" "\<not> is_digit CHR ''-''"
  "\<not> is_digit CHR ''/''" "\<not> is_digit CHR ''@''"
  by (simp_all add: is_digit_def less_eq_char_def)

lemma nat_to_string_nonempty [simp]: "nat_to_string n \<noteq> []"
  by (subst nat_to_string.simps) simp

lemma digits_value_nat_to_string: "digits_value 0 (nat_to_string n) = n"
proof (induction n rule: nat_to_string.induct)
  case (1 n)
  then show ?case
    by (subst nat_to_string.simps)
      (auto simp: digits_value_append digit_value_digit_char)
qed

lemma nat_to_string_inj: "nat_to_string m = nat_to_string n \<Longrightarrow> m = n"
  using digits_value_nat_to_string by metis

lemma digits_value_zeros: "digits_value 0 (replicate k CHR ''0'' @ s) = digits_value 0 s"
  by (induction k) (auto simp: digit_value_def)

lemma length_nat_to_string_le:
  "n < 10 ^ k \<Longrightarrow> 0 < k \<Longrightarrow> length (nat_to_string n) \<le> k"
proof (induction n arbitrary: k rule: nat_to_string.induct)
  case (1 n)
  show ?case
  proof (cases "n < 10")
    case True
    with "1.prems" show ?thesis by (subst nat_to_string.simps) simp
  next
    case False
    with "1.prems" obtain k' where k: "k = Suc k'" "0 < k'"
      by (cases k; cases "k - 1") auto
    then have "n div 10 < 10 ^ k'" using "1.prems" by (simp add: less_mult_imp_div_less mult.commute)
    with "1.IH" [OF False this k(2)] False show ?thesis
      by (subst nat_to_string.simps) (simp add: k)
  qed
qed

lemma length_pad_left: "length s \<le> w \<Longrightarrow> length (pad_left w s) = w"
  by (simp add: pad_left_def)

lemma pad_left_nat_inj:
  assumes "pad_left w (nat_to_string m) = pad_left w (nat_to_string n)"
  shows "m = n"
proof -
  have "digits_value 0 (pad_left w (nat_to_string k)) = k" for k
    by (simp add: pad_left_def digits_value_zeros digits_value_nat_to_string)
  with assms show ?thesis by metis
qed

lemma stoi_digits:
  assumes "list_all is_digit ds" "ds \<noteq> []" "digits_value 0 ds < 2 ^ 31"
    and "rest = [] \<or> \<not> is_digit (hd rest)"
  shows "stoi (ds @ rest) = Inr (int (digits_value 0 ds))"
proof -
  obtain c cs where ds: "ds = c # cs" using assms(2) by (cases ds) auto
  have c: "is_digit c" using assms(1) ds by simp
  then have "\<not> is_space c" "c \<noteq> CHR ''-''" "c \<noteq> CHR ''+''"
    by (auto simp: digit_not_space is_digit_def less_eq_char_def)
  then have sign: "stoi_sign (dropWhile is_space (ds @ rest)) = (False, ds @ rest)"
    using ds by (simp add: stoi_sign_def)
  have "takeWhile is_digit (ds @ rest) = ds"
    using assms(1,4) by (cases rest) (auto simp: while_stop_simps)
  then show ?thesis using sign assms(2,3) by (simp add: stoi_def)
qed

lemma stoi_nat_to_string: "n < 2 ^ 31 \<Longrightarrow> stoi (nat_to_string n) = Inr (int n)"
  using stoi_digits [of "nat_to_string n" "[]"]
  by (simp add: nat_to_string_digits digits_value_nat_to_string)

lemma stoi_too_large:
  assumes "2 ^ 31 \<le> n"
  shows "stoi (nat_to_string n) = Inl Out_Of_Range"
proof -
  obtain c cs where ds: "nat_to_string n = c # cs" by (cases "nat_to_string n") (simp_all add: nat_to_string_nonempty)
  have "is_digit c" using nat_to_string_digits [of n] unfolding ds by simp
  then have "\<not> is_space c" "c \<noteq> CHR ''-''" "c \<noteq> CHR ''+''"
    by (auto simp: digit_not_space is_digit_def less_eq_char_def)
  then have "stoi_sign (dropWhile is_space (nat_to_string n)) = (False, nat_to_string n)"
    using ds by (simp add: stoi_sign_def)
  moreover have "takeWhile is_digit (nat_to_string n) = nat_to_string n"
    using nat_to_string_digits [of n] by (simp add: list_all_iff)
  moreover have "digits_value 0 (nat_to_string n) = n" by (rule digits_value_nat_to_string)
  ultimately show ?thesis using assms nat_to_string_nonempty [of n] unfolding stoi_def by (simp add: Let_def del: nat_to_string.simps takeWhile_eq_all_conv)
qed

end
