(* ===== verification/EcmaRegex.thy ===== *)
theory EcmaRegex
  imports CppText
begin

text \<open>
  The part of \<open>std::regex\<close> (ECMAScript grammar, C locale) that the two expressions of
  ConnectionHandler.cpp use: characters, negated and digit classes with greedy \<open>*\<close> and \<open>+\<close>,
  groups, captures and a greedy \<open>?\<close>. Matching is by backtracking: \<open>matches\<close> lists all ways to
  match at the front of a text in the order in which a backtracking matcher tries them, each
  with the rest of the text and the captures; \<open>regex_search\<close> takes the first at the leftmost
  position. A group that took no part in the match has the empty text.
\<close>

datatype char_class = Digit | Not_In "char list"

fun in_class :: "char_class \<Rightarrow> char \<Rightarrow> bool" where
  "in_class Digit c = is_digit c"
| "in_class (Not_In cs) c = (c \<notin> set cs)"

datatype rx =
    Text string
  | Star char_class
  | Plus char_class
  | Opt rx
  | Cap nat rx
  | Seq "rx list"

type_synonym captures = "(nat \<times> string) list"

text \<open>The ways to split off a run of characters of a class, the longest first.\<close>

fun runs :: "char_class \<Rightarrow> string \<Rightarrow> string list" where
  "runs cl [] = [[]]"
| "runs cl (c # s) = (if in_class cl c then runs cl s @ [c # s] else [c # s])"

fun matches :: "rx \<Rightarrow> string \<Rightarrow> captures \<Rightarrow> (string \<times> captures) list"
  and matches_seq :: "rx list \<Rightarrow> string \<Rightarrow> captures \<Rightarrow> (string \<times> captures) list" where
  "matches (Text w) s caps = (if take (length w) s = w then [(drop (length w) s, caps)] else [])"
| "matches (Star cl) s caps = map (\<lambda>rest. (rest, caps)) (runs cl s)"
| "matches (Plus cl) s caps =
     (case s of [] \<Rightarrow> [] | c # s' \<Rightarrow> if in_class cl c then map (\<lambda>rest. (rest, caps)) (runs cl s') else [])"
| "matches (Opt r) s caps = matches r s caps @ [(s, caps)]"
| "matches (Cap n r) s caps =
     map (\<lambda>(rest, caps'). (rest, (n, take (length s - length rest) s) # caps')) (matches r s caps)"
| "matches (Seq rs) s caps = matches_seq rs s caps"
| "matches_seq [] s caps = [(s, caps)]"
| "matches_seq (r # rs) s caps = concat (map (\<lambda>(rest, caps'). matches_seq rs rest caps') (matches r s caps))"

fun regex_search :: "rx \<Rightarrow> string \<Rightarrow> captures option" where
  "regex_search r [] = (case matches r [] [] of [] \<Rightarrow> None | (rest, caps) # _ \<Rightarrow> Some caps)"
| "regex_search r (c # s) =
     (case matches r (c # s) [] of [] \<Rightarrow> regex_search r s | (rest, caps) # _ \<Rightarrow> Some caps)"

definition capture :: "captures \<Rightarrow> nat \<Rightarrow> string" where
  "capture caps n = (case map_of caps n of Some w \<Rightarrow> w | None \<Rightarrow> [])"

section \<open>The first match\<close>

definition first_match :: "rx \<Rightarrow> string \<Rightarrow> captures \<Rightarrow> string \<Rightarrow> captures \<Rightarrow> bool" where
  "first_match r s caps rest caps' \<longleftrightarrow> (\<exists>others. matches r s caps = (rest, caps') # others)"

definition first_match_seq :: "rx list \<Rightarrow> string \<Rightarrow> captures \<Rightarrow> string \<Rightarrow> captures \<Rightarrow> bool" where
  "first_match_seq rs s caps rest caps' \<longleftrightarrow> (\<exists>others. matches_seq rs s caps = (rest, caps') # others)"

lemma runs_longest:
  assumes "\<forall>c\<in>set w. in_class cl c" and "s = [] \<or> \<not> in_class cl (hd s)"
  shows "\<exists>others. runs cl (w @ s) = s # others"
  using assms
proof (induction w)
  case Nil
  then show ?case by (cases s) auto
qed auto

lemma first_Text: "first_match (Text w) (w @ s) caps s caps"
  by (simp add: first_match_def)

lemma first_Star:
  assumes "\<forall>c\<in>set w. in_class cl c" and "s = [] \<or> \<not> in_class cl (hd s)"
  shows "first_match (Star cl) (w @ s) caps s caps"
  using runs_longest [OF assms] by (auto simp: first_match_def)

lemma first_Plus:
  assumes "w \<noteq> []" and "\<forall>c\<in>set w. in_class cl c" and "s = [] \<or> \<not> in_class cl (hd s)"
  shows "first_match (Plus cl) (w @ s) caps s caps"
  using assms runs_longest [of "tl w" cl s] by (cases w) (auto simp: first_match_def)

lemma first_Opt: "first_match r s caps rest caps' \<Longrightarrow> first_match (Opt r) s caps rest caps'"
  by (auto simp: first_match_def)

lemma first_Opt_none: "matches r s caps = [] \<Longrightarrow> first_match (Opt r) s caps s caps"
  by (simp add: first_match_def)

lemma first_Cap:
  "first_match r (w @ s) caps s caps' \<Longrightarrow> first_match (Cap n r) (w @ s) caps s ((n, w) # caps')"
  by (auto simp: first_match_def)

lemma first_Seq: "first_match_seq rs s caps rest caps' \<Longrightarrow> first_match (Seq rs) s caps rest caps'"
  by (simp add: first_match_def first_match_seq_def)

lemma first_seq_Nil: "first_match_seq [] s caps s caps"
  by (simp add: first_match_seq_def)

lemma first_seq_Cons:
  "first_match r s caps s1 caps1 \<Longrightarrow> first_match_seq rs s1 caps1 s2 caps2 \<Longrightarrow>
   first_match_seq (r # rs) s caps s2 caps2"
  by (auto simp: first_match_def first_match_seq_def)

lemma search_first: "first_match r s [] rest caps \<Longrightarrow> regex_search r s = Some caps"
  by (cases s) (auto simp: first_match_def)

section \<open>No match\<close>

lemma runs_suffix: "rest \<in> set (runs cl s) \<Longrightarrow> set rest \<subseteq> set s"
  by (induction cl s rule: runs.induct) (auto split: if_splits)

text \<open>A sequence that needs a character has no match where the character does not occur.\<close>

lemma matches_rest:
  "(rest, caps') \<in> set (matches r s caps) \<Longrightarrow> set rest \<subseteq> set s"
  "(rest, caps') \<in> set (matches_seq rs s caps) \<Longrightarrow> set rest \<subseteq> set s"
proof (induction r s caps and rs s caps arbitrary: rest caps' and rest caps' rule: matches_matches_seq.induct)
  case (1 w s caps)
  then show ?case using set_drop_subset [of "length w" s] by (auto split: if_splits)
next
  case (2 cl s caps)
  then show ?case using runs_suffix [of rest cl s] by auto
next
  case (3 cl s caps)
  then show ?case using runs_suffix [of rest cl "tl s"] by (auto split: list.splits if_splits)
qed fastforce+

lemma seq_needs_char:
  assumes "c \<notin> set s" and "c \<in> set w"
  shows "matches_seq (rs @ Text w # rs') s caps = []"
  using assms(1)
proof (induction rs arbitrary: s caps)
  case Nil
  have "take (length w) s \<noteq> w" using Nil assms(2) in_set_takeD [of c "length w" s] by auto
  then show ?case by simp
next
  case (Cons r rs)
  have "matches_seq (rs @ Text w # rs') rest caps' = []" if "(rest, caps') \<in> set (matches r s caps)" for rest caps'
    using Cons.IH matches_rest(1) [OF that] Cons.prems by blast
  then show ?case by (auto simp: concat_eq_Nil_conv)
qed

lemma search_needs_char:
  assumes "c \<notin> set s" and "c \<in> set w"
  shows "regex_search (Seq (rs @ Text w # rs')) s = None"
  using assms(1)
proof (induction s)
  case (Cons a s)
  with seq_needs_char [OF Cons.prems assms(2)] show ?case by simp
qed (use seq_needs_char [OF _ assms(2)] in simp)

end
