(* ===== verification/RtspMessage.thy ===== *)
theory RtspMessage
  imports Containers CppText
begin

text \<open>
  \<open>RTSPMessage\<close> of RtspMessage.h and RtspMessage.cpp: the request line and header parser, and
  the writer of responses (and of requests, when no status code is set). The members are the
  record's fields; the headers are a \<open>std::map\<close>, so they are written in key order. Exceptions
  of \<open>std::stoi\<close> and \<open>std::string::substr\<close> are values of the result.
\<close>

section \<open>Types\<close>

datatype rtsp_method =
    OPTIONS | DESCRIBE | SETUP | PLAY | PAUSE | TEARDOWN | GET_PARAMETER | SET_PARAMETER
  | REDIRECT | ANNOUNCE | RECORD | UNKNOWN

datatype status_code =
    Unset | Continue | OK | Created | LowOnStorageSpace | MultipleChoices | MovedPermanently
  | MovedTemporarily | BadRequest | Unauthorized | PaymentRequired | Forbidden | NotFound
  | MethodNotAllowed | NotAcceptable | ProxyAuthenticationRequired | RequestTimeout | Conflict
  | Gone | LengthRequired | PreconditionFailed | RequestEntityTooLarge | RequestURITooLarge
  | UnsupportedMediaType | InvalidParameter | IllegalConferenceIdentifier | NotEnoughBandwidth
  | SessionNotFound | MethodNotValidInThisState | HeaderFieldNotValidForResource | InvalidRange
  | ParameterIsReadOnly | AggregateOperationNotAllowed | OnlyAggregateOperationAllowed
  | UnsupportedTransport | DestinationUnreachable | InternalServerError | NotImplemented
  | BadGateway | ServiceUnavailable | GatewayTimeout | RTSPVersionNotSupported | OptionNotSupported

text \<open>\<open>static_cast<int>(status_code)\<close>.\<close>

primrec status_value :: "status_code \<Rightarrow> int" where
  "status_value Unset = 0"
| "status_value Continue = 100"
| "status_value OK = 200"
| "status_value Created = 201"
| "status_value LowOnStorageSpace = 250"
| "status_value MultipleChoices = 300"
| "status_value MovedPermanently = 301"
| "status_value MovedTemporarily = 302"
| "status_value BadRequest = 400"
| "status_value Unauthorized = 401"
| "status_value PaymentRequired = 402"
| "status_value Forbidden = 403"
| "status_value NotFound = 404"
| "status_value MethodNotAllowed = 405"
| "status_value NotAcceptable = 406"
| "status_value ProxyAuthenticationRequired = 407"
| "status_value RequestTimeout = 408"
| "status_value Conflict = 409"
| "status_value Gone = 410"
| "status_value LengthRequired = 411"
| "status_value PreconditionFailed = 412"
| "status_value RequestEntityTooLarge = 413"
| "status_value RequestURITooLarge = 414"
| "status_value UnsupportedMediaType = 415"
| "status_value InvalidParameter = 451"
| "status_value IllegalConferenceIdentifier = 452"
| "status_value NotEnoughBandwidth = 453"
| "status_value SessionNotFound = 454"
| "status_value MethodNotValidInThisState = 455"
| "status_value HeaderFieldNotValidForResource = 456"
| "status_value InvalidRange = 457"
| "status_value ParameterIsReadOnly = 458"
| "status_value AggregateOperationNotAllowed = 459"
| "status_value OnlyAggregateOperationAllowed = 460"
| "status_value UnsupportedTransport = 461"
| "status_value DestinationUnreachable = 462"
| "status_value InternalServerError = 500"
| "status_value NotImplemented = 501"
| "status_value BadGateway = 502"
| "status_value ServiceUnavailable = 503"
| "status_value GatewayTimeout = 504"
| "status_value RTSPVersionNotSupported = 505"
| "status_value OptionNotSupported = 551"

record rtsp_message =
  msg_protocol :: string
  msg_method :: rtsp_method
  msg_request_uri :: string
  msg_cseq :: "32 word"
  msg_session :: string
  msg_status_code :: status_code
  msg_body :: string
  msg_headers :: "(string \<times> string) list"

definition rtsp_message_new :: rtsp_message where
  "rtsp_message_new =
     \<lparr>msg_protocol = ''RTSP/1.0'', msg_method = UNKNOWN, msg_request_uri = '''', msg_cseq = 0,
      msg_session = '''', msg_status_code = Unset, msg_body = '''', msg_headers = []\<rparr>"

section \<open>Methods and status lines\<close>

definition method_map :: "(string \<times> rtsp_method) list" where
  "method_map =
     [(''OPTIONS'', OPTIONS), (''DESCRIBE'', DESCRIBE), (''SETUP'', SETUP), (''PLAY'', PLAY),
      (''PAUSE'', PAUSE), (''TEARDOWN'', TEARDOWN), (''GET_PARAMETER'', GET_PARAMETER),
      (''SET_PARAMETER'', SET_PARAMETER), (''REDIRECT'', REDIRECT), (''ANNOUNCE'', ANNOUNCE),
      (''RECORD'', RECORD)]"

definition parse_method :: "string \<Rightarrow> rtsp_method" where
  "parse_method method_str =
     (case map_of method_map method_str of Some m \<Rightarrow> m | None \<Rightarrow> UNKNOWN)"

fun status_code_to_string :: "status_code \<Rightarrow> string" where
  "status_code_to_string Continue = ''Continue''"
| "status_code_to_string OK = ''OK''"
| "status_code_to_string Created = ''Created''"
| "status_code_to_string _ = ''Unknown''"

fun method_to_string :: "rtsp_method \<Rightarrow> string" where
  "method_to_string OPTIONS = ''OPTIONS''"
| "method_to_string DESCRIBE = ''DESCRIBE''"
| "method_to_string SETUP = ''SETUP''"
| "method_to_string PLAY = ''PLAY''"
| "method_to_string PAUSE = ''PAUSE''"
| "method_to_string TEARDOWN = ''TEARDOWN''"
| "method_to_string _ = ''UNKNOWN''"

section \<open>Accessors\<close>

definition uri :: "rtsp_message \<Rightarrow> string" where "uri m = msg_request_uri m"
definition get_cseq :: "rtsp_message \<Rightarrow> 32 word" where "get_cseq m = msg_cseq m"
definition get_status_code :: "rtsp_message \<Rightarrow> status_code" where "get_status_code m = msg_status_code m"
definition get_method :: "rtsp_message \<Rightarrow> rtsp_method" where "get_method m = msg_method m"
definition get_protocol :: "rtsp_message \<Rightarrow> string" where "get_protocol m = msg_protocol m"

definition set_cseq :: "32 word \<Rightarrow> rtsp_message \<Rightarrow> rtsp_message" where
  "set_cseq c m = m\<lparr>msg_cseq := c\<rparr>"

definition set_status_code :: "status_code \<Rightarrow> rtsp_message \<Rightarrow> rtsp_message" where
  "set_status_code c m = m\<lparr>msg_status_code := c\<rparr>"

definition set_method :: "rtsp_method \<Rightarrow> rtsp_message \<Rightarrow> rtsp_message" where
  "set_method k m = m\<lparr>msg_method := k\<rparr>"

definition set_protocol :: "string \<Rightarrow> rtsp_message \<Rightarrow> rtsp_message" where
  "set_protocol p m = m\<lparr>msg_protocol := p\<rparr>"

definition set_headers :: "string \<Rightarrow> string \<Rightarrow> rtsp_message \<Rightarrow> rtsp_message" where
  "set_headers key val m = m\<lparr>msg_headers := map_put key val (msg_headers m)\<rparr>"

definition get_header_value :: "string \<Rightarrow> rtsp_message \<Rightarrow> string" where
  "get_header_value key m = (case map_of (msg_headers m) key of Some v \<Rightarrow> v | None \<Rightarrow> '''')"

definition set_body :: "string \<Rightarrow> rtsp_message \<Rightarrow> rtsp_message" where
  "set_body b m = m\<lparr>msg_body := b\<rparr>"

lemmas message_defs [model_simps] =
  uri_def get_cseq_def get_status_code_def get_method_def get_protocol_def set_cseq_def
  set_status_code_def set_method_def set_protocol_def set_headers_def get_header_value_def set_body_def

section \<open>Parsing\<close>

text \<open>
  \<open>request_line >> method_str >> request_uri_ >> protocol_\<close>: an extraction that finds
  nothing fails, leaves its target as it was, and so do the ones after it.
\<close>

definition parse_request_line :: "rtsp_message \<Rightarrow> string \<Rightarrow> rtsp_message" where
  "parse_request_line m line =
     (case extract_word line of
        None \<Rightarrow> m\<lparr>msg_method := parse_method ''''\<rparr>
      | Some (method_str, line1) \<Rightarrow>
          (case extract_word line1 of
             None \<Rightarrow> m\<lparr>msg_method := parse_method method_str\<rparr>
           | Some (u, line2) \<Rightarrow>
               (case extract_word line2 of
                  None \<Rightarrow> m\<lparr>msg_request_uri := u, msg_method := parse_method method_str\<rparr>
                | Some (p, _) \<Rightarrow>
                    m\<lparr>msg_request_uri := u, msg_protocol := p, msg_method := parse_method method_str\<rparr>)))"

text \<open>One header line, carriage returns already removed.\<close>

definition parse_header_line :: "rtsp_message \<Rightarrow> string \<Rightarrow> rtsp_message result" where
  "parse_header_line m line =
     (let (header_name, header_line) = (case getline CHR '':'' line of None \<Rightarrow> ('''', '''') | Some r \<Rightarrow> r);
          header_value = (case getline LF header_line of None \<Rightarrow> '''' | Some (v, _) \<Rightarrow> v) in
      bind_result (trim_substr header_value) (\<lambda>v.
        if header_name = ''CSeq'' then bind_result (stoi v) (\<lambda>n. Inr (m\<lparr>msg_cseq := word_of_int n\<rparr>))
        else Inr (m\<lparr>msg_headers := map_put header_name v (msg_headers m)\<rparr>)))"

function parse_header_lines :: "rtsp_message \<Rightarrow> string \<Rightarrow> rtsp_message result" where
  "parse_header_lines m iss =
     (case getline LF iss of
        None \<Rightarrow> Inr m
      | Some (raw, rest) \<Rightarrow>
          let line = filter (\<lambda>c. c \<noteq> CR) raw in
          if line = [] then Inr m
          else (case parse_header_line m line of
                  Inl e \<Rightarrow> Inl e
                | Inr m' \<Rightarrow> parse_header_lines m' rest))"
  by pat_completeness auto
termination
  by (relation "measure (\<lambda>(m, iss). length iss)") (auto dest: getline_rest_length)

declare parse_header_lines.simps [simp del]

definition parse :: "rtsp_message \<Rightarrow> string \<Rightarrow> (bool \<times> rtsp_message) result" where
  "parse m data =
     (case getline LF data of
        None \<Rightarrow> Inr (False, m)
      | Some (line, iss) \<Rightarrow>
          bind_result (parse_header_lines (parse_request_line m line) iss) (\<lambda>m'. Inr (True, m')))"

section \<open>Writing\<close>

fun write_headers :: "(string \<times> string) list \<Rightarrow> string" where
  "write_headers [] = ''''"
| "write_headers ((k, v) # hs) = k @ '': '' @ v @ crlf @ write_headers hs"

definition create_response :: "rtsp_message \<Rightarrow> string" where
  "create_response m =
     (if msg_status_code m \<noteq> Unset
      then msg_protocol m @ '' '' @ to_string (status_value (msg_status_code m)) @ '' '' @
           status_code_to_string (msg_status_code m) @ crlf
      else method_to_string (msg_method m) @ '' '' @ msg_request_uri m @ '' '' @ msg_protocol m @ crlf) @
     write_headers (msg_headers m) @ crlf @ (if msg_body m \<noteq> [] then msg_body m else [])"

section \<open>Lemmas\<close>

definition plain :: "string \<Rightarrow> bool" where
  "plain s \<longleftrightarrow> CR \<notin> set s \<and> LF \<notin> set s"

text \<open>The header fields that survive a round trip.\<close>

definition wf_header :: "string \<times> string \<Rightarrow> bool" where
  "wf_header h \<longleftrightarrow> plain (fst h) \<and> CHR '':'' \<notin> set (fst h) \<and> fst h \<noteq> ''CSeq'' \<and> plain (snd h) \<and> trimmed (snd h)"

definition wf_request :: "rtsp_message \<Rightarrow> bool" where
  "wf_request m \<longleftrightarrow> msg_status_code m = Unset \<and>
     msg_method m \<in> {OPTIONS, DESCRIBE, SETUP, PLAY, PAUSE, TEARDOWN} \<and>
     word (msg_request_uri m) \<and> word (msg_protocol m) \<and>
     sorted_keys (msg_headers m) \<and> list_all wf_header (msg_headers m)"

lemma plain_filter_CR: "plain s \<Longrightarrow> filter (\<lambda>c. c \<noteq> CR) s = s"
  by (auto simp: plain_def filter_id_conv)

lemma parse_header_line_wf:
  assumes "wf_header (k, v)"
  shows "parse_header_line m (k @ '': '' @ v) = Inr (m\<lparr>msg_headers := map_put k v (msg_headers m)\<rparr>)"
proof -
  have k: "CHR '':'' \<notin> set k" and v: "LF \<notin> set v" "trimmed v" "k \<noteq> ''CSeq''"
    using assms by (auto simp: wf_header_def plain_def)
  have "getline CHR '':'' (k @ CHR '':'' # CHR '' '' # v) = Some (k, CHR '' '' # v)"
    using k by (rule getline_append)
  moreover have "getline LF (CHR '' '' # v) = Some (CHR '' '' # v, [])"
    using v by (intro getline_last) auto
  ultimately show ?thesis using v by (simp add: parse_header_line_def trim_substr_space)
qed

lemma parse_header_lines_step:
  assumes "wf_header (k, v)"
  shows "parse_header_lines m (k @ '': '' @ v @ crlf @ rest) =
    parse_header_lines (m\<lparr>msg_headers := map_put k v (msg_headers m)\<rparr>) rest"
proof -
  have p: "plain (k @ '': '' @ v)" using assms by (auto simp: wf_header_def plain_def)
  have "getline LF ((k @ '': '' @ v @ [CR]) @ LF # rest) = Some (k @ '': '' @ v @ [CR], rest)"
    using p by (intro getline_append) (auto simp: plain_def)
  moreover have "filter (\<lambda>c. c \<noteq> CR) (k @ '': '' @ v @ [CR]) = k @ '': '' @ v"
    using plain_filter_CR [OF p] by simp
  moreover have "k @ '': '' @ v \<noteq> []" by simp
  ultimately show ?thesis
    using parse_header_line_wf [OF assms, of m]
    by (subst parse_header_lines.simps) (simp add: Let_def)
qed

lemma parse_header_lines_end: "parse_header_lines m (crlf @ rest) = Inr m"
  by (subst parse_header_lines.simps) (simp add: getline_def)

lemma parse_written_headers:
  assumes "list_all wf_header hs"
  shows "parse_header_lines m (write_headers hs @ crlf @ rest) =
    Inr (m\<lparr>msg_headers := fold (\<lambda>(k, v). map_put k v) hs (msg_headers m)\<rparr>)"
  using assms
proof (induction hs arbitrary: m)
  case Nil
  then show ?case using parse_header_lines_end by simp
next
  case (Cons h hs)
  obtain k v where h: "h = (k, v)" by (cases h)
  have "parse_header_lines m (write_headers (h # hs) @ crlf @ rest) =
      parse_header_lines m (k @ '': '' @ v @ crlf @ (write_headers hs @ crlf @ rest))"
    by (simp add: h)
  also have "\<dots> = parse_header_lines (m\<lparr>msg_headers := map_put k v (msg_headers m)\<rparr>) (write_headers hs @ crlf @ rest)"
    using Cons.prems h by (intro parse_header_lines_step) simp
  also have "\<dots> = Inr (m\<lparr>msg_headers := fold (\<lambda>(k, v). map_put k v) (h # hs) (msg_headers m)\<rparr>)"
    using Cons.prems by (subst Cons.IH) (simp_all add: h)
  finally show ?case .
qed

lemma method_to_string_word: "word (method_to_string k)"
  by (cases k) (auto simp: word_def is_space_def)

lemma parse_method_to_string:
  "parse_method (method_to_string k) = (if k \<in> {OPTIONS, DESCRIBE, SETUP, PLAY, PAUSE, TEARDOWN} then k else UNKNOWN)"
  by (cases k) (simp_all add: parse_method_def method_map_def)

lemma parse_request_line_written:
  assumes "word w1" "word w2" "word w3"
  shows "parse_request_line m (w1 @ '' '' @ w2 @ '' '' @ w3 @ [CR]) =
    m\<lparr>msg_request_uri := w2, msg_protocol := w3, msg_method := parse_method w1\<rparr>"
proof -
  have sp: "is_space CHR '' ''" "is_space CR" by (simp_all add: is_space_def)
  show ?thesis
    using assms extract_word_append [of w1 "CHR '' ''" "w2 @ '' '' @ w3 @ [CR]"]
      extract_word_append [of w2 "CHR '' ''" "w3 @ [CR]"] extract_word_append [of w3 CR "[]"]
    by (simp add: parse_request_line_def sp extract_word_space)
qed

lemma parse_header_line_cseq:
  assumes "n < 2 ^ 31"
  shows "parse_header_line m (''CSeq: '' @ nat_to_string n) = Inr (m\<lparr>msg_cseq := of_nat n\<rparr>)"
proof -
  have "CHR '' '' \<notin> set (nat_to_string n)" by (simp add: nat_to_string_no)
  then have "trimmed (nat_to_string n)"
    unfolding trimmed_def by (metis hd_in_set last_in_set nat_to_string_nonempty)
  moreover have "getline LF (CHR '' '' # nat_to_string n) = Some (CHR '' '' # nat_to_string n, [])"
    by (rule getline_last) (simp_all add: nat_to_string_no)
  moreover have "getline CHR '':'' (''CSeq: '' @ nat_to_string n) = Some (''CSeq'', CHR '' '' # nat_to_string n)"
    by (simp add: getline_def)
  ultimately show ?thesis
    using stoi_nat_to_string [OF assms] by (simp add: parse_header_line_def trim_substr_space)
qed

lemma parse_header_lines_cseq:
  assumes "n < 2 ^ 31"
  shows "parse_header_lines m (''CSeq: '' @ nat_to_string n @ crlf @ rest) =
    parse_header_lines (m\<lparr>msg_cseq := of_nat n\<rparr>) rest"
proof -
  have p: "plain (''CSeq: '' @ nat_to_string n)"
    by (simp add: plain_def nat_to_string_no)
  have "getline LF ((''CSeq: '' @ nat_to_string n @ [CR]) @ LF # rest) = Some (''CSeq: '' @ nat_to_string n @ [CR], rest)"
    using p by (intro getline_append) (auto simp: plain_def)
  moreover have "filter (\<lambda>c. c \<noteq> CR) (''CSeq: '' @ nat_to_string n @ [CR]) = ''CSeq: '' @ nat_to_string n"
    using plain_filter_CR [OF p] by simp
  ultimately show ?thesis
    using parse_header_line_cseq [OF assms, of m]
    by (subst parse_header_lines.simps) (simp add: Let_def)
qed

lemma parse_first_line:
  assumes "word w1" "word w2" "word w3"
  shows "parse m (w1 @ '' '' @ w2 @ '' '' @ w3 @ crlf @ iss) =
    bind_result (parse_header_lines
      (m\<lparr>msg_request_uri := w2, msg_protocol := w3, msg_method := parse_method w1\<rparr>) iss) (\<lambda>m'. Inr (True, m'))"
proof -
  have "LF \<notin> set (w1 @ '' '' @ w2 @ '' '' @ w3 @ [CR])"
    using assms by (simp add: word_no_space)
  then have "getline LF ((w1 @ '' '' @ w2 @ '' '' @ w3 @ [CR]) @ LF # iss) =
      Some (w1 @ '' '' @ w2 @ '' '' @ w3 @ [CR], iss)"
    by (rule getline_append)
  then show ?thesis
    using parse_request_line_written [OF assms, of m] by (simp add: parse_def)
qed

text \<open>A header line whose value is missing or blank.\<close>

lemma parse_header_line_blank:
  assumes "CHR '':'' \<notin> set k" "set v \<subseteq> {CHR '' ''}" "k \<noteq> []"
  shows "parse_header_line m (k @ CHR '':'' # v) = Inl Out_Of_Range"
proof -
  have "getline CHR '':'' (k @ CHR '':'' # v) = Some (k, v)"
    using assms(1) by (rule getline_append)
  moreover have "(case getline LF v of None \<Rightarrow> '''' | Some (v, _) \<Rightarrow> v) = v"
  proof (cases "v = []")
    case False
    have "LF \<notin> set v" using assms(2) by auto
    with False show ?thesis by (simp add: getline_last)
  qed (simp add: getline_def)
  ultimately show ?thesis
    using trim_substr_blank [OF assms(2)] by (simp add: parse_header_line_def)
qed

text \<open>What holds of the message while it is parsed.\<close>

definition parsed :: "rtsp_message \<Rightarrow> bool" where
  "parsed m \<longleftrightarrow> sorted_keys (msg_headers m) \<and> list_all wf_header (msg_headers m) \<and> word (msg_protocol m)
     \<and> (msg_request_uri m = [] \<or> word (msg_request_uri m)) \<and> msg_status_code m = Unset \<and> msg_body m = []"

lemma parsed_new: "parsed rtsp_message_new"
  by (simp add: parsed_def rtsp_message_new_def sorted_keys_def word_def is_space_def)

lemma parsed_request_line: "parsed m \<Longrightarrow> parsed (parse_request_line m line)"
  by (auto simp: parsed_def parse_request_line_def dest: extract_word_word split: option.splits prod.splits)

lemma parsed_put:
  assumes "parsed m" and "wf_header (k, v)"
  shows "parsed (m\<lparr>msg_headers := map_put k v (msg_headers m)\<rparr>)"
  using assms values_map_put [of k v "msg_headers m"]
  by (auto simp: parsed_def list_all_iff intro: wf_intros)

lemma parse_header_line_types:
  assumes "plain line" and "parsed m"
  shows "case parse_header_line m line of Inl e \<Rightarrow> e \<in> {Invalid_Argument, Out_Of_Range} | Inr m' \<Rightarrow> parsed m'"
proof -
  obtain k l where kl: "(case getline CHR '':'' line of None \<Rightarrow> ('''', '''') | Some r \<Rightarrow> r) = (k, l)"
    by (cases "case getline CHR '':'' line of None \<Rightarrow> ('''', '''') | Some r \<Rightarrow> r")
  let ?header_value = "case getline LF l of None \<Rightarrow> '''' | Some (v, _) \<Rightarrow> v"
  have k: "plain k" "CHR '':'' \<notin> set k" and l: "set l \<subseteq> set line"
    using kl assms(1) getline_Some [of "CHR '':''" line k l]
    by (auto simp: plain_def getline_def takeWhile_eq_Nil_iff split: if_splits option.splits dest: set_takeWhileD)
  have plain_value: "plain ?header_value"
    using l assms(1) by (auto simp: plain_def dest!: sym [of _ "getline LF l"] dest: getline_Some split: option.splits)
  show ?thesis
  proof (cases "trim_substr ?header_value")
    case (Inl e)
    then show ?thesis using trim_substr_Inl [OF Inl] by (simp add: parse_header_line_def kl)
  next
    case (Inr v)
    then have v: "trimmed v" "plain v"
      using trim_substr_Inr [OF Inr] plain_value by (auto simp: plain_def)
    show ?thesis
    proof (cases "k = ''CSeq''")
      case True
      with assms(2) Inr stoi_Inl [of v] show ?thesis
        by (cases "stoi v") (auto simp: parse_header_line_def kl parsed_def)
    next
      case False
      with k v have "wf_header (k, v)" by (simp add: wf_header_def)
      from parsed_put [OF assms(2) this] False Inr show ?thesis by (simp add: parse_header_line_def kl)
    qed
  qed
qed

lemma parse_header_lines_types:
  assumes "parsed m"
  shows "case parse_header_lines m iss of Inl e \<Rightarrow> e \<in> {Invalid_Argument, Out_Of_Range} | Inr m' \<Rightarrow> parsed m'"
  using assms
proof (induction m iss rule: parse_header_lines.induct)
  case (1 m iss)
  show ?case
  proof (cases "getline LF iss")
    case None
    with "1.prems" show ?thesis by (simp add: parse_header_lines.simps [of m iss])
  next
    case (Some r)
    obtain raw rest where r: "r = (raw, rest)" by (cases r)
    let ?line = "filter (\<lambda>c. c \<noteq> CR) raw"
    have line: "plain ?line" using getline_Some(1) [of LF iss raw rest] Some r by (auto simp: plain_def)
    consider "?line = []" | e where "?line \<noteq> []" "parse_header_line m ?line = Inl e"
      | m1 where "?line \<noteq> []" "parse_header_line m ?line = Inr m1" by (cases "parse_header_line m ?line") auto
    then show ?thesis
    proof cases
      case 3
      with parse_header_line_types [OF line "1.prems"] have "parsed m1" by simp
      from "1.IH" [OF Some r [symmetric] refl 3 this] 3 Some r show ?thesis
        by (simp add: parse_header_lines.simps [of m iss] Let_def)
    qed (use parse_header_line_types [OF line "1.prems"] "1.prems" Some r in
        \<open>simp_all add: parse_header_lines.simps [of m iss] Let_def\<close>)
  qed
qed

section \<open>Properties\<close>

lemma parse_written_request:
  assumes "word meth" and "word u" and "word p" and "n < 2 ^ 31" and "list_all wf_header hs"
  shows "parse rtsp_message_new
      (meth @ '' '' @ u @ '' '' @ p @ crlf @ ''CSeq: '' @ nat_to_string n @ crlf @ write_headers hs @ crlf @ rest) =
    Inr (True, \<lparr>msg_protocol = p, msg_method = parse_method meth, msg_request_uri = u, msg_cseq = of_nat n,
      msg_session = '''', msg_status_code = Unset, msg_body = '''',
      msg_headers = fold (\<lambda>(k, v). map_put k v) hs []\<rparr>)"
  unfolding parse_first_line [OF assms(1-3)]
  using parse_header_lines_cseq [OF assms(4)] parse_written_headers [OF assms(5)]
  by (simp add: rtsp_message_new_def)

text \<open>
  A header line as a client may write it: the field, the blanks before and after the value, and the
  end of the line. The CSeq field is written in decimal.
\<close>

datatype header_field = Plain_Field string string | Cseq_Field nat

type_synonym header_line = "header_field \<times> nat \<times> nat \<times> string"

fun header_text :: "header_line \<Rightarrow> string" where
  "header_text (Plain_Field k v, before, after, eol) =
     k @ '':'' @ replicate before CHR '' '' @ v @ replicate after CHR '' '' @ eol"
| "header_text (Cseq_Field n, before, after, eol) =
     ''CSeq:'' @ replicate before CHR '' '' @ nat_to_string n @ replicate after CHR '' '' @ eol"

fun wf_line :: "header_line \<Rightarrow> bool" where
  "wf_line (Plain_Field k v, before, after, eol) \<longleftrightarrow> wf_header (k, v) \<and> eol \<in> {crlf, [LF]}"
| "wf_line (Cseq_Field n, before, after, eol) \<longleftrightarrow> eol \<in> {crlf, [LF]}"

fun plain_fields :: "header_line list \<Rightarrow> (string \<times> string) list" where
  "plain_fields [] = []"
| "plain_fields ((Plain_Field k v, _) # ls) = (k, v) # plain_fields ls"
| "plain_fields ((Cseq_Field n, _) # ls) = plain_fields ls"

fun cseq_values :: "header_line list \<Rightarrow> nat list" where
  "cseq_values [] = []"
| "cseq_values ((Plain_Field k v, _) # ls) = cseq_values ls"
| "cseq_values ((Cseq_Field n, _) # ls) = n # cseq_values ls"

lemma parse_header_line_colon:
  assumes "CHR '':'' \<notin> set k" and "LF \<notin> set v" and "trimmed v"
  shows "parse_header_line m (k @ '':'' @ replicate b CHR '' '' @ v @ replicate a CHR '' '') =
    (if k = ''CSeq'' then bind_result (stoi v) (\<lambda>n. Inr (m\<lparr>msg_cseq := word_of_int n\<rparr>))
     else Inr (m\<lparr>msg_headers := map_put k v (msg_headers m)\<rparr>))"
proof -
  let ?l = "replicate b CHR '' '' @ v @ replicate a CHR '' ''"
  have "getline CHR '':'' (k @ CHR '':'' # ?l) = Some (k, ?l)"
    using assms(1) by (rule getline_append)
  moreover have "getline LF ?l = Some (?l, [])"
    using assms(2,3) by (intro getline_last) (auto simp: trimmed_def)
  ultimately show ?thesis by (simp add: parse_header_line_def trim_substr_blanks [OF assms(3)])
qed

lemma parse_header_lines_cons:
  assumes "plain line" and "line \<noteq> []" and "eol \<in> {crlf, [LF]}"
  shows "parse_header_lines m (line @ eol @ rest) =
    (case parse_header_line m line of Inl e \<Rightarrow> Inl e | Inr m' \<Rightarrow> parse_header_lines m' rest)"
proof -
  have "getline LF ((line @ [CR]) @ LF # rest) = Some (line @ [CR], rest)" "getline LF (line @ LF # rest) = Some (line, rest)"
    using assms(1) by (intro getline_append; auto simp: plain_def)+
  with assms show ?thesis
    by (subst parse_header_lines.simps) (auto simp: Let_def plain_filter_CR split: sum.split)
qed

lemma trimmed_number: "trimmed (nat_to_string n)"
proof -
  have "CHR '' '' \<notin> set (nat_to_string n)" by (simp add: nat_to_string_no)
  then show ?thesis unfolding trimmed_def by (metis hd_in_set last_in_set nat_to_string_nonempty)
qed

lemma parse_lines:
  assumes "list_all wf_line ls" and "eol \<in> {crlf, [LF]}"
  shows "parse_header_lines m (concat (map header_text ls) @ eol @ rest) =
    (if \<exists>n\<in>set (cseq_values ls). 2 ^ 31 \<le> n then Inl Out_Of_Range
     else Inr (m\<lparr>msg_cseq := last (msg_cseq m # map of_nat (cseq_values ls)),
       msg_headers := fold (\<lambda>(k, v). map_put k v) (plain_fields ls) (msg_headers m)\<rparr>))"
  using assms(1)
proof (induction ls arbitrary: m)
  case Nil
  have "parse_header_lines m (eol @ rest) = Inr m"
    using assms(2) by (subst parse_header_lines.simps) (auto simp: getline_def)
  then show ?case by simp
next
  case (Cons l ls)
  obtain f b a e where l: "l = (f, b, a, e)" by (cases l)
  let ?rest = "concat (map header_text ls) @ eol @ rest"
  show ?case
  proof (cases f)
    case (Plain_Field k v)
    let ?line = "k @ '':'' @ replicate b CHR '' '' @ v @ replicate a CHR '' ''"
    have wf: "wf_header (k, v)" "e \<in> {crlf, [LF]}" using Cons.prems l Plain_Field by simp_all
    then have line: "plain ?line" by (auto simp: wf_header_def plain_def)
    from wf(1) have colon: "parse_header_line m ?line = Inr (m\<lparr>msg_headers := map_put k v (msg_headers m)\<rparr>)"
      by (subst parse_header_line_colon) (auto simp: wf_header_def plain_def)
    have "parse_header_lines m (?line @ e @ ?rest) = parse_header_lines (m\<lparr>msg_headers := map_put k v (msg_headers m)\<rparr>) ?rest"
      by (subst parse_header_lines_cons [OF line _ wf(2)]) (simp_all only: colon sum.case, simp)
    with Cons.IH [of "m\<lparr>msg_headers := map_put k v (msg_headers m)\<rparr>"] Cons.prems show ?thesis
      by (simp add: l Plain_Field)
  next
    case (Cseq_Field n)
    let ?line = "''CSeq'' @ '':'' @ replicate b CHR '' '' @ nat_to_string n @ replicate a CHR '' ''"
    have wf: "e \<in> {crlf, [LF]}" using Cons.prems l Cseq_Field by simp
    have line: "plain ?line" by (auto simp: plain_def nat_to_string_no)
    have colon: "parse_header_line m ?line = bind_result (stoi (nat_to_string n)) (\<lambda>n. Inr (m\<lparr>msg_cseq := word_of_int n\<rparr>))"
      by (subst parse_header_line_colon) (simp_all add: nat_to_string_no trimmed_number)
    have run: "parse_header_lines m (?line @ e @ ?rest) =
        (case bind_result (stoi (nat_to_string n)) (\<lambda>n. Inr (m\<lparr>msg_cseq := word_of_int n\<rparr>)) of
           Inl e \<Rightarrow> Inl e | Inr m' \<Rightarrow> parse_header_lines m' ?rest)"
      by (subst parse_header_lines_cons [OF line _ wf]) (simp_all only: colon, simp)
    show ?thesis
    proof (cases "2 ^ 31 \<le> n")
      case True
      with run stoi_too_large [OF True] show ?thesis by (simp add: l Cseq_Field)
    next
      case False
      with run stoi_nat_to_string [of n] Cons.IH [of "m\<lparr>msg_cseq := of_nat n\<rparr>"] Cons.prems show ?thesis
        by (simp add: l Cseq_Field)
    qed
  qed
qed

text \<open>
  C21 (functional). What the parser reads of a request. The request line is three words with one blank
  between them, of which the third ends the line; each header line is a name
  without a colon, the colon, any number of blanks, a value that is not empty and neither begins nor
  ends with a blank, again any number of blanks, and CRLF or LF; CSeq lines, written in decimal, may stand
  anywhere among them, more than once, or not at all; names and values contain no line breaks; an empty line ends the request, and what follows it is
  not looked at. If a CSeq is \<open>2 ^ 31\<close> or more, parsing throws \<open>std::out_of_range\<close>. Otherwise method,
  URI and protocol are those of the request line, the sequence number is the last CSeq (0 without
  one), and the other headers, in any order, are in the header map, where a later header of the
  same name replaces an earlier one.
\<close>

theorem parse_request:
  assumes "word meth" and "word u" and "word p" and "list_all wf_line ls" and "eol \<in> {crlf, [LF]}"
  shows "parse rtsp_message_new
      (meth @ '' '' @ u @ '' '' @ p @ crlf @ concat (map header_text ls) @ eol @ rest) =
    (if \<exists>n\<in>set (cseq_values ls). 2 ^ 31 \<le> n then Inl Out_Of_Range
     else Inr (True, \<lparr>msg_protocol = p, msg_method = parse_method meth, msg_request_uri = u,
       msg_cseq = last (0 # map of_nat (cseq_values ls)), msg_session = '''', msg_status_code = Unset, msg_body = '''',
       msg_headers = fold (\<lambda>(k, v). map_put k v) (plain_fields ls) []\<rparr>))"
  unfolding parse_first_line [OF assms(1-3)] parse_lines [OF assms(4,5)]
  by (simp add: rtsp_message_new_def)

theorem parse_request_witness:
  "parse rtsp_message_new
     (''PLAY'' @ '' '' @ ''rtsp://h:1/a'' @ '' '' @ ''RTSP/1.0'' @ crlf @
      concat (map header_text [(Plain_Field ''Session'' ''42'', 3, 0, [LF]), (Cseq_Field 7, 0, 2, crlf), (Plain_Field ''Range'' ''npt=0-'', 1, 0, crlf)]) @ crlf @ []) =
   Inr (True, \<lparr>msg_protocol = ''RTSP/1.0'', msg_method = PLAY, msg_request_uri = ''rtsp://h:1/a'', msg_cseq = 7,
      msg_session = '''', msg_status_code = Unset, msg_body = '''',
      msg_headers = [(''Range'', ''npt=0-''), (''Session'', ''42'')]\<rparr>)
   \<and> parse rtsp_message_new
     (''PLAY'' @ '' '' @ ''rtsp://h:1/a'' @ '' '' @ ''RTSP/1.0'' @ crlf @
      concat (map header_text [(Plain_Field ''Session'' ''42'', 1, 0, crlf), (Cseq_Field 3000000000, 1, 0, crlf)]) @ crlf @ []) = Inl Out_Of_Range"
proof -
  have w: "word ''PLAY''" "word ''rtsp://h:1/a''" "word ''RTSP/1.0''"
    by (simp_all add: word_def is_space_def)
  let ?ls = "[(Plain_Field ''Session'' ''42'', 3, 0, [LF]), (Cseq_Field 7, 0, 2, crlf), (Plain_Field ''Range'' ''npt=0-'', 1, 0, crlf)]"
  let ?ks = "[(Plain_Field ''Session'' ''42'', 1, 0, crlf), (Cseq_Field 3000000000, 1, 0, crlf)]"
  have l: "list_all wf_line ?ls" "list_all wf_line ?ks" by (simp_all add: wf_header_def plain_def trimmed_def)
  have e: "crlf \<in> {crlf, [LF]}" by simp
  show ?thesis
    unfolding parse_request [OF w l(1) e] parse_request [OF w l(2) e]
    by (simp add: parse_method_def method_map_def less_char_def)
qed

text \<open>
  C26 (roundtrip). A request that \<open>create_response\<close> writes (no status code is set) and that is parsed again.
  When the URI and the protocol are single words, and each header has a name without a colon that is
  not CSeq and a value that is not empty and neither begins nor ends with a blank, both without line breaks, then protocol, URI
  and the whole header map come back as they were (a map is kept in key order), and so does the
  method if it is one of OPTIONS, DESCRIBE, SETUP, PLAY, PAUSE and TEARDOWN; the other five, which the parser
  knows, are written as UNKNOWN and come back as that. The sequence number and the session do not come back, since they
  are not written, nor does the body, which is written and not read.
\<close>

theorem request_roundtrip:
  assumes "msg_status_code m = Unset" and "word (msg_request_uri m)" and "word (msg_protocol m)"
    and "sorted_keys (msg_headers m)" and "list_all wf_header (msg_headers m)"
  shows "parse rtsp_message_new (create_response m) =
    Inr (True, rtsp_message_new\<lparr>msg_protocol := msg_protocol m,
      msg_method := (if msg_method m \<in> {OPTIONS, DESCRIBE, SETUP, PLAY, PAUSE, TEARDOWN} then msg_method m else UNKNOWN),
      msg_request_uri := msg_request_uri m, msg_headers := msg_headers m\<rparr>)"
proof -
  have written: "create_response m = method_to_string (msg_method m) @ '' '' @ msg_request_uri m @ '' '' @ msg_protocol m
      @ crlf @ (write_headers (msg_headers m) @ crlf @ msg_body m)"
    using assms by (simp add: create_response_def)
  have "fold (\<lambda>(k, v). map_put k v) (msg_headers m) [] = msg_headers m"
    using fold_map_put_sorted [of "[]" "msg_headers m"] assms by simp
  then show ?thesis
    unfolding written using assms
    by (simp add: parse_first_line method_to_string_word parse_written_headers
        parse_method_to_string rtsp_message_new_def del: append.simps append_Cons)
qed

theorem request_roundtrip_witness:
  "parse rtsp_message_new (create_response (rtsp_message_new\<lparr>msg_method := SETUP, msg_request_uri := ''u'',
      msg_headers := [(''Transport'', ''RTP/AVP'')]\<rparr>)) =
    Inr (True, rtsp_message_new\<lparr>msg_method := SETUP, msg_request_uri := ''u'',
      msg_headers := [(''Transport'', ''RTP/AVP'')]\<rparr>)
   \<and> parse rtsp_message_new (create_response (rtsp_message_new\<lparr>msg_method := GET_PARAMETER, msg_request_uri := ''u''\<rparr>)) =
    Inr (True, rtsp_message_new\<lparr>msg_method := UNKNOWN, msg_request_uri := ''u''\<rparr>)"
proof -
  note defs = rtsp_message_new_def word_def is_space_def sorted_keys_def wf_header_def plain_def trimmed_def
  have "parse rtsp_message_new (create_response (rtsp_message_new\<lparr>msg_method := SETUP, msg_request_uri := ''u'',
      msg_headers := [(''Transport'', ''RTP/AVP'')]\<rparr>)) =
    Inr (True, rtsp_message_new\<lparr>msg_method := SETUP, msg_request_uri := ''u'',
      msg_headers := [(''Transport'', ''RTP/AVP'')]\<rparr>)"
    by (subst request_roundtrip) (simp_all add: defs)
  moreover have "parse rtsp_message_new (create_response (rtsp_message_new\<lparr>msg_method := GET_PARAMETER, msg_request_uri := ''u''\<rparr>)) =
    Inr (True, rtsp_message_new\<lparr>msg_method := UNKNOWN, msg_request_uri := ''u''\<rparr>)"
    by (subst request_roundtrip) (simp_all add: defs)
  ultimately show ?thesis ..
qed

text \<open>
  A header with a name and a blank or missing value is not parsed: the position
  \<open>npos\<close> goes to \<open>substr\<close>, which throws \<open>std::out_of_range\<close>, whatever comes after that line.
\<close>

lemma blank_header_throws:
  assumes "LF \<notin> set line0" and "plain k" and "k \<noteq> []" and "CHR '':'' \<notin> set k"
    and "set v \<subseteq> {CHR '' ''}"
  shows "parse m (line0 @ LF # k @ CHR '':'' # v @ crlf @ rest) = Inl Out_Of_Range"
proof -
  have p: "plain (k @ CHR '':'' # v)" using assms(2,5) by (auto simp: plain_def)
  have "getline LF (line0 @ LF # (k @ CHR '':'' # v @ crlf @ rest)) = Some (line0, k @ CHR '':'' # v @ crlf @ rest)"
    using assms(1) by (rule getline_append)
  moreover have "getline LF ((k @ CHR '':'' # v @ [CR]) @ LF # rest) = Some (k @ CHR '':'' # v @ [CR], rest)"
    using p by (intro getline_append) (auto simp: plain_def)
  moreover have "filter (\<lambda>c. c \<noteq> CR) (k @ CHR '':'' # v @ [CR]) = k @ CHR '':'' # v"
    using plain_filter_CR [OF p] by simp
  ultimately show ?thesis
    using parse_header_line_blank [OF assms(4,5,3)]
    by (simp add: parse_def parse_header_lines.simps [of _ "k @ CHR '':'' # v @ CR # LF # rest"] Let_def)
qed

lemma blank_header_throws_witness:
  "parse rtsp_message_new (''PLAY u RTSP/1.0'' @ LF # ''User-Agent'' @ CHR '':'' # '' '' @ crlf @ crlf) = Inl Out_Of_Range"
  by (rule blank_header_throws) (simp_all add: plain_def)

text \<open>
  C25 (type). Whatever the bytes that arrive: parsing them throws one of the two exceptions of
  \<open>std::stoi\<close> and \<open>substr\<close> and never fails otherwise; it returns false for the empty input only;
  and the message it returns is of the shape that the handlers and the writer count on: one
  header per name, in key order, none of them CSeq, each with a name without colon and a value
  that is not blank, trimmed and without line breaks; the protocol and the URI are single words
  (a missing URI is empty); no status code and no body is set. It can therefore be written and
  parsed again as soon as it has a URI and one of the methods that the writer knows.
\<close>

theorem parse_types:
  "case parse rtsp_message_new data of
     Inl e \<Rightarrow> e \<in> {Invalid_Argument, Out_Of_Range}
   | Inr (ok, m) \<Rightarrow> ok = (data \<noteq> []) \<and> sorted_keys (msg_headers m) \<and> list_all wf_header (msg_headers m)
       \<and> word (msg_protocol m) \<and> (msg_request_uri m = [] \<or> word (msg_request_uri m))
       \<and> msg_status_code m = Unset \<and> msg_body m = []
       \<and> wf_request m = (msg_request_uri m \<noteq> [] \<and> msg_method m \<in> {OPTIONS, DESCRIBE, SETUP, PLAY, PAUSE, TEARDOWN})"
proof (cases "getline LF data")
  case None
  then have "data = []" by (simp add: getline_def split: if_splits)
  with None parsed_new show ?thesis
    by (simp add: parse_def parsed_def wf_request_def rtsp_message_new_def word_def)
next
  case (Some r)
  obtain line iss where r: "r = (line, iss)" by (cases r)
  from Some have "data \<noteq> []" by (auto simp: getline_def)
  with Some r parse_header_lines_types [OF parsed_request_line [OF parsed_new], of line iss] show ?thesis
    by (cases "parse_header_lines (parse_request_line rtsp_message_new line) iss")
      (auto simp: parse_def parsed_def wf_request_def word_def)
qed

end
