(* ===== verification/MediaTypes.thy ===== *)
theory MediaTypes
  imports Prelude
begin

text \<open>\<open>MediaType\<close>, \<open>FrameData\<close> and \<open>MAX_FRAME_SIZE\<close> of MediaSourceHandler.h.\<close>

datatype media_type = H264 | AAC

text \<open>\<open>static_cast<uint8_t>\<close> of the enumerators.\<close>

fun media_type_code :: "media_type \<Rightarrow> byte" where
  "media_type_code H264 = 96"
| "media_type_code AAC = 97"

definition MAX_FRAME_SIZE :: nat where "MAX_FRAME_SIZE = 512 * 1024"

text \<open>
  \<open>FrameData\<close> owns a copy of the bytes it is built from, of exactly \<open>size_\<close> bytes, so a
  frame is its byte list. A queue of \<open>shared_ptr<FrameData>\<close> holds \<open>None\<close> for \<open>nullptr\<close>.
\<close>

type_synonym frame = "byte list"

definition frame_data :: "byte list \<Rightarrow> nat \<Rightarrow> frame result" where
  "frame_data source n =
     (if n \<le> length source then Inr (take n source)
      else Inl (Undefined ''read past the end of a buffer''))"

text \<open>The two start codes of an Annex B stream.\<close>

definition start_codes :: "byte list set" where
  "start_codes = {[0, 0, 1], [0, 0, 0, 1]}"

end
