(* ===== verification/MediaFile.thy ===== *)
theory MediaFile
  imports MediaTypes "HOL-Library.Sublist"
begin

text \<open>
  The file readers of MediaSourceHandler.cpp: \<open>H264MediaTrack::read_next_frame\<close>, which cuts an
  Annex B stream at its start codes, and \<open>AACMediaTrack::read_next_frame\<close>, which follows the
  frame lengths of ADTS headers. The locale \<open>frame_reader\<close> is what the producer threads rely
  on; \<open>read_frames\<close> is the sequence of frames a producer takes from it.
\<close>

unbundle bit_operations_syntax

section \<open>std::ifstream\<close>

text \<open>
  \<open>read\<close> sets \<open>eofbit\<close> and \<open>failbit\<close> together when it gets fewer bytes than it asked for, and
  reads nothing once they are set; so one flag is enough. Opening clears it.
\<close>

record ifstream =
  content :: "byte list"
  pos :: nat
  eof :: bool
  is_open :: bool

definition open_file :: "byte list \<Rightarrow> ifstream" where
  "open_file bs = \<lparr>content = bs, pos = 0, eof = False, is_open = True\<rparr>"

definition file_read :: "int \<Rightarrow> ifstream \<Rightarrow> byte list \<times> ifstream" where
  "file_read n f =
     (if eof f then ([], f)
      else let bs = take (nat n) (drop (pos f) (if is_open f then content f else [])) in
        (bs, f\<lparr>pos := pos f + length bs, eof := (int (length bs) \<noteq> n)\<rparr>))"

definition seek_back :: "nat \<Rightarrow> ifstream \<Rightarrow> ifstream" where
  "seek_back n f = f\<lparr>pos := pos f - n\<rparr>"

section \<open>The readers\<close>

text \<open>The file of a track and its \<open>frame_buf_\<close>.\<close>

record reader =
  in_file :: ifstream
  frame_buf :: "byte list"

text \<open>\<open>read\<close> into \<open>frame_buf_\<close>; the number of bytes is \<open>gcount\<close>.\<close>

definition read_into :: "int \<Rightarrow> reader \<Rightarrow> (nat \<times> reader) result" where
  "read_into n r =
     (let (bs, f) = file_read n (in_file r) in
      bind_result (memcpy_at (frame_buf r) 0 bs) (\<lambda>buf. Inr (length bs, r\<lparr>in_file := f, frame_buf := buf\<rparr>)))"

definition start_code_at :: "byte list \<Rightarrow> nat \<Rightarrow> nat \<Rightarrow> bool" where
  "start_code_at buf read_bytes i \<longleftrightarrow>
     i + 2 < read_bytes \<and> buf ! i = 0 \<and> buf ! (i + 1) = 0 \<and> buf ! (i + 2) = 1 \<or>
     i + 3 < read_bytes \<and> buf ! i = 0 \<and> buf ! (i + 1) = 0 \<and> buf ! (i + 2) = 0 \<and> buf ! (i + 3) = 1"

text \<open>The \<open>for\<close> loop over the buffer.\<close>

function scan :: "byte list \<Rightarrow> nat \<Rightarrow> nat \<Rightarrow> nat option" where
  "scan buf read_bytes i =
     (if i < read_bytes then
        if start_code_at buf read_bytes i then Some i else scan buf read_bytes (i + 1)
      else None)"
  by auto
termination by (relation "measure (\<lambda>(_, n, i). n - i)") auto

declare scan.simps [simp del]

text \<open>What is left of the file bounds the \<open>while\<close> loop and the number of frames.\<close>

definition remaining :: "reader \<Rightarrow> nat" where
  "remaining r = (if eof (in_file r) then 0 else Suc (length (content (in_file r)) - pos (in_file r)))"

lemma file_read_remaining:
  assumes "\<not> eof f" and "file_read n f = (bs, f')" and "\<not> eof f'" and "0 < n"
  shows "pos f' = pos f + nat n \<and> pos f' \<le> length (content f) \<and> content f' = content f \<and> is_open f'"
  using assms by (auto simp: file_read_def Let_def min_def split: if_splits)

lemma read_into_remaining:
  assumes "\<not> eof (in_file r)" and "read_into n r = Inr (k, r')" and "0 < n"
  shows "remaining r' < remaining r"
proof -
  obtain bs f where f: "file_read n (in_file r) = (bs, f)" by (cases "file_read n (in_file r)")
  with assms(2) have "in_file r' = f" by (auto simp: read_into_def bind_result_Inr_iff)
  with file_read_remaining [OF assms(1) f] assms show ?thesis
    by (auto simp: remaining_def)
qed

function h264_read_next_frame :: "reader \<Rightarrow> (int \<times> reader) result" where
  "h264_read_next_frame r =
     (if eof (in_file r) then Inr (-1, r)
      else case read_into (int MAX_FRAME_SIZE) r of
          Inl e \<Rightarrow> Inl e
        | Inr (read_bytes, r1) \<Rightarrow>
            (case scan (frame_buf r1) read_bytes 3 of
               Some i \<Rightarrow> Inr (int i, if \<not> eof (in_file r1)
                                  then r1\<lparr>in_file := seek_back (read_bytes - i) (in_file r1)\<rparr> else r1)
             | None \<Rightarrow> h264_read_next_frame r1))"
  by auto
termination
  by (relation "measure remaining") (auto intro: read_into_remaining simp: MAX_FRAME_SIZE_def)

declare h264_read_next_frame.simps [simp del]

definition adts_header_size :: nat where "adts_header_size = 7"

text \<open>The 13-bit length of an ADTS frame, header included, is spread over three bytes.\<close>

definition adts_frame_length :: "byte list \<Rightarrow> int" where
  "adts_frame_length h =
     sint (push_bit 11 (ucast (h ! 3) AND 0x03) OR push_bit 3 (ucast (h ! 4) AND 0xFF)
           OR drop_bit 5 (ucast (h ! 5) AND 0xE0) :: 32 word)"

definition aac_read_next_frame :: "reader \<Rightarrow> (int \<times> reader) result" where
  "aac_read_next_frame r =
     (let (adts_header, f) = file_read (int adts_header_size) (in_file r); r1 = r\<lparr>in_file := f\<rparr> in
      if length adts_header \<noteq> adts_header_size then Inr (-1, r1)
      else if adts_header ! 0 \<noteq> 0xFF \<or> adts_header ! 1 AND 0xF0 \<noteq> 0xF0 then Inr (-1, r1)
      else
        let frame_size = adts_frame_length adts_header - 7 in
        bind_result (read_into frame_size r1) (\<lambda>(n, r2).
          if int n \<noteq> frame_size then Inr (-1, r2) else Inr (frame_size, r2)))"

section \<open>The contract of a reader\<close>

text \<open>
  What the producer does with a reader, for at most \<open>k\<close> frames: it copies each frame out of the
  buffer and stops at the first size that is not positive. The flag tells whether it has stopped.
\<close>

fun read_frames :: "('r \<Rightarrow> (int \<times> 'r) result) \<Rightarrow> ('r \<Rightarrow> byte list) \<Rightarrow> nat \<Rightarrow> 'r \<Rightarrow> (frame list \<times> bool) result" where
  "read_frames next_frame buf 0 r = Inr ([], False)"
| "read_frames next_frame buf (Suc k) r =
     bind_result (next_frame r) (\<lambda>(frame_size, r').
       if frame_size \<le> 0 then Inr ([], True)
       else bind_result (frame_data (buf r') (nat frame_size)) (\<lambda>f.
         bind_result (read_frames next_frame buf k r') (\<lambda>(fs, stopped). Inr (f # fs, stopped))))"

locale frame_reader =
  fixes next_frame :: "'r \<Rightarrow> (int \<times> 'r) result"
    and buf :: "'r \<Rightarrow> byte list"
    and left :: "'r \<Rightarrow> nat"
    and ok :: "'r \<Rightarrow> bool"
  assumes next_returns: "ok r \<Longrightarrow> \<exists>n r'. next_frame r = Inr (n, r') \<and> ok r' \<and> n \<le> int (length (buf r'))
      \<and> (0 < n \<longrightarrow> left r' < left r)"
begin

lemma reading_stops:
  "ok r \<Longrightarrow> left r < k \<Longrightarrow> \<exists>fs. read_frames next_frame buf k r = Inr (fs, True) \<and> length fs \<le> left r"
proof (induction k arbitrary: r)
  case (Suc k)
  from next_returns [OF Suc.prems(1)] obtain n r' where
    n: "next_frame r = Inr (n, r')" "ok r'" "n \<le> int (length (buf r'))" "0 < n \<longrightarrow> left r' < left r" by blast
  show ?case
  proof (cases "n \<le> 0")
    case False
    with n Suc.prems have "left r' < k" by simp
    from Suc.IH [OF n(2) this] obtain fs where "read_frames next_frame buf k r' = Inr (fs, True)" "length fs \<le> left r'" by blast
    with n False show ?thesis by (simp add: frame_data_def nat_le_iff)
  qed (use n in simp)
qed simp

end

section \<open>The H.264 reader\<close>

lemma scan_first:
  assumes "start_code_at b n j" and "i \<le> j" and "\<And>k. i \<le> k \<Longrightarrow> k < j \<Longrightarrow> \<not> start_code_at b n k"
  shows "scan b n i = Some j"
  using assms
proof (induction b n i rule: scan.induct)
  case (1 b n i)
  have "j < n" using "1.prems"(1) by (auto simp: start_code_at_def)
  then show ?case
    using 1 by (subst scan.simps) (cases "i = j", auto)
qed

lemma scan_none:
  "(\<And>k. i \<le> k \<Longrightarrow> k < n \<Longrightarrow> \<not> start_code_at b n k) \<Longrightarrow> scan b n i = None"
  by (induction b n i rule: scan.induct) (subst scan.simps, auto)

lemma scan_bounds: "scan b n i = Some j \<Longrightarrow> i \<le> j \<and> j < n"
  by (induction b n i rule: scan.induct) (subst (asm) (2) scan.simps, auto split: if_splits)

definition reader_ok :: "reader \<Rightarrow> bool" where
  "reader_ok r \<longleftrightarrow> length (frame_buf r) = MAX_FRAME_SIZE + 10"

lemma read_into_ok:
  assumes "reader_ok r" and "n \<le> int MAX_FRAME_SIZE + 10"
  shows "\<exists>r'. read_into n r = Inr (length (fst (file_read n (in_file r))), r') \<and> reader_ok r'
    \<and> in_file r' = snd (file_read n (in_file r))
    \<and> frame_buf r' = fst (file_read n (in_file r)) @ drop (length (fst (file_read n (in_file r)))) (frame_buf r)
    \<and> length (fst (file_read n (in_file r))) \<le> nat n"
proof -
  obtain bs f where f: "file_read n (in_file r) = (bs, f)" by (cases "file_read n (in_file r)")
  then have "length bs \<le> nat n" by (auto simp: file_read_def Let_def split: if_splits)
  then have "length bs \<le> length (frame_buf r)" using assms by (simp add: reader_ok_def)
  with f \<open>length bs \<le> nat n\<close> assms(1) show ?thesis by (simp add: read_into_def reader_ok_def)
qed

lemma h264_returns:
  "reader_ok r \<Longrightarrow> \<exists>n r'. h264_read_next_frame r = Inr (n, r') \<and> reader_ok r'
     \<and> n \<le> int (length (frame_buf r')) \<and> (0 < n \<longrightarrow> remaining r' < remaining r)"
proof (induction r rule: h264_read_next_frame.induct)
  case (1 r)
  show ?case
  proof (cases "eof (in_file r)")
    case True
    with "1.prems" show ?thesis by (subst h264_read_next_frame.simps) simp
  next
    case False
    let ?n = "int MAX_FRAME_SIZE"
    obtain r1 where r1: "read_into ?n r = Inr (length (fst (file_read ?n (in_file r))), r1)" "reader_ok r1"
      and len: "length (fst (file_read ?n (in_file r))) \<le> MAX_FRAME_SIZE"
      and f1: "in_file r1 = snd (file_read ?n (in_file r))"
      using read_into_ok [OF "1.prems", of ?n] by auto
    note less = read_into_remaining [OF False r1(1)]
    have less: "remaining r1 < remaining r" by (rule less) (simp add: MAX_FRAME_SIZE_def)
    let ?k = "length (fst (file_read ?n (in_file r)))"
    show ?thesis
    proof (cases "scan (frame_buf r1) ?k 3")
      case None
      with "1.IH" [OF False r1(1) refl None] r1(2) obtain n r' where
        "h264_read_next_frame r1 = Inr (n, r')" "reader_ok r'" "n \<le> int (length (frame_buf r'))"
        "0 < n \<longrightarrow> remaining r' < remaining r1" by blast
      then show ?thesis using False r1 None less by (subst h264_read_next_frame.simps) auto
    next
      case (Some i)
      from scan_bounds [OF this] have i: "3 \<le> i" "i < ?k" by auto
      have "remaining (r1\<lparr>in_file := seek_back (?k - i) (in_file r1)\<rparr>) < remaining r" if "\<not> eof (in_file r1)"
      proof -
        have "file_read ?n (in_file r) = (fst (file_read ?n (in_file r)), in_file r1)" by (simp add: f1)
        from file_read_remaining [OF False this that] have
          "pos (in_file r1) = pos (in_file r) + MAX_FRAME_SIZE" "pos (in_file r1) \<le> length (content (in_file r))"
          "content (in_file r1) = content (in_file r)" by (auto simp: MAX_FRAME_SIZE_def)
        with i len that False show ?thesis by (simp add: remaining_def seek_back_def)
      qed
      then show ?thesis using False r1 Some less i len
        by (subst h264_read_next_frame.simps) (auto simp: reader_ok_def)
    qed
  qed
qed

interpretation h264_reader: frame_reader h264_read_next_frame frame_buf remaining reader_ok
  by unfold_locales (rule h264_returns)

text \<open>
  One NAL unit of an Annex B stream with its start code in front: it is not empty, its last byte
  is not zero, no start code occurs inside, and it fits the reader's buffer.
\<close>

definition wf_nal :: "byte list \<Rightarrow> bool" where
  "wf_nal f \<longleftrightarrow>
     (\<exists>sc\<in>start_codes. \<exists>nal. nal \<noteq> [] \<and> f = sc @ nal) \<and>
     f ! (length f - 1) \<noteq> 0 \<and>
     (\<forall>i < length f. 3 \<le> i \<longrightarrow> i + 2 < length f \<longrightarrow> \<not> (f ! i = 0 \<and> f ! (i + 1) = 0 \<and> f ! (i + 2) = 1)) \<and>
     length f + 4 \<le> MAX_FRAME_SIZE"

text \<open>What of it the scan relies on: no start code from the fourth byte on, and none that the last bytes begin.\<close>

definition no_code_inside :: "byte list \<Rightarrow> bool" where
  "no_code_inside f \<longleftrightarrow> f ! (length f - 1) \<noteq> 0 \<and>
     (\<forall>i < length f. 3 \<le> i \<longrightarrow> i + 2 < length f \<longrightarrow> \<not> (f ! i = 0 \<and> f ! (i + 1) = 0 \<and> f ! (i + 2) = 1))"

lemma wf_nal_no_code: "wf_nal f \<Longrightarrow> no_code_inside f"
  by (simp add: wf_nal_def no_code_inside_def)

lemma no_start_code_inside:
  assumes "no_code_inside f" and "length f \<le> n" and "3 \<le> i" and "i < length f"
    and same: "\<And>j. j < length f \<Longrightarrow> b ! j = f ! j"
  shows "\<not> start_code_at b n i"
proof
  assume code: "start_code_at b n i"
  have last0: "f ! (length f - 1) \<noteq> 0"
    and inner: "\<And>i. 3 \<le> i \<Longrightarrow> i + 2 < length f \<Longrightarrow> f ! i = 0 \<Longrightarrow> f ! (i + 1) = 0 \<Longrightarrow> f ! (i + 2) \<noteq> 1"
    using assms(1) by (auto simp: no_code_inside_def)
  consider "i + 3 < length f" | "i + 3 = length f" | "i + 2 = length f" | "i + 1 = length f"
    using assms(4) by linarith
  then show False
  proof cases
    case 1
    with code same [of i] same [of "i + 1"] same [of "i + 2"] same [of "i + 3"]
      inner [of i] inner [of "i + 1"] assms(3) show ?thesis by (auto simp: start_code_at_def numeral_3_eq_3)
  next
    case 2
    then have "length f - 1 = i + 2" "i < length f" "i + 1 < length f" "i + 2 < length f" by simp_all
    with code same [of i] same [of "i + 1"] same [of "i + 2"] inner [of i] last0 assms(3)
    show ?thesis by (auto simp: start_code_at_def)
  next
    case 3
    then have "length f - 1 = i + 1" by simp
    with code same [of "i + 1"] last0 3 show ?thesis by (auto simp: start_code_at_def)
  next
    case 4
    then have "length f - 1 = i" by simp
    with code same [of i] last0 4 show ?thesis by (auto simp: start_code_at_def)
  qed
qed

lemma start_code_of_next:
  assumes "wf_nal g" and "k + 4 \<le> n" and same: "\<And>j. j < 4 \<Longrightarrow> b ! (k + j) = g ! j"
  shows "start_code_at b n k"
proof -
  obtain sc nal where g: "g = sc @ nal" "sc \<in> start_codes" using assms(1) by (auto simp: wf_nal_def)
  show ?thesis
    using g assms(2) same [of 0] same [of 1] same [of 2] same [of 3]
    by (auto simp: start_codes_def start_code_at_def numeral_2_eq_2 numeral_3_eq_3)
qed

text \<open>Reading the first of several NAL units, and the only one left.\<close>

lemma h264_read_first:
  assumes "reader_ok r" and "\<not> eof (in_file r)" and "is_open (in_file r)"
    and "drop (pos (in_file r)) (content (in_file r)) = f @ g @ rest" and "wf_nal f" and "wf_nal g"
  shows "\<exists>r'. h264_read_next_frame r = Inr (int (length f), r') \<and> reader_ok r'
    \<and> take (length f) (frame_buf r') = f
    \<and> (eof (in_file r') \<longleftrightarrow> length (f @ g @ rest) < MAX_FRAME_SIZE)
    \<and> (\<not> eof (in_file r') \<longrightarrow> is_open (in_file r')
        \<and> drop (pos (in_file r')) (content (in_file r')) = g @ rest)"
proof -
  let ?all = "f @ g @ rest" and ?n = "int MAX_FRAME_SIZE"
  define bs where "bs = take MAX_FRAME_SIZE ?all"
  have gl: "4 \<le> length g" using assms(6) by (auto simp: wf_nal_def start_codes_def Suc_le_eq)
  have fl: "length f + 4 \<le> length bs" "3 \<le> length f" using assms(5) gl
    by (auto simp: bs_def wf_nal_def start_codes_def)
  have fr: "file_read ?n (in_file r) = (bs, (in_file r)\<lparr>pos := pos (in_file r) + length bs, eof := (length bs \<noteq> MAX_FRAME_SIZE)\<rparr>)"
    using assms(2-4) by (simp add: file_read_def bs_def Let_def)
  from read_into_ok [OF assms(1), of ?n] obtain r1 where r1: "read_into ?n r = Inr (length bs, r1)" "reader_ok r1"
    "in_file r1 = (in_file r)\<lparr>pos := pos (in_file r) + length bs, eof := (length bs \<noteq> MAX_FRAME_SIZE)\<rparr>"
    "frame_buf r1 = bs @ drop (length bs) (frame_buf r)" by (auto simp: fr)
  have nth: "frame_buf r1 ! j = ?all ! j" if "j < length bs" for j
  proof -
    have "bs ! j = ?all ! j" unfolding bs_def by (rule nth_take) (use that in \<open>simp add: bs_def\<close>)
    with that show ?thesis by (simp add: r1(4) nth_append)
  qed
  have "scan (frame_buf r1) (length bs) 3 = Some (length f)"
  proof (rule scan_first)
    show "start_code_at (frame_buf r1) (length bs) (length f)"
      by (rule start_code_of_next [OF assms(6)]) (use fl gl nth in \<open>simp_all add: nth_append\<close>)
  next
    fix k assume "3 \<le> k" "k < length f"
    then show "\<not> start_code_at (frame_buf r1) (length bs) k"
      by (intro no_start_code_inside [OF wf_nal_no_code [OF assms(5)]]) (use fl nth in \<open>simp_all add: nth_append\<close>)
  qed (use fl in simp)
  then have run: "h264_read_next_frame r = Inr (int (length f),
      if \<not> eof (in_file r1) then r1\<lparr>in_file := seek_back (length bs - length f) (in_file r1)\<rparr> else r1)"
    using assms(2) r1(1) by (subst h264_read_next_frame.simps) simp
  have at: "pos (in_file r) + length bs - (length bs - length f) = pos (in_file r) + length f" using fl by simp
  have next_pos: "drop (pos (in_file r) + length f) (content (in_file r)) = g @ rest"
    using arg_cong [OF assms(4), of "drop (length f)"] by (simp add: add.commute)
  have "take (length f) (frame_buf r1) = f" using fl by (simp add: r1(4) bs_def)
  moreover have "length bs \<noteq> MAX_FRAME_SIZE \<longleftrightarrow> length ?all < MAX_FRAME_SIZE" by (auto simp: bs_def min_def)
  ultimately show ?thesis using run r1(2) assms(3) at next_pos
    by (auto simp: r1(3) seek_back_def reader_ok_def)
qed

lemma h264_read_last:
  assumes "reader_ok r" and "\<not> eof (in_file r)" and "is_open (in_file r)"
    and "drop (pos (in_file r)) (content (in_file r)) = rest" and "rest = [] \<or> wf_nal rest"
  shows "\<exists>r'. h264_read_next_frame r = Inr (-1, r')"
proof -
  let ?n = "int MAX_FRAME_SIZE"
  have short: "length rest < MAX_FRAME_SIZE" using assms(5) by (auto simp: wf_nal_def MAX_FRAME_SIZE_def)
  have fr: "file_read ?n (in_file r) = (rest, (in_file r)\<lparr>pos := pos (in_file r) + length rest, eof := True\<rparr>)"
    using assms(2-4) short by (simp add: file_read_def Let_def)
  from read_into_ok [OF assms(1), of ?n] obtain r1 where r1: "read_into ?n r = Inr (length rest, r1)"
    "eof (in_file r1)" "frame_buf r1 = rest @ drop (length rest) (frame_buf r)" by (auto simp: fr)
  have "scan (frame_buf r1) (length rest) 3 = None"
  proof (rule scan_none)
    fix k assume k: "3 \<le> k" "k < length rest"
    then have "wf_nal rest" using assms(5) by auto
    with k show "\<not> start_code_at (frame_buf r1) (length rest) k"
      by (intro no_start_code_inside) (auto simp: r1(3) nth_append wf_nal_no_code)
  qed
  moreover have "h264_read_next_frame r1 = Inr (-1, r1)"
    using r1(2) by (subst h264_read_next_frame.simps) simp
  ultimately show ?thesis using assms(2) r1(1) by (subst h264_read_next_frame.simps) simp
qed

text \<open>The NAL units the producer gets out of a file that consists of the given ones.\<close>

fun delivered :: "byte list list \<Rightarrow> byte list list" where
  "delivered (f # g # fs) = f # (if length (concat (f # g # fs)) < MAX_FRAME_SIZE then [] else delivered (g # fs))"
| "delivered _ = []"

lemma prefix_delivered: "prefix (delivered fs) fs"
  by (induction fs rule: delivered.induct) auto

lemma h264_read_frames:
  assumes "reader_ok r" and "\<not> eof (in_file r)" and "is_open (in_file r)"
    and "drop (pos (in_file r)) (content (in_file r)) = concat fs" and "\<forall>f\<in>set fs. wf_nal f"
    and "length fs < k"
  shows "read_frames h264_read_next_frame frame_buf k r = Inr (delivered fs, True)"
  using assms
proof (induction fs arbitrary: r k rule: delivered.induct [case_names more empty single])
  case (more f g fs)
  obtain j where k: "k = Suc (Suc j)" using more.prems(6) by (metis length_Cons less_imp_Suc_add add_Suc_right add_Suc)
  from h264_read_first [OF more.prems(1-3), of f g "concat fs"] more.prems(4,5) obtain r' where
    r': "h264_read_next_frame r = Inr (int (length f), r')" "reader_ok r'" "take (length f) (frame_buf r') = f"
      "eof (in_file r') \<longleftrightarrow> length (concat (f # g # fs)) < MAX_FRAME_SIZE"
      "\<not> eof (in_file r') \<longrightarrow> is_open (in_file r') \<and> drop (pos (in_file r')) (content (in_file r')) = concat (g # fs)"
    by auto
  have "0 < length f" using more.prems(5) by (auto simp: wf_nal_def start_codes_def)
  moreover have "length f \<le> length (frame_buf r')" using r'(3) by (metis length_take min.cobounded1 min.commute)
  moreover have "read_frames h264_read_next_frame frame_buf (Suc j) r' =
      Inr (if eof (in_file r') then [] else delivered (g # fs), True)"
  proof (cases "eof (in_file r')")
    case True
    then show ?thesis by (simp add: h264_read_next_frame.simps [of r'])
  next
    case False
    with r'(4) have "\<not> length (concat (f # g # fs)) < MAX_FRAME_SIZE" by blast
    from more.IH [OF this r'(2) False] r'(5) False more.prems(5,6) k show ?thesis by (simp del: read_frames.simps delivered.simps)
  qed
  ultimately show ?case using r'(1,3,4) k by (simp add: frame_data_def del: delivered.simps) simp
next
  case empty
  then obtain j where "k = Suc j" by (cases k) auto
  with h264_read_last [OF empty.prems(1-4)] show ?case by auto
next
  case (single v)
  then obtain j where "k = Suc j" by (cases k) auto
  with h264_read_last [OF single.prems(1-3), of "concat [v]"] single.prems(4,5) show ?case by auto
qed

section \<open>The AAC reader\<close>

lemma byte_less: "unat (a :: 8 word) < 256"
proof -
  have "unat a < 2 ^ LENGTH(8)" by (rule unsigned_less)
  then show ?thesis by simp
qed

lemma adts_bits_high: "push_bit 11 (ucast (a :: byte) AND 3) = (word_of_nat (unat a mod 4 * 2048) :: 32 word)"
proof -
  have "(ucast a AND 3 :: 32 word) = take_bit 2 (ucast a)" by (simp add: take_bit_eq_mask mask_eq_exp_minus_1)
  also have "\<dots> = word_of_nat (unat a mod 4)"
    by (rule word_unat_eq_iff [THEN iffD2]) (use byte_less [of a] in \<open>simp add: unat_of_nat unsigned_ucast_eq take_bit_eq_mod unat_mod\<close>)
  finally show ?thesis by (simp add: push_bit_eq_mult)
qed
lemma adts_bits_mid: "push_bit 3 (ucast (a :: byte) AND 0xFF) = (word_of_nat (unat a * 8) :: 32 word)"
proof -
  have "(ucast a AND 0xFF :: 32 word) = take_bit 8 (ucast a)" by (simp add: take_bit_eq_mask mask_eq_exp_minus_1)
  also have "\<dots> = word_of_nat (unat a)"
    by (rule word_unat_eq_iff [THEN iffD2]) (use byte_less [of a] in \<open>simp add: unat_of_nat unsigned_ucast_eq take_bit_eq_mod unat_mod\<close>)
  finally show ?thesis by (simp add: push_bit_eq_mult)
qed
lemma adts_bits_low: "drop_bit 5 (ucast (a :: byte) AND 0xE0) = (word_of_nat (unat a div 32) :: 32 word)"
proof -
  have "drop_bit 5 (ucast a AND 0xE0 :: 32 word) = drop_bit 5 (ucast a)"
  proof (rule bit_word_eqI)
    fix n
    have "bit a (5 + n) \<Longrightarrow> n = 0 \<or> n = 1 \<or> n = 2" by (drule bit_imp_le_length) auto
    then show "bit (drop_bit 5 (ucast a AND 0xE0 :: 32 word)) n = bit (drop_bit 5 (ucast a) :: 32 word) n"
      by (auto simp: bit_simps)
  qed
  also have "\<dots> = word_of_nat (unat a div 32)"
    by (rule word_unat_eq_iff [THEN iffD2]) (use byte_less [of a] in \<open>simp add: unat_of_nat unsigned_ucast_eq drop_bit_eq_div take_bit_eq_mod unat_div\<close>)
  finally show ?thesis .
qed
lemma adts_bits_sum: "push_bit 11 (ucast (a :: byte) AND 3) OR push_bit 3 (ucast (b::byte) AND 0xFF) OR drop_bit 5 (ucast (c::byte) AND 0xE0)
 = (push_bit 11 (ucast (a :: byte) AND 3) + (push_bit 3 (ucast (b::byte) AND 0xFF) + drop_bit 5 (ucast (c::byte) AND 0xE0)) :: 32 word)"
proof -
  have "push_bit 3 (ucast b AND 0xFF) AND drop_bit 5 (ucast c AND 0xE0) = (0 :: 32 word)"
    by (rule bit_word_eqI) (auto simp: bit_simps dest: bit_imp_le_length)
  moreover have "push_bit 11 (ucast a AND 3) AND (push_bit 3 (ucast b AND 0xFF) OR drop_bit 5 (ucast c AND 0xE0)) = (0 :: 32 word)"
    by (rule bit_word_eqI) (auto simp: bit_simps dest: bit_imp_le_length)
  ultimately show ?thesis by (simp add: disjunctive_add_eq_or)
qed

lemma sint_word_of_nat: "n < 2 ^ 31 \<Longrightarrow> sint (word_of_nat n :: 32 word) = int n"
  by (simp add: signed_of_nat signed_take_bit_int_eq_self)

lemma adts_frame_length_value:
  "adts_frame_length h = int (unat (h ! 3) mod 4 * 2048 + unat (h ! 4) * 8 + unat (h ! 5) div 32)"
proof -
  let ?a = "h ! 3" and ?b = "h ! 4" and ?c = "h ! 5"
  let ?n = "unat ?a mod 4 * 2048 + (unat ?b * 8 + unat ?c div 32)"
  have "unat ?a mod 4 * 2048 + (unat ?b * 8 + unat ?c div 32) < 2 ^ 31"
  proof -
    have "unat ?a mod 4 \<le> 3" "unat ?c div 32 \<le> 255" using byte_less [of ?c] by (simp_all add: div_le_dividend [THEN order_trans] less_Suc_eq_le)
    with byte_less [of ?b] show ?thesis by simp
  qed
  then have "sint (word_of_nat ?n :: 32 word) = int ?n" by (rule sint_word_of_nat)
  then show ?thesis unfolding adts_frame_length_def adts_bits_sum unfolding adts_bits_high adts_bits_mid adts_bits_low by (simp add: add.assoc)
qed

text \<open>
  What the reader takes for a frame: seven bytes with the sync word, in their 13-bit length field
  the length of the whole, and the rest, \<open>p\<close>.
\<close>

definition adts_bytes :: "byte list \<Rightarrow> byte list \<Rightarrow> bool" where
  "adts_bytes h p \<longleftrightarrow>
     length h = 7 \<and> h ! 0 = 0xFF \<and> h ! 1 AND 0xF0 = 0xF0 \<and> p \<noteq> [] \<and>
     unat (h ! 3) mod 4 * 2048 + unat (h ! 4) * 8 + unat (h ! 5) div 32 = 7 + length p"

text \<open>
  An ADTS frame of ISO/IEC 13818-7: a header \<open>h\<close> and the access unit \<open>p\<close>. When the bit
  \<open>protection_absent\<close>, the lowest of the second byte, is 0, a CRC of two bytes belongs to the header.
\<close>

definition protection_absent :: "byte list \<Rightarrow> bool" where
  "protection_absent h \<longleftrightarrow> bit (h ! 1) 0"

definition adts_frame :: "byte list \<Rightarrow> byte list \<Rightarrow> bool" where
  "adts_frame h p \<longleftrightarrow>
     length h = (if protection_absent h then 7 else 9) \<and> h ! 0 = 0xFF \<and> h ! 1 AND 0xF0 = 0xF0 \<and> p \<noteq> [] \<and>
     unat (h ! 3) mod 4 * 2048 + unat (h ! 4) * 8 + unat (h ! 5) div 32 = length h + length p"

text \<open>The reader knows headers of seven bytes only: what it delivers of such a frame.\<close>

definition unit_read :: "byte list \<times> byte list \<Rightarrow> byte list" where
  "unit_read e = (case e of (h, p) \<Rightarrow> drop 7 h @ p)"

lemma unit_read_plain: "adts_frame h p \<Longrightarrow> protection_absent h \<Longrightarrow> unit_read (h, p) = p"
  by (simp add: unit_read_def adts_frame_def)

lemma adts_frame_bytes: "adts_frame h p \<Longrightarrow> adts_bytes (take 7 h) (unit_read (h, p))"
  by (auto simp: adts_frame_def adts_bytes_def unit_read_def)

lemma units_read_plain:
  "\<forall>(h, p)\<in>set fs. adts_frame h p \<and> protection_absent h \<Longrightarrow> map unit_read fs = map snd fs"
  by (auto simp: unit_read_plain)

text \<open>A file of ADTS frames, cut where the reader cuts it.\<close>

definition adts_cut :: "byte list \<times> byte list \<Rightarrow> byte list \<times> byte list" where
  "adts_cut e = (take 7 (fst e), unit_read e)"

lemma adts_cut:
  "\<forall>(h, p)\<in>set fs. adts_frame h p \<Longrightarrow> \<forall>(h, p)\<in>set (map adts_cut fs). adts_bytes h p"
  "concat (map (\<lambda>(h, p). h @ p) (map adts_cut fs)) = concat (map (\<lambda>(h, p). h @ p) fs)"
  "map snd (map adts_cut fs) = map unit_read fs"
proof -
  show "\<forall>(h, p)\<in>set fs. adts_frame h p \<Longrightarrow> \<forall>(h, p)\<in>set (map adts_cut fs). adts_bytes h p"
    using adts_frame_bytes by (fastforce simp: adts_cut_def)
  show "concat (map (\<lambda>(h, p). h @ p) (map adts_cut fs)) = concat (map (\<lambda>(h, p). h @ p) fs)"
    by (induction fs) (auto simp: adts_cut_def unit_read_def)
qed (simp add: adts_cut_def)

lemma adts_bytes_bound: "adts_bytes h p \<Longrightarrow> length p \<le> 8184"
proof -
  assume "adts_bytes h p"
  moreover have "unat (h ! 3) mod 4 \<le> 3" "unat (h ! 5) div 32 \<le> 7" "unat (h ! 4) \<le> 255"
    using byte_less [of "h ! 5"] byte_less [of "h ! 4"] by auto
  ultimately show ?thesis by (simp add: adts_bytes_def)
qed

lemma adts_frame_length_bounds: "adts_frame_length h \<le> 8191"
proof -
  have "unat (h ! 3) mod 4 \<le> 3" "unat (h ! 5) div 32 \<le> 7" "unat (h ! 4) \<le> 255"
    using byte_less [of "h ! 5"] byte_less [of "h ! 4"] by auto
  then show ?thesis unfolding adts_frame_length_value by linarith
qed

lemma file_read_left:
  assumes "file_read n f = (bs, f')" and "int (length bs) = n" and "0 < n"
  shows "\<not> eof f \<and> \<not> eof f' \<and> content f' = content f \<and> pos f' = pos f + length bs \<and> pos f' \<le> length (content f)"
  using assms by (auto simp: file_read_def Let_def min_def split: if_splits)

lemma aac_returns:
  assumes "reader_ok r"
  shows "\<exists>n r'. aac_read_next_frame r = Inr (n, r') \<and> reader_ok r'
     \<and> n \<le> int (length (frame_buf r')) \<and> (0 < n \<longrightarrow> remaining r' < remaining r)"
proof -
  obtain h f where h: "file_read (int adts_header_size) (in_file r) = (h, f)"
    by (cases "file_read (int adts_header_size) (in_file r)")
  let ?r1 = "r\<lparr>in_file := f\<rparr>" and ?n = "adts_frame_length h - 7"
  have ok1: "reader_ok ?r1" using assms by (simp add: reader_ok_def)
  have "?n \<le> int MAX_FRAME_SIZE + 10" using adts_frame_length_bounds [of h] by (simp add: MAX_FRAME_SIZE_def)
  from read_into_ok [OF ok1 this] obtain r2 where r2:
    "read_into ?n ?r1 = Inr (length (fst (file_read ?n f)), r2)" "reader_ok r2"
    "in_file r2 = snd (file_read ?n f)" "length (fst (file_read ?n f)) \<le> nat ?n" by auto
  show ?thesis
  proof (cases "length h = adts_header_size \<and> h ! 0 = 0xFF \<and> h ! 1 AND 0xF0 = 0xF0 \<and> int (length (fst (file_read ?n f))) = ?n \<and> 0 < ?n")
    case True
    have "file_read ?n f = (fst (file_read ?n f), in_file r2)" by (simp add: r2(3))
    from file_read_left [OF this] True file_read_left [OF h] have "remaining r2 < remaining r"
      by (auto simp: remaining_def adts_header_size_def)
    moreover have "?n \<le> int (length (frame_buf r2))"
      using r2(2) \<open>?n \<le> int MAX_FRAME_SIZE + 10\<close> by (simp add: reader_ok_def)
    ultimately show ?thesis using True h r2(1,2) by (simp add: aac_read_next_frame_def)
  next
    case False
    then show ?thesis using h r2(1,2) ok1 by (auto simp: aac_read_next_frame_def reader_ok_def Let_def)
  qed
qed

interpretation aac_reader: frame_reader aac_read_next_frame frame_buf remaining reader_ok
  by unfold_locales (rule aac_returns)

lemma aac_read_first:
  assumes "reader_ok r" and "\<not> eof (in_file r)" and "is_open (in_file r)"
    and "drop (pos (in_file r)) (content (in_file r)) = h @ p @ rest" and "adts_bytes h p"
  shows "\<exists>r'. aac_read_next_frame r = Inr (int (length p), r') \<and> reader_ok r'
    \<and> take (length p) (frame_buf r') = p \<and> \<not> eof (in_file r') \<and> is_open (in_file r')
    \<and> drop (pos (in_file r')) (content (in_file r')) = rest"
proof -
  have hl: "length h = 7" using assms(5) by (simp add: adts_bytes_def)
  let ?f = "(in_file r)\<lparr>pos := pos (in_file r) + 7, eof := False\<rparr>"
  have h: "file_read (int adts_header_size) (in_file r) = (h, ?f)"
    using assms(2-4) hl by (simp add: file_read_def Let_def adts_header_size_def)
  have "drop (pos (in_file r) + 7) (content (in_file r)) = p @ rest"
    using arg_cong [OF assms(4), of "drop 7"] hl by (simp add: add.commute)
  then have fr: "file_read (int (length p)) ?f = (p, ?f\<lparr>pos := pos (in_file r) + 7 + length p, eof := False\<rparr>)"
    using assms(3) by (simp add: file_read_def Let_def)
  have n: "adts_frame_length h - 7 = int (length p)"
    using assms(5) by (simp only: adts_frame_length_value adts_bytes_def)
  have ok: "reader_ok (r\<lparr>in_file := ?f\<rparr>)" using assms(1) by (simp add: reader_ok_def)
  have "int (length p) \<le> int MAX_FRAME_SIZE + 10"
    using adts_bytes_bound [OF assms(5)] by (simp add: MAX_FRAME_SIZE_def)
  from read_into_ok [OF ok this] obtain r2 where r2: "read_into (int (length p)) (r\<lparr>in_file := ?f\<rparr>) = Inr (length p, r2)"
    "reader_ok r2" "in_file r2 = ?f\<lparr>pos := pos (in_file r) + 7 + length p, eof := False\<rparr>"
    "frame_buf r2 = p @ drop (length p) (frame_buf r)" by (auto simp: fr)
  have "drop (pos (in_file r) + 7 + length p) (content (in_file r)) = rest"
    using arg_cong [OF \<open>drop (pos (in_file r) + 7) (content (in_file r)) = p @ rest\<close>, of "drop (length p)"]
    by (simp add: add.commute add.left_commute)
  then show ?thesis using h n r2 hl assms(3,5)
    by (simp add: aac_read_next_frame_def Let_def adts_header_size_def adts_bytes_def)
qed

lemma aac_read_frames:
  assumes "reader_ok r" and "\<not> eof (in_file r)" and "is_open (in_file r)"
    and "drop (pos (in_file r)) (content (in_file r)) = concat (map (\<lambda>(h, p). h @ p) fs)"
    and "\<forall>(h, p)\<in>set fs. adts_bytes h p" and "length fs < k"
  shows "read_frames aac_read_next_frame frame_buf k r = Inr (map snd fs, True)"
  using assms
proof (induction fs arbitrary: r k)
  case Nil
  then obtain j where "k = Suc j" by (cases k) auto
  with Nil show ?case by (simp add: aac_read_next_frame_def file_read_def Let_def adts_header_size_def)
next
  case (Cons e fs)
  obtain h p where e: "e = (h, p)" by (cases e)
  obtain j where k: "k = Suc j" using Cons.prems(6) by (cases k) auto
  have a: "adts_bytes h p" using Cons.prems(5) e by auto
  from aac_read_first [OF Cons.prems(1-3) _ a, of "concat (map (\<lambda>(h, p). h @ p) fs)"] Cons.prems(4) e
  obtain r' where r': "aac_read_next_frame r = Inr (int (length p), r')" "reader_ok r'"
    "take (length p) (frame_buf r') = p" "\<not> eof (in_file r')" "is_open (in_file r')"
    "drop (pos (in_file r')) (content (in_file r')) = concat (map (\<lambda>(h, p). h @ p) fs)" by auto
  have "p \<noteq> []" using a by (simp add: adts_bytes_def)
  moreover have "length p \<le> length (frame_buf r')" using r'(3) by (metis length_take min.cobounded1 min.commute)
  moreover have "read_frames aac_read_next_frame frame_buf j r' = Inr (map snd fs, True)"
    using Cons.prems(5,6) k by (intro Cons.IH r') auto
  ultimately show ?case using r'(1,3) k e by (simp add: frame_data_def)
qed

section \<open>What the readers deliver\<close>

text \<open>A track's reader on a file just opened, with whatever \<open>frame_buf_\<close> holds.\<close>

definition new_reader :: "byte list \<Rightarrow> byte list \<Rightarrow> reader" where
  "new_reader bs buf = \<lparr>in_file = open_file bs, frame_buf = buf\<rparr>"

lemma new_reader_simps [simp]:
  "reader_ok (new_reader bs buf) \<longleftrightarrow> length buf = MAX_FRAME_SIZE + 10"
  "\<not> eof (in_file (new_reader bs buf))" "is_open (in_file (new_reader bs buf))"
  "drop (pos (in_file (new_reader bs buf))) (content (in_file (new_reader bs buf))) = bs"
  "remaining (new_reader bs buf) = Suc (length bs)"
  by (simp_all add: new_reader_def open_file_def reader_ok_def remaining_def)

text \<open>
  C22 (functional). The H.264 reader on a file of NAL units, each behind a start code, with no start
  code inside, its last byte not zero, and with the start code at least four bytes shorter than the
  512 KiB of the buffer. The frames it takes out are the NAL units of the file, each with
  its start code, in order and unchanged, but not all of them: the last is never delivered, and after
  a read that reached the end of the file the reader does not seek back, so of the units that
  start in the last 512 KiB only the first comes out. A file of less than 512 KiB yields one
  NAL unit.
\<close>

theorem h264_frames:
  assumes "\<forall>f\<in>set fs. wf_nal f" and "length buf = MAX_FRAME_SIZE + 10" and "length fs < k"
  shows "read_frames h264_read_next_frame frame_buf k (new_reader (concat fs) buf) = Inr (delivered fs, True)
    \<and> prefix (delivered fs) fs
    \<and> (length (concat fs) < MAX_FRAME_SIZE \<longrightarrow> delivered fs = (if 2 \<le> length fs then [hd fs] else []))"
proof -
  have "length (concat fs) < MAX_FRAME_SIZE \<longrightarrow> delivered fs = (if 2 \<le> length fs then [hd fs] else [])"
    by (cases fs rule: delivered.cases) auto
  moreover have "read_frames h264_read_next_frame frame_buf k (new_reader (concat fs) buf) = Inr (delivered fs, True)"
    using assms by (intro h264_read_frames) simp_all
  ultimately show ?thesis using prefix_delivered by blast
qed

lemma no_code_in_part:
  assumes "no_code_inside f" and "n \<le> length f" and "3 \<le> i" and same: "\<And>j. j < n \<Longrightarrow> b ! j = f ! j"
  shows "\<not> start_code_at b n i"
proof
  have inner: "\<And>i. 3 \<le> i \<Longrightarrow> i + 2 < length f \<Longrightarrow> f ! i = 0 \<Longrightarrow> f ! (i + 1) = 0 \<Longrightarrow> f ! (i + 2) \<noteq> 1"
    using assms(1) by (auto simp: no_code_inside_def)
  assume "start_code_at b n i"
  with same [of i] same [of "i + 1"] same [of "i + 2"] same [of "i + 3"] inner [of i] inner [of "i + 1"] assms(2,3)
  show False by (auto simp: start_code_at_def numeral_3_eq_3)
qed

lemma no_code_in_rest:
  assumes "no_code_inside f" and "3 \<le> n" and "n < length f"
  shows "no_code_inside (drop n f)"
proof -
  have "\<not> (f ! i = 0 \<and> f ! (i + 1) = 0 \<and> f ! (i + 2) = 1)" if "3 \<le> i" "i + 2 < length f" for i
    using assms(1) that by (auto simp: no_code_inside_def)
  from this [of "n + _"] assms show ?thesis by (auto simp: no_code_inside_def add.assoc)
qed

text \<open>
  C23 (error). A larger NAL unit is destroyed, here at the beginning of a file. When the reader has filled its buffer without meeting the
  next start code, it reads on over the beginning of the buffer, and returns the position of the
  start code in the second half as the frame's size: of a unit of more than 512 KiB (by three bytes or more, and
  at least four bytes less than twice that) with another unit behind it, only what lies behind the first 512 KiB is delivered, and it has no start code
  in front. If the file has at least twice 512 KiB from the unit's beginning on, the reader then goes on with the next unit.
\<close>

theorem h264_large_unit:
  assumes "no_code_inside f" and "MAX_FRAME_SIZE + 3 \<le> length f" and "length f + 4 \<le> 2 * MAX_FRAME_SIZE"
    and "wf_nal g" and "length buf = MAX_FRAME_SIZE + 10"
  shows "\<exists>r'. h264_read_next_frame (new_reader (f @ g @ rest) buf) = Inr (int (length f - MAX_FRAME_SIZE), r')
    \<and> take (length f - MAX_FRAME_SIZE) (frame_buf r') = drop MAX_FRAME_SIZE f
    \<and> (2 * MAX_FRAME_SIZE \<le> length (f @ g @ rest) \<longrightarrow>
        drop (pos (in_file r')) (content (in_file r')) = g @ rest \<and> \<not> eof (in_file r'))
    \<and> \<not> (\<exists>sc\<in>start_codes. prefix sc (drop MAX_FRAME_SIZE f))"
proof -
  let ?all = "f @ g @ rest" and ?n = "int MAX_FRAME_SIZE" and ?M = MAX_FRAME_SIZE
  let ?r = "new_reader ?all buf"
  have ok: "reader_ok ?r" "\<not> eof (in_file ?r)" "is_open (in_file ?r)" using assms(5) by simp_all
  have frame_buf: "frame_buf ?r = buf" by (simp add: new_reader_def)
  have gl: "4 \<le> length g" using assms(4) by (auto simp: wf_nal_def start_codes_def Suc_le_eq)
  have M: "3 \<le> ?M" "0 < ?M" by (simp_all add: MAX_FRAME_SIZE_def)
  have fr: "file_read ?n (in_file ?r) = (take ?M f, (in_file ?r)\<lparr>pos := ?M, eof := False\<rparr>)"
    using assms(2) by (simp add: new_reader_def open_file_def file_read_def Let_def)
  from read_into_ok [OF ok(1), of ?n] obtain r1 where r1: "read_into ?n ?r = Inr (?M, r1)" "reader_ok r1"
    "in_file r1 = (in_file ?r)\<lparr>pos := ?M, eof := False\<rparr>" "frame_buf r1 = take ?M f @ drop ?M buf"
    using assms(2) frame_buf by (auto simp: fr)
  have "scan (frame_buf r1) ?M 3 = None"
    by (rule scan_none, rule no_code_in_part [OF assms(1)]) (use assms(2) in \<open>auto simp: r1(4) nth_append\<close>)
  then have first: "h264_read_next_frame ?r = h264_read_next_frame r1"
    using ok(2) r1(1) by (subst h264_read_next_frame.simps) simp
  define f2 where "f2 = drop ?M f"
  have f2: "no_code_inside f2" "length f2 = length f - ?M" "3 \<le> length f2" "length f2 + 4 \<le> ?M"
    using no_code_in_rest [OF assms(1) M(1)] assms(2,3) by (simp_all add: f2_def)
  define bs where "bs = take ?M (f2 @ g @ rest)"
  have bl: "length f2 + 4 \<le> length bs" using f2(4) gl by (simp add: bs_def)
  have left: "drop ?M ?all = f2 @ g @ rest" using assms(2) by (simp add: f2_def)
  have fr2: "file_read ?n (in_file r1) = (bs, (in_file r1)\<lparr>pos := ?M + length bs, eof := (length bs \<noteq> ?M)\<rparr>)"
    using left by (simp add: r1(3) new_reader_def open_file_def file_read_def bs_def Let_def)
  from read_into_ok [OF r1(2), of ?n] obtain r2 where r2: "read_into ?n r1 = Inr (length bs, r2)" "reader_ok r2"
    "in_file r2 = (in_file r1)\<lparr>pos := ?M + length bs, eof := (length bs \<noteq> ?M)\<rparr>"
    "frame_buf r2 = bs @ drop (length bs) (frame_buf r1)" by (auto simp: fr2)
  have nth: "frame_buf r2 ! j = (f2 @ g @ rest) ! j" if "j < length bs" for j
  proof -
    have "bs ! j = (f2 @ g @ rest) ! j" unfolding bs_def by (rule nth_take) (use that in \<open>simp add: bs_def\<close>)
    with that show ?thesis by (simp add: r2(4) nth_append)
  qed
  have "scan (frame_buf r2) (length bs) 3 = Some (length f2)"
  proof (rule scan_first)
    show "start_code_at (frame_buf r2) (length bs) (length f2)"
      by (rule start_code_of_next [OF assms(4)]) (use bl gl nth in \<open>simp_all add: nth_append\<close>)
  next
    fix k assume "3 \<le> k" "k < length f2"
    then show "\<not> start_code_at (frame_buf r2) (length bs) k"
      by (intro no_start_code_inside [OF f2(1)]) (use bl nth in \<open>simp_all add: nth_append\<close>)
  qed (use f2 in simp)
  then have run: "h264_read_next_frame r1 = Inr (int (length f2),
      if \<not> eof (in_file r2) then r2\<lparr>in_file := seek_back (length bs - length f2) (in_file r2)\<rparr> else r2)"
    using r1(3) r2(1) by (subst h264_read_next_frame.simps) simp
  have whole: "length bs = ?M" if "2 * ?M \<le> length ?all" using that assms(2) f2(2) by (simp add: bs_def)
  have "drop (?M + length f2) ?all = g @ rest" using f2(2) assms(2) by simp
  moreover have "?M + length bs - (length bs - length f2) = ?M + length f2" using bl by simp
  moreover have "take (length f2) (frame_buf r2) = f2" using bl by (simp add: r2(4) bs_def)
  moreover have "\<not> (\<exists>sc\<in>start_codes. prefix sc f2)"
  proof
    assume "\<exists>sc\<in>start_codes. prefix sc f2"
    then obtain rest2 where "f2 = [0, 0, 0, 1] @ rest2 \<or> f2 = [0, 0, 1] @ rest2"
      by (auto simp: start_codes_def prefix_def)
    then have "\<exists>i. 3 \<le> i \<and> i + 2 < length f \<and> f ! i = 0 \<and> f ! (i + 1) = 0 \<and> f ! (i + 2) = 1"
    proof
      assume c: "f2 = [0, 0, 0, 1] @ rest2"
      then have "f ! (?M + j) = ([0, 0, 0, 1] @ rest2) ! j" for j using assms(2) nth_drop [of ?M f j] by (simp add: f2_def)
      from this [of 1] this [of 2] this [of 3] c f2(2) M show ?thesis by (intro exI [of _ "?M + 1"]) (simp add: numeral_eq_Suc)
    next
      assume c: "f2 = [0, 0, 1] @ rest2"
      then have "f ! (?M + j) = ([0, 0, 1] @ rest2) ! j" for j using assms(2) nth_drop [of ?M f j] by (simp add: f2_def)
      from this [of 0] this [of 1] this [of 2] c f2(2) M show ?thesis by (intro exI [of _ "?M"]) (simp add: numeral_eq_Suc)
    qed
    then show False using assms(1) by (auto simp: no_code_inside_def)
  qed
  ultimately show ?thesis using first run whole assms(2)
    by (auto simp: f2_def [symmetric] f2(2) [symmetric] r2(3) r1(3) seek_back_def new_reader_def open_file_def)
qed

lemma read_adts_file:
  assumes "\<forall>(h, p)\<in>set fs. adts_frame h p" and "length buf = MAX_FRAME_SIZE + 10" and "length fs < k"
  shows "read_frames aac_read_next_frame frame_buf k (new_reader (concat (map (\<lambda>(h, p). h @ p) fs)) buf) =
    Inr (map unit_read fs, True)"
proof -
  have "read_frames aac_read_next_frame frame_buf k (new_reader (concat (map (\<lambda>(h, p). h @ p) (map adts_cut fs))) buf) =
      Inr (map snd (map adts_cut fs), True)"
    by (rule aac_read_frames) (use assms adts_cut(1) [OF assms(1)] in simp_all)
  then show ?thesis unfolding adts_cut(2,3) .
qed

text \<open>
  C29 (roundtrip). The AAC reader on a file of ADTS frames, whatever the other fields of their
  headers: it delivers every frame, in order and unchanged, each without the first seven bytes of
  its header. When no frame has a CRC, those are the access units, all and nothing else. A CRC,
  which makes the header nine bytes long, is delivered in front of the access unit as if
  it belonged to it.
\<close>

theorem aac_frames:
  assumes "\<forall>(h, p)\<in>set fs. adts_frame h p" and "length buf = MAX_FRAME_SIZE + 10" and "length fs < k"
  shows "read_frames aac_read_next_frame frame_buf k (new_reader (concat (map (\<lambda>(h, p). h @ p) fs)) buf) =
      Inr (map (\<lambda>(h, p). drop 7 h @ p) fs, True)
    \<and> ((\<forall>(h, p)\<in>set fs. protection_absent h) \<longrightarrow> map (\<lambda>(h, p). drop 7 h @ p) fs = map snd fs)
    \<and> (\<forall>(h, p)\<in>set fs. \<not> protection_absent h \<longrightarrow> length (drop 7 h) = 2)"
proof (intro conjI)
  show "read_frames aac_read_next_frame frame_buf k (new_reader (concat (map (\<lambda>(h, p). h @ p) fs)) buf) =
      Inr (map (\<lambda>(h, p). drop 7 h @ p) fs, True)"
    using read_adts_file [OF assms] by (simp add: unit_read_def [abs_def])
next
  have each: "adts_frame h p" if "(h, p) \<in> set fs" for h p using assms(1) that by blast
  then show "\<forall>(h, p)\<in>set fs. \<not> protection_absent h \<longrightarrow> length (drop 7 h) = 2"
    by (auto simp: adts_frame_def)
  show "(\<forall>(h, p)\<in>set fs. protection_absent h) \<longrightarrow> map (\<lambda>(h, p). drop 7 h @ p) fs = map snd fs"
  proof
    assume plain: "\<forall>(h, p)\<in>set fs. protection_absent h"
    have "drop 7 h @ p = p" if "(h, p) \<in> set fs" for h p
      using each [OF that] bspec [OF plain that] by (simp add: adts_frame_def)
    then show "map (\<lambda>(h, p). drop 7 h @ p) fs = map snd fs" by (auto intro: map_cong)
  qed
qed

text \<open>
  C30 (termination). Whatever bytes the file holds, a producer comes to the end of it: both
  readers return every time, never write past \<open>frame_buf_\<close>, and after at most one frame per byte
  they report the end.
\<close>

theorem readers_stop:
  assumes "length buf = MAX_FRAME_SIZE + 10" and "Suc (length bs) < k"
  shows "(\<exists>fs. read_frames h264_read_next_frame frame_buf k (new_reader bs buf) = Inr (fs, True) \<and> length fs \<le> Suc (length bs))
    \<and> (\<exists>fs. read_frames aac_read_next_frame frame_buf k (new_reader bs buf) = Inr (fs, True) \<and> length fs \<le> Suc (length bs))"
  using h264_reader.reading_stops [of "new_reader bs buf" k] aac_reader.reading_stops [of "new_reader bs buf" k] assms
  by simp

section \<open>Witnesses\<close>

lemma demo_nals: "\<forall>f\<in>set [[0, 0, 0, 1, 0x67, 1], [0, 0, 1, 0x65, 2], [0, 0, 1, 0x41, 3 :: byte]]. wf_nal f"
proof -
  have three: "wf_nal [0, 0, 1, a, b]" if "b \<noteq> 0" for a b
    using that by (simp add: wf_nal_def start_codes_def MAX_FRAME_SIZE_def)
  have "wf_nal [0, 0, 0, 1, 0x67, 1]"
    unfolding wf_nal_def
  proof (intro conjI allI impI notI)
    fix i assume "3 \<le> i" "i + 2 < length [0, 0, 0, 1, 0x67, 1 :: byte]"
      and z: "[0, 0, 0, 1, 0x67, 1 :: byte] ! i = 0 \<and> [0, 0, 0, 1, 0x67, 1 :: byte] ! (i + 1) = 0 \<and>
        [0, 0, 0, 1, 0x67, 1 :: byte] ! (i + 2) = 1"
    then have "i = 3" by simp
    with z show False by simp
  qed (simp_all add: start_codes_def MAX_FRAME_SIZE_def)
  then show ?thesis by (auto intro: three)
qed

theorem h264_frames_witness:
  "read_frames h264_read_next_frame frame_buf 4
     (new_reader (concat [[0, 0, 0, 1, 0x67, 1], [0, 0, 1, 0x65, 2], [0, 0, 1, 0x41, 3]]) (replicate (MAX_FRAME_SIZE + 10) 0))
   = Inr (delivered [[0, 0, 0, 1, 0x67, 1], [0, 0, 1, 0x65, 2], [0, 0, 1, 0x41, 3]], True)
   \<and> delivered [[0, 0, 0, 1, 0x67, 1], [0, 0, 1, 0x65, 2], [0, 0, 1, 0x41, 3]] = [[0, 0, 0, 1, 0x67, 1]]"
proof -
  let ?fs = "[[0, 0, 0, 1, 0x67, 1], [0, 0, 1, 0x65, 2], [0, 0, 1, 0x41, 3 :: byte]]"
  have "length (replicate (MAX_FRAME_SIZE + 10) (0 :: byte)) = MAX_FRAME_SIZE + 10" "length ?fs < 4" by simp_all
  note h264 = h264_frames [OF demo_nals this]
  have "length (concat ?fs) < MAX_FRAME_SIZE" by (simp add: MAX_FRAME_SIZE_def)
  with h264 have "delivered ?fs = (if 2 \<le> length ?fs then [hd ?fs] else [])" by blast
  also have "\<dots> = [hd ?fs]" by simp
  finally show ?thesis using h264 by (simp del: delivered.simps read_frames.simps)
qed

text \<open>A NAL unit of \<open>n + 1\<close> bytes.\<close>

definition filler_unit :: "nat \<Rightarrow> byte list" where
  "filler_unit n = [0, 0, 1] @ replicate (Suc n) 0x41"

lemma length_filler_unit [simp]: "length (filler_unit n) = n + 4"
  by (simp add: filler_unit_def)

lemma filler_unit_no_code: "no_code_inside (filler_unit n)"
proof -
  have "filler_unit n ! i = 0x41" if "3 \<le> i" "i < length (filler_unit n)" for i
    using that by (auto simp: filler_unit_def nth_append nth_Cons' simp del: replicate_Suc)
  then show ?thesis by (auto simp: no_code_inside_def)
qed

lemma filler_unit_wf:
  assumes "n + 8 \<le> MAX_FRAME_SIZE"
  shows "wf_nal (filler_unit n)"
proof -
  have "\<exists>sc\<in>start_codes. \<exists>nal. nal \<noteq> [] \<and> filler_unit n = sc @ nal"
    by (intro bexI [of _ "[0, 0, 1]"] exI [of _ "replicate (Suc n) 0x41"]) (auto simp: filler_unit_def start_codes_def)
  with filler_unit_no_code [of n] assms show ?thesis by (simp add: wf_nal_def no_code_inside_def)
qed

theorem h264_large_unit_witness:
  "\<exists>r'. h264_read_next_frame (new_reader (filler_unit 600000 @ filler_unit 5 @ replicate 500000 7) (replicate (MAX_FRAME_SIZE + 10) 0)) =
      Inr (75716, r')
    \<and> take 75716 (frame_buf r') = drop MAX_FRAME_SIZE (filler_unit 600000)
    \<and> drop (pos (in_file r')) (content (in_file r')) = filler_unit 5 @ replicate 500000 7"
proof -
  have "length (filler_unit 600000) - MAX_FRAME_SIZE = 75716" by (simp add: MAX_FRAME_SIZE_def)
  moreover have "2 * MAX_FRAME_SIZE \<le> length (filler_unit 600000 @ filler_unit 5 @ replicate 500000 7)"
    by (simp add: MAX_FRAME_SIZE_def)
  moreover have "MAX_FRAME_SIZE + 3 \<le> length (filler_unit 600000)" "length (filler_unit 600000) + 4 \<le> 2 * MAX_FRAME_SIZE"
    by (simp_all add: MAX_FRAME_SIZE_def)
  moreover have "wf_nal (filler_unit 5)" by (rule filler_unit_wf) (simp add: MAX_FRAME_SIZE_def)
  ultimately show ?thesis
    using h264_large_unit [OF filler_unit_no_code, of 600000 "filler_unit 5" "replicate (MAX_FRAME_SIZE + 10) 0" "replicate 500000 7"]
    by (simp del: replicate_Suc) blast
qed

theorem aac_frames_witness:
  "read_frames aac_read_next_frame frame_buf 3
     (new_reader ([0xFF, 0xF1, 0x50, 0x80, 1, 0x3F, 0xFC, 7, 8] @ [0xFF, 0xF0, 0x50, 0x80, 1, 0x5F, 0xFC, 0xAA, 0xBB, 9])
       (replicate (MAX_FRAME_SIZE + 10) 0)) = Inr ([[7, 8], [0xAA, 0xBB, 9]], True)"
proof -
  let ?fs = "[([0xFF, 0xF1, 0x50, 0x80, 1, 0x3F, 0xFC], [7, 8]), ([0xFF, 0xF0, 0x50, 0x80, 1, 0x5F, 0xFC, 0xAA, 0xBB], [9 :: byte])]"
  have "\<forall>(h, p)\<in>set ?fs. adts_frame h p" by (simp add: adts_frame_def protection_absent_def)
  from aac_frames [OF this, of "replicate (MAX_FRAME_SIZE + 10) 0" 3] show ?thesis
    by (simp del: read_frames.simps replicate_Suc)
qed

theorem readers_stop_witness:
  "\<exists>fs. read_frames h264_read_next_frame frame_buf 6 (new_reader [1, 2, 3] (replicate (MAX_FRAME_SIZE + 10) 0)) = Inr (fs, True)"
  using readers_stop [of "replicate (MAX_FRAME_SIZE + 10) 0" "[1, 2, 3]" 6] by (auto simp del: read_frames.simps)

end
