(* ===== verification/MediaTrack.thy ===== *)
theory MediaTrack
  imports MediaFile CircularQueue CppText
begin

text \<open>
  The tracks of MediaSourceHandler.h/.cpp: a file reader, a queue of frames, and a producer
  thread that moves frames from the one to the other. \<open>H264MediaTrack\<close> and \<open>AACMediaTrack\<close> have
  the same members, so they share a record; \<open>kind\<close> is the dynamic type. Each method of either
  class is a definition of its own, and the locale \<open>media_track_class\<close> is the contract of the
  virtual interface \<open>MediaTrack\<close> that both fulfil.

  The producer thread is a state of its own, one step per statement of \<open>run_producer\<close>; the
  methods that the connection threads call are atomic between its steps. \<open>join\<close> lets the
  producer run on until it has returned. The content of the file system is the parameter
  \<open>files\<close>. \<open>open\<close> is called on a track whose file is not open (\<open>add_media_track\<close> calls it right
  after the constructor), and its failure leaves the stream closed.
\<close>

section \<open>The producer thread\<close>

datatype producer =
    Looping            \<comment> \<open>at \<open>while (is_active_)\<close>\<close>
  | Producing frame    \<comment> \<open>in \<open>frame_queue_->produce(frame)\<close>\<close>
  | Exiting            \<comment> \<open>after the loop, at \<open>frame_queue_->set_exit()\<close>\<close>
  | Finished           \<comment> \<open>returned, but not joined\<close>

record media_track =
  kind :: media_type
  track_name :: string
  url :: string
  track_reader :: reader
  frame_queue :: "frame option circular_queue"
  is_active :: bool
  produce_thread :: "producer option"

definition closed_file :: ifstream where
  "closed_file = \<lparr>content = [], pos = 0, eof = False, is_open = False\<rparr>"

text \<open>
  \<open>produce_thread_.reset(new std::thread(...))\<close>: the destructor of a \<open>std::thread\<close> that has not
  been joined calls \<open>std::terminate\<close>.
\<close>

definition reset_thread :: "producer option \<Rightarrow> media_track \<Rightarrow> media_track \<times> unit outcome" where
  "reset_thread p t =
     (if produce_thread t \<noteq> None then (t, Fail Terminate) else (t\<lparr>produce_thread := p\<rparr>, Done ()))"

text \<open>
  \<open>join\<close> when \<open>is_active_\<close> is false: the thread has at most one \<open>produce\<close>, one test of the loop
  condition and one \<open>set_exit\<close> before it, so three steps bring it to its end, unless it waits.
\<close>

fun run_producer :: "(media_track \<Rightarrow> media_track outcome) \<Rightarrow> nat \<Rightarrow> media_track \<Rightarrow> media_track outcome" where
  "run_producer producer_step k t =
     (if produce_thread t = Some Finished then Done t
      else case k of
          0 \<Rightarrow> Wait
        | Suc j \<Rightarrow> (case producer_step t of Done t' \<Rightarrow> run_producer producer_step j t' | r \<Rightarrow> r))"

declare run_producer.simps [simp del]

definition join_thread :: "(media_track \<Rightarrow> media_track outcome) \<Rightarrow> media_track \<Rightarrow> media_track outcome" where
  "join_thread producer_step t =
     (if produce_thread t = None then Done t
      else case run_producer producer_step 3 t of
          Done t' \<Rightarrow> Done (t'\<lparr>produce_thread := None\<rparr>)
        | r \<Rightarrow> r)"

section \<open>H264MediaTrack\<close>

definition h264_media_track :: "byte list \<Rightarrow> string \<Rightarrow> string \<Rightarrow> media_track" where
  "h264_media_track buf0 name path =
     \<lparr>kind = H264, track_name = name, url = path,
      track_reader = \<lparr>in_file = closed_file, frame_buf = buf0\<rparr>,
      frame_queue = circular_queue None 25, is_active = False, produce_thread = None\<rparr>"

definition h264_media_type :: media_type where "h264_media_type = H264"

definition h264_codec_name :: string where "h264_codec_name = ''H264''"

definition h264_payload_type :: byte where "h264_payload_type = 96"

definition h264_timestamp_increment :: "32 word" where "h264_timestamp_increment = 3600"

definition h264_frame_buf :: "media_track \<Rightarrow> byte list" where "h264_frame_buf t = frame_buf (track_reader t)"

definition h264_media_sdp :: "media_track \<Rightarrow> string" where
  "h264_media_sdp t =
     ''m=video 0 RTP/AVP 96'' @ crlf @ ''a=rtpmap:96 H264/90000'' @ crlf @
     ''a=control:'' @ track_name t @ crlf"

definition h264_media_fps :: int where "h264_media_fps = 25"

definition h264_open :: "(string \<Rightarrow> byte list option) \<Rightarrow> media_track \<Rightarrow> media_track \<times> unit outcome" where
  "h264_open files t =
     (case files (url t) of
        Some bs \<Rightarrow> (t\<lparr>track_reader := (track_reader t)\<lparr>in_file := open_file bs\<rparr>\<rparr>, Done ())
      | None \<Rightarrow> (t, Fail (Runtime_Error (''Failed to open H.264 file: '' @ url t))))"

definition h264_close :: "media_track \<Rightarrow> media_track" where
  "h264_close t =
     (if is_open (in_file (track_reader t)) then t\<lparr>track_reader := (track_reader t)\<lparr>in_file := closed_file\<rparr>\<rparr> else t)"

definition h264_producer_step :: "media_track \<Rightarrow> media_track outcome" where
  "h264_producer_step t =
     (case produce_thread t of
        Some Looping \<Rightarrow>
          (if \<not> is_active t then Done (t\<lparr>produce_thread := Some Exiting\<rparr>)
           else case h264_read_next_frame (track_reader t) of
               Inl e \<Rightarrow> Fail e
             | Inr (frame_size, r) \<Rightarrow>
                 (if frame_size \<le> 0 then Done (t\<lparr>track_reader := r, produce_thread := Some Exiting\<rparr>)
                  else case frame_data (frame_buf r) (nat frame_size) of
                      Inl e \<Rightarrow> Fail e
                    | Inr f \<Rightarrow> Done (t\<lparr>track_reader := r, produce_thread := Some (Producing f)\<rparr>)))
      | Some (Producing f) \<Rightarrow>
          (case produce (Some f) (frame_queue t) of
             (q, Done _) \<Rightarrow> Done (t\<lparr>frame_queue := q, produce_thread := Some Looping\<rparr>)
           | (q, Wait) \<Rightarrow> Wait
           | (q, Fail e) \<Rightarrow> Fail e)
      | Some Exiting \<Rightarrow> Done (t\<lparr>frame_queue := set_exit (frame_queue t), produce_thread := Some Finished\<rparr>)
      | _ \<Rightarrow> Wait)"

definition h264_register_session :: "string \<Rightarrow> media_track \<Rightarrow> media_track" where
  "h264_register_session session_id t = t\<lparr>frame_queue := register_consumer session_id (frame_queue t)\<rparr>"

definition h264_get_next_frame :: "string \<Rightarrow> media_track \<Rightarrow> media_track \<times> frame option outcome" where
  "h264_get_next_frame session_id t =
     (let (q, r) = consume None session_id (frame_queue t) in (t\<lparr>frame_queue := q\<rparr>, r))"

definition h264_start :: "(string \<Rightarrow> byte list option) \<Rightarrow> media_track \<Rightarrow> media_track \<times> unit outcome" where
  "h264_start files t =
     (if is_active t then (t, Done ())
      else
        let t1 = t\<lparr>is_active := True\<rparr>;
            t2 = (if is_exit (frame_queue t1) then t1\<lparr>frame_queue := set_run (frame_queue t1)\<rparr> else t1);
            (t3, r) = (if \<not> is_open (in_file (track_reader t2)) then h264_open files t2 else (t2, Done ())) in
        case r of
          Done _ \<Rightarrow> reset_thread (Some Looping) t3
        | _ \<Rightarrow> (t3, r))"

definition h264_stop :: "media_track \<Rightarrow> media_track outcome" where
  "h264_stop t =
     (let t1 = t\<lparr>is_active := False, frame_queue := set_exit (frame_queue t)\<rparr> in
      case join_thread h264_producer_step t1 of
        Done t2 \<Rightarrow> Done (t2\<lparr>frame_queue := set_exit (frame_queue t2)\<rparr>)
      | r \<Rightarrow> r)"

definition h264_unregister_session :: "string \<Rightarrow> media_track \<Rightarrow> media_track outcome" where
  "h264_unregister_session session_id t =
     (let t1 = t\<lparr>frame_queue := unregister_consumer session_id (frame_queue t)\<rparr> in
      if no_consumer (frame_queue t1) then
        (case h264_stop t1 of
           Done t2 \<Rightarrow> Done (h264_close t2)
         | r \<Rightarrow> r)
      else Done t1)"

definition h264_destroy :: "media_track \<Rightarrow> media_track outcome" where
  "h264_destroy t =
     (case join_thread h264_producer_step (t\<lparr>is_active := False\<rparr>) of
        Done t1 \<Rightarrow> Done (h264_close t1)
      | r \<Rightarrow> r)"

section \<open>AACMediaTrack\<close>

definition aac_media_track :: "byte list \<Rightarrow> string \<Rightarrow> string \<Rightarrow> media_track" where
  "aac_media_track buf0 name path =
     \<lparr>kind = AAC, track_name = name, url = path,
      track_reader = \<lparr>in_file = closed_file, frame_buf = buf0\<rparr>,
      frame_queue = circular_queue None 43, is_active = False, produce_thread = None\<rparr>"

definition aac_media_type :: media_type where "aac_media_type = AAC"

definition aac_codec_name :: string where "aac_codec_name = ''AAC''"

definition aac_payload_type :: byte where "aac_payload_type = 97"

definition aac_timestamp_increment :: "32 word" where "aac_timestamp_increment = 1025"

definition aac_frame_buf :: "media_track \<Rightarrow> byte list" where "aac_frame_buf t = frame_buf (track_reader t)"

definition aac_media_sdp :: "media_track \<Rightarrow> string" where
  "aac_media_sdp t =
     ''m=audio 0 RTP/AVP 97'' @ crlf @ ''a=rtpmap:97 mpeg4-generic/44100/2'' @ crlf @
     ''a=fmtp:97 profile-level-id=1;mode=AAC-hbr;sizelength=13;indexlength=3;indexdeltalength=3;config=1210;'' @ crlf @
     ''a=control:'' @ track_name t @ crlf"

definition aac_media_fps :: int where "aac_media_fps = 43"

definition aac_open :: "(string \<Rightarrow> byte list option) \<Rightarrow> media_track \<Rightarrow> media_track \<times> unit outcome" where
  "aac_open files t =
     (case files (url t) of
        Some bs \<Rightarrow> (t\<lparr>track_reader := (track_reader t)\<lparr>in_file := open_file bs\<rparr>\<rparr>, Done ())
      | None \<Rightarrow> (t, Fail (Runtime_Error (''Failed to open AAC file: '' @ url t))))"

definition aac_close :: "media_track \<Rightarrow> media_track" where
  "aac_close t =
     (if is_open (in_file (track_reader t)) then t\<lparr>track_reader := (track_reader t)\<lparr>in_file := closed_file\<rparr>\<rparr> else t)"

definition aac_producer_step :: "media_track \<Rightarrow> media_track outcome" where
  "aac_producer_step t =
     (case produce_thread t of
        Some Looping \<Rightarrow>
          (if \<not> is_active t then Done (t\<lparr>produce_thread := Some Exiting\<rparr>)
           else case aac_read_next_frame (track_reader t) of
               Inl e \<Rightarrow> Fail e
             | Inr (frame_size, r) \<Rightarrow>
                 (if frame_size \<le> 0 then Done (t\<lparr>track_reader := r, produce_thread := Some Exiting\<rparr>)
                  else case frame_data (frame_buf r) (nat frame_size) of
                      Inl e \<Rightarrow> Fail e
                    | Inr f \<Rightarrow> Done (t\<lparr>track_reader := r, produce_thread := Some (Producing f)\<rparr>)))
      | Some (Producing f) \<Rightarrow>
          (case produce (Some f) (frame_queue t) of
             (q, Done _) \<Rightarrow> Done (t\<lparr>frame_queue := q, produce_thread := Some Looping\<rparr>)
           | (q, Wait) \<Rightarrow> Wait
           | (q, Fail e) \<Rightarrow> Fail e)
      | Some Exiting \<Rightarrow> Done (t\<lparr>frame_queue := set_exit (frame_queue t), produce_thread := Some Finished\<rparr>)
      | _ \<Rightarrow> Wait)"

definition aac_register_session :: "string \<Rightarrow> media_track \<Rightarrow> media_track" where
  "aac_register_session session_id t = t\<lparr>frame_queue := register_consumer session_id (frame_queue t)\<rparr>"

definition aac_get_next_frame :: "string \<Rightarrow> media_track \<Rightarrow> media_track \<times> frame option outcome" where
  "aac_get_next_frame session_id t =
     (let (q, r) = consume None session_id (frame_queue t) in (t\<lparr>frame_queue := q\<rparr>, r))"

definition aac_start :: "(string \<Rightarrow> byte list option) \<Rightarrow> media_track \<Rightarrow> media_track \<times> unit outcome" where
  "aac_start files t =
     (if is_active t then (t, Done ())
      else
        let t1 = t\<lparr>is_active := True\<rparr>;
            t2 = (if is_exit (frame_queue t1) then t1\<lparr>frame_queue := set_run (frame_queue t1)\<rparr> else t1);
            (t3, r) = (if \<not> is_open (in_file (track_reader t2)) then aac_open files t2 else (t2, Done ())) in
        case r of
          Done _ \<Rightarrow> reset_thread (Some Looping) t3
        | _ \<Rightarrow> (t3, r))"

definition aac_stop :: "media_track \<Rightarrow> media_track outcome" where
  "aac_stop t =
     (let t1 = t\<lparr>is_active := False, frame_queue := set_exit (frame_queue t)\<rparr> in
      case join_thread aac_producer_step t1 of
        Done t2 \<Rightarrow> Done (t2\<lparr>frame_queue := set_exit (frame_queue t2)\<rparr>)
      | r \<Rightarrow> r)"

definition aac_unregister_session :: "string \<Rightarrow> media_track \<Rightarrow> media_track outcome" where
  "aac_unregister_session session_id t =
     (let t1 = t\<lparr>frame_queue := unregister_consumer session_id (frame_queue t)\<rparr> in
      if no_consumer (frame_queue t1) then
        (case aac_stop t1 of
           Done t2 \<Rightarrow> Done (aac_close t2)
         | r \<Rightarrow> r)
      else Done t1)"

definition aac_destroy :: "media_track \<Rightarrow> media_track outcome" where
  "aac_destroy t =
     (case join_thread aac_producer_step (t\<lparr>is_active := False\<rparr>) of
        Done t1 \<Rightarrow> Done (aac_close t1)
      | r \<Rightarrow> r)"

section \<open>The virtual interface MediaTrack\<close>

definition track_start :: "(string \<Rightarrow> byte list option) \<Rightarrow> media_track \<Rightarrow> media_track \<times> unit outcome" where
  "track_start files t = (case kind t of H264 \<Rightarrow> h264_start files t | AAC \<Rightarrow> aac_start files t)"

definition track_stop :: "media_track \<Rightarrow> media_track outcome" where
  "track_stop t = (case kind t of H264 \<Rightarrow> h264_stop t | AAC \<Rightarrow> aac_stop t)"

definition track_producer_step :: "media_track \<Rightarrow> media_track outcome" where
  "track_producer_step t = (case kind t of H264 \<Rightarrow> h264_producer_step t | AAC \<Rightarrow> aac_producer_step t)"

definition track_register_session :: "string \<Rightarrow> media_track \<Rightarrow> media_track" where
  "track_register_session sid t =
     (case kind t of H264 \<Rightarrow> h264_register_session sid t | AAC \<Rightarrow> aac_register_session sid t)"

definition track_unregister_session :: "string \<Rightarrow> media_track \<Rightarrow> media_track outcome" where
  "track_unregister_session sid t =
     (case kind t of H264 \<Rightarrow> h264_unregister_session sid t | AAC \<Rightarrow> aac_unregister_session sid t)"

definition track_get_next_frame :: "string \<Rightarrow> media_track \<Rightarrow> media_track \<times> frame option outcome" where
  "track_get_next_frame sid t =
     (case kind t of H264 \<Rightarrow> h264_get_next_frame sid t | AAC \<Rightarrow> aac_get_next_frame sid t)"

definition track_media_type :: "media_track \<Rightarrow> media_type" where
  "track_media_type t = (case kind t of H264 \<Rightarrow> h264_media_type | AAC \<Rightarrow> aac_media_type)"

lemma track_media_type_kind [simp]: "track_media_type t = kind t"
  by (simp add: track_media_type_def h264_media_type_def aac_media_type_def split: media_type.split)

definition track_media_sdp :: "media_track \<Rightarrow> string" where
  "track_media_sdp t = (case kind t of H264 \<Rightarrow> h264_media_sdp t | AAC \<Rightarrow> aac_media_sdp t)"

definition track_timestamp_increment :: "media_track \<Rightarrow> 32 word" where
  "track_timestamp_increment t =
     (case kind t of H264 \<Rightarrow> h264_timestamp_increment | AAC \<Rightarrow> aac_timestamp_increment)"

definition track_open :: "(string \<Rightarrow> byte list option) \<Rightarrow> media_track \<Rightarrow> media_track \<times> unit outcome" where
  "track_open files t = (case kind t of H264 \<Rightarrow> h264_open files t | AAC \<Rightarrow> aac_open files t)"

definition next_frame_of :: "media_type \<Rightarrow> reader \<Rightarrow> (int \<times> reader) result" where
  "next_frame_of mt = (case mt of H264 \<Rightarrow> h264_read_next_frame | AAC \<Rightarrow> aac_read_next_frame)"

section \<open>The contract of a track\<close>

text \<open>
  What holds between calls: the queue and the reader are well formed, there is no thread object
  while the track is inactive, and a producer that has returned has told the queue to exit.
\<close>

definition track_ok :: "media_track \<Rightarrow> bool" where
  "track_ok t \<longleftrightarrow>
     cq_wf (frame_queue t) \<and> reader_ok (track_reader t) \<and>
     (\<not> is_active t \<longrightarrow> produce_thread t = None) \<and>
     (produce_thread t = Some Finished \<longrightarrow> exit_flag (frame_queue t))"

text \<open>The state after \<open>start\<close> has opened the file, if it was closed.\<close>

definition started :: "byte list option \<Rightarrow> media_track \<Rightarrow> media_track" where
  "started bs t = t\<lparr>is_active := True, frame_queue := (frame_queue t)\<lparr>exit_flag := False\<rparr>,
     track_reader := (case bs of None \<Rightarrow> track_reader t | Some bs \<Rightarrow> (track_reader t)\<lparr>in_file := open_file bs\<rparr>)\<rparr>"

locale media_track_class =
  fixes mt :: media_type
    and start :: "(string \<Rightarrow> byte list option) \<Rightarrow> media_track \<Rightarrow> media_track \<times> unit outcome"
    and stop :: "media_track \<Rightarrow> media_track outcome"
    and producer_step :: "media_track \<Rightarrow> media_track outcome"
    and unregister :: "string \<Rightarrow> media_track \<Rightarrow> media_track outcome"
    and no_file :: "string \<Rightarrow> string"
  assumes start_active: "is_active t \<Longrightarrow> start files t = (t, Done ())"
    and start_open: "\<not> is_active t \<Longrightarrow> produce_thread t = None \<Longrightarrow> is_open (in_file (track_reader t)) \<Longrightarrow>
      start files t = ((started None t)\<lparr>produce_thread := Some Looping\<rparr>, Done ())"
    and start_closed: "\<not> is_active t \<Longrightarrow> produce_thread t = None \<Longrightarrow> \<not> is_open (in_file (track_reader t)) \<Longrightarrow>
      files (url t) = Some bs \<Longrightarrow> start files t = ((started (Some bs) t)\<lparr>produce_thread := Some Looping\<rparr>, Done ())"
    and start_missing: "\<not> is_active t \<Longrightarrow> \<not> is_open (in_file (track_reader t)) \<Longrightarrow> files (url t) = None \<Longrightarrow>
      start files t = (started None t, Fail (Runtime_Error (no_file (url t))))"
    and stop_joins: "stop t =
      (let t1 = t\<lparr>is_active := False, frame_queue := set_exit (frame_queue t)\<rparr> in
       case join_thread producer_step t1 of
         Done t2 \<Rightarrow> Done (t2\<lparr>frame_queue := set_exit (frame_queue t2)\<rparr>) | r \<Rightarrow> r)"
    and step_inactive: "produce_thread t = Some Looping \<Longrightarrow> \<not> is_active t \<Longrightarrow>
      producer_step t = Done (t\<lparr>produce_thread := Some Exiting\<rparr>)"
    and step_read: "produce_thread t = Some Looping \<Longrightarrow> is_active t \<Longrightarrow>
      next_frame_of mt (track_reader t) = Inr (n, r) \<Longrightarrow> n \<le> int (length (frame_buf r)) \<Longrightarrow>
      producer_step t = Done (if n \<le> 0 then t\<lparr>track_reader := r, produce_thread := Some Exiting\<rparr>
        else t\<lparr>track_reader := r, produce_thread := Some (Producing (take (nat n) (frame_buf r)))\<rparr>)"
    and step_produce: "produce_thread t = Some (Producing f) \<Longrightarrow>
      producer_step t = (case produce (Some f) (frame_queue t) of
        (q, Done _) \<Rightarrow> Done (t\<lparr>frame_queue := q, produce_thread := Some Looping\<rparr>)
      | (q, Wait) \<Rightarrow> Wait | (q, Fail e) \<Rightarrow> Fail e)"
    and step_exit: "produce_thread t = Some Exiting \<Longrightarrow>
      producer_step t = Done (t\<lparr>frame_queue := set_exit (frame_queue t), produce_thread := Some Finished\<rparr>)"
    and step_returned: "produce_thread t = None \<or> produce_thread t = Some Finished \<Longrightarrow> producer_step t = Wait"
    and unregister_last: "unregister sid t =
      (let t1 = t\<lparr>frame_queue := unregister_consumer sid (frame_queue t)\<rparr> in
       if no_consumer (frame_queue t1) then
         (case stop t1 of
            Done t2 \<Rightarrow> Done (if is_open (in_file (track_reader t2))
                             then t2\<lparr>track_reader := (track_reader t2)\<lparr>in_file := closed_file\<rparr>\<rparr> else t2)
          | r \<Rightarrow> r)
       else Done t1)"
begin

lemma produce_never_fails: "cq_wf q \<Longrightarrow> snd (produce x q) \<noteq> Fail e"
  by (auto simp: produce_def cq_wf_def Let_def)

lemma produce_when_exiting:
  assumes "cq_wf q" and "exit_flag q"
  shows "\<exists>q'. produce x q = (q', Done ()) \<and> cq_wf q' \<and> exit_flag q' \<and> consumer_positions q' = consumer_positions q"
  using assms cq_wf_produce [OF assms(1), of x] by (auto simp: produce_def cq_wf_def Let_def)

lemma run_producer_finished [simp]:
  "produce_thread t = Some Finished \<Longrightarrow> run_producer producer_step k t = Done t"
  by (subst run_producer.simps) simp

lemma run_producer_step:
  "produce_thread t \<noteq> Some Finished \<Longrightarrow> producer_step t = Done t' \<Longrightarrow>
   run_producer producer_step (Suc k) t = run_producer producer_step k t'"
  by (subst run_producer.simps) simp

text \<open>Joining an inactive producer whose queue has been told to exit returns.\<close>

lemma join_returns:
  assumes "cq_wf (frame_queue t)" and "exit_flag (frame_queue t)" and "\<not> is_active t"
  shows "\<exists>q. join_thread producer_step t = Done (t\<lparr>frame_queue := q, produce_thread := None\<rparr>)
    \<and> cq_wf q \<and> exit_flag q \<and> consumer_positions q = consumer_positions (frame_queue t)"
proof -
  have exiting: "run_producer producer_step (Suc k) (t'\<lparr>produce_thread := Some Exiting\<rparr>) =
      Done (t'\<lparr>frame_queue := set_exit (frame_queue t'), produce_thread := Some Finished\<rparr>)" for k t'
    by (subst run_producer_step [OF _ step_exit]) simp_all
  have looping: "run_producer producer_step (Suc (Suc k)) (t'\<lparr>produce_thread := Some Looping\<rparr>) =
      Done (t'\<lparr>frame_queue := set_exit (frame_queue t'), produce_thread := Some Finished\<rparr>)" if "\<not> is_active t'" for k t'
    using that exiting [of k t'] by (subst run_producer_step [OF _ step_inactive]) simp_all
  show ?thesis
  proof (cases "produce_thread t")
    case None
    then show ?thesis using assms by (intro exI [of _ "frame_queue t"]) (simp add: join_thread_def)
  next
    case (Some p)
    show ?thesis
    proof (cases p)
      case Looping
      then have "t = t\<lparr>produce_thread := Some Looping\<rparr>" using Some by simp
      then show ?thesis using looping [of t 1] assms Some cq_wf_set_exit [of "frame_queue t"]
        by (intro exI [of _ "set_exit (frame_queue t)"]) (simp add: join_thread_def numeral_3_eq_3 set_exit_def)
    next
      case (Producing f)
      obtain q where q: "produce (Some f) (frame_queue t) = (q, Done ())" "cq_wf q" "exit_flag q"
        "consumer_positions q = consumer_positions (frame_queue t)"
        using produce_when_exiting [OF assms(1,2)] by blast
      have "run_producer producer_step 3 t = run_producer producer_step 2 (t\<lparr>frame_queue := q, produce_thread := Some Looping\<rparr>)"
        unfolding numeral_3_eq_3 numeral_2_eq_2 using Some Producing q(1) step_produce [of t f] by (intro run_producer_step) simp_all
      then show ?thesis using looping [of "t\<lparr>frame_queue := q\<rparr>" 0] assms Some q cq_wf_set_exit [of q]
        by (intro exI [of _ "set_exit q"]) (simp add: join_thread_def numeral_2_eq_2 set_exit_def)
    next
      case Exiting
      then have "t = t\<lparr>produce_thread := Some Exiting\<rparr>" using Some by simp
      then show ?thesis using exiting [of 2 t] assms Some cq_wf_set_exit [of "frame_queue t"]
        by (intro exI [of _ "set_exit (frame_queue t)"]) (simp add: join_thread_def numeral_3_eq_3 numeral_2_eq_2 set_exit_def)
    next
      case Finished
      then show ?thesis using assms Some by (intro exI [of _ "frame_queue t"]) (simp add: join_thread_def)
    qed
  qed
qed

lemma stop_returns:
  assumes "cq_wf (frame_queue t)"
  shows "\<exists>q. stop t = Done (t\<lparr>is_active := False, frame_queue := q, produce_thread := None\<rparr>)
    \<and> cq_wf q \<and> exit_flag q \<and> consumer_positions q = consumer_positions (frame_queue t)"
proof -
  let ?t1 = "t\<lparr>is_active := False, frame_queue := set_exit (frame_queue t)\<rparr>"
  from join_returns [of ?t1] obtain q where q: "join_thread producer_step ?t1 = Done (?t1\<lparr>frame_queue := q, produce_thread := None\<rparr>)"
    "cq_wf q" "exit_flag q" "consumer_positions q = consumer_positions (frame_queue t)"
    using assms cq_wf_set_exit by (auto simp: set_exit_def)
  moreover have "set_exit q = q" using q(3) by (simp add: set_exit_def)
  ultimately show ?thesis by (intro exI [of _ q]) (simp add: stop_joins Let_def)
qed

lemma unregister_returns:
  assumes "track_ok t"
  shows "\<exists>t'. unregister sid t = Done t' \<and> track_ok t' \<and> kind t' = kind t \<and> track_name t' = track_name t \<and> url t' = url t
    \<and> consumer_positions (frame_queue t') = map_erase sid (consumer_positions (frame_queue t))
    \<and> (if map_erase sid (consumer_positions (frame_queue t)) = []
       then \<not> is_active t' \<and> produce_thread t' = None \<and> \<not> is_open (in_file (track_reader t'))
       else t' = t\<lparr>frame_queue := unregister_consumer sid (frame_queue t)\<rparr>)"
proof -
  let ?t1 = "t\<lparr>frame_queue := unregister_consumer sid (frame_queue t)\<rparr>"
  have wf: "cq_wf (frame_queue ?t1)" using assms by (auto simp: track_ok_def intro: cq_wf_unregister)
  show ?thesis
  proof (cases "no_consumer (frame_queue ?t1)")
    case True
    from stop_returns [OF wf] obtain q where
      "stop ?t1 = Done (?t1\<lparr>is_active := False, frame_queue := q, produce_thread := None\<rparr>)"
      "cq_wf q" "exit_flag q" "consumer_positions q = consumer_positions (frame_queue ?t1)" by blast
    with True assms show ?thesis
      by (auto simp: unregister_last Let_def track_ok_def no_consumer_def unregister_consumer_def
          closed_file_def reader_ok_def)
  next
    case False
    with assms wf show ?thesis
      by (auto simp: unregister_last Let_def track_ok_def no_consumer_def unregister_consumer_def)
  qed
qed

lemma start_returns:
  assumes "track_ok t"
  shows "\<exists>t' r. start files t = (t', r) \<and> track_ok t' \<and> is_active t' \<and> kind t' = kind t
    \<and> consumer_positions (frame_queue t') = consumer_positions (frame_queue t)
    \<and> (r = Done () \<or> r = Fail (Runtime_Error (no_file (url t))) \<and> produce_thread t' = None)"
proof (cases "is_active t")
  case True
  then show ?thesis using assms start_active by auto
next
  case False
  then have none: "produce_thread t = None" using assms by (simp add: track_ok_def)
  have ok: "track_ok (started bs t)" "track_ok ((started bs t)\<lparr>produce_thread := Some Looping\<rparr>)" for bs
    using assms none by (cases bs; auto simp: track_ok_def started_def cq_wf_def reader_ok_def)+
  show ?thesis
  proof (cases "is_open (in_file (track_reader t)) \<or> files (url t) \<noteq> None")
    case True
    then obtain bs where "start files t = ((started bs t)\<lparr>produce_thread := Some Looping\<rparr>, Done ())"
      using start_open [OF False none] start_closed [OF False none] by (cases "is_open (in_file (track_reader t))") auto
    then show ?thesis using ok(2) [of bs] by (simp add: started_def)
  next
    case no: False
    then show ?thesis using start_missing [OF False, of files] ok(1) [of None] none by (auto simp: started_def)
  qed
qed

lemma step_returns:
  assumes "track_ok t" and "kind t = mt"
  shows "producer_step t = Wait \<or>
    (\<exists>t'. producer_step t = Done t' \<and> track_ok t' \<and> kind t' = kind t
       \<and> consumer_positions (frame_queue t') = consumer_positions (frame_queue t))"
proof (cases "produce_thread t")
  case (Some p)
  have wf: "cq_wf (frame_queue t)" using assms by (simp add: track_ok_def)
  show ?thesis
  proof (cases p)
    case Looping
    have "\<exists>n r. next_frame_of mt (track_reader t) = Inr (n, r) \<and> reader_ok r \<and> n \<le> int (length (frame_buf r))"
      using assms h264_returns [of "track_reader t"] aac_returns [of "track_reader t"]
      by (auto simp: next_frame_of_def track_ok_def split: media_type.split)
    then obtain n r where r: "next_frame_of mt (track_reader t) = Inr (n, r)" "reader_ok r" "n \<le> int (length (frame_buf r))"
      by blast
    have "is_active t" using assms Some by (auto simp: track_ok_def)
    from step_read [OF _ this r(1,3)] Some Looping have
      "producer_step t = Done (if n \<le> 0 then t\<lparr>track_reader := r, produce_thread := Some Exiting\<rparr>
        else t\<lparr>track_reader := r, produce_thread := Some (Producing (take (nat n) (frame_buf r)))\<rparr>)" by simp
    with assms r(2) \<open>is_active t\<close> show ?thesis by (auto simp: track_ok_def)
  next
    case (Producing f)
    have "consumer_positions (fst (produce (Some f) (frame_queue t))) = consumer_positions (frame_queue t)"
      by (simp add: produce_def Let_def)
    moreover have "exit_flag (fst (produce (Some f) (frame_queue t))) = exit_flag (frame_queue t)"
      by (simp add: produce_def Let_def)
    ultimately show ?thesis
      using assms Some Producing wf produce_never_fails [OF wf, of "Some f"] cq_wf_produce [OF wf, of "Some f"]
      by (cases "produce (Some f) (frame_queue t)"; cases "snd (produce (Some f) (frame_queue t))")
        (auto simp: step_produce track_ok_def)
  next
    case Exiting
    have "cq_wf (set_exit (frame_queue t))" by (rule cq_wf_set_exit [OF wf])
    with Some Exiting assms show ?thesis by (auto simp: step_exit track_ok_def set_exit_def)
  next
    case Finished
    with Some show ?thesis by (simp add: step_returned)
  qed
qed (simp add: step_returned)

end

lemmas h264_defs = h264_start_def h264_stop_def h264_producer_step_def h264_unregister_session_def h264_open_def h264_close_def
lemmas aac_defs = aac_start_def aac_stop_def aac_producer_step_def aac_unregister_session_def aac_open_def aac_close_def

interpretation h264_track: media_track_class H264 h264_start h264_stop h264_producer_step h264_unregister_session
    "\<lambda>path. ''Failed to open H.264 file: '' @ path"
  by unfold_locales (auto simp: h264_defs started_def reset_thread_def next_frame_of_def frame_data_def
      is_exit_def set_run_def Let_def nat_le_iff split: outcome.splits)

interpretation aac_track: media_track_class AAC aac_start aac_stop aac_producer_step aac_unregister_session
    "\<lambda>path. ''Failed to open AAC file: '' @ path"
  by unfold_locales (auto simp: aac_defs started_def reset_thread_def next_frame_of_def frame_data_def
      is_exit_def set_run_def Let_def nat_le_iff split: outcome.splits)

section \<open>Calls on a track\<close>

datatype track_call = Start | Register string | Unregister string | Get string | Producer_Step

text \<open>
  One call of a connection thread, or one step of the producer (none while it waits). An
  exception of \<open>start\<close> reaches the caller and leaves the track as it is then. A call that waits
  in \<open>get_next_frame\<close> is repeated later. The frame is what \<open>get_next_frame\<close> returned.
\<close>

definition track_exec :: "(string \<Rightarrow> byte list option) \<Rightarrow> track_call \<Rightarrow> media_track \<Rightarrow> (frame option \<times> media_track) outcome" where
  "track_exec files c t =
     (case c of
        Start \<Rightarrow>
          (case track_start files t of
             (t', Fail (Runtime_Error _)) \<Rightarrow> Done (None, t')
           | (t', Fail e) \<Rightarrow> Fail e
           | (t', _) \<Rightarrow> Done (None, t'))
      | Register sid \<Rightarrow> Done (None, track_register_session sid t)
      | Unregister sid \<Rightarrow>
          (case track_unregister_session sid t of
             Done t' \<Rightarrow> Done (None, t') | Wait \<Rightarrow> Wait | Fail e \<Rightarrow> Fail e)
      | Get sid \<Rightarrow>
          (case track_get_next_frame sid t of
             (t', Done f) \<Rightarrow> Done (f, t') | (t', Wait) \<Rightarrow> Done (None, t') | (t', Fail e) \<Rightarrow> Fail e)
      | Producer_Step \<Rightarrow>
          (case track_producer_step t of Done t' \<Rightarrow> Done (None, t') | Wait \<Rightarrow> Done (None, t) | Fail e \<Rightarrow> Fail e))"

text \<open>A sequence of calls, with the frames that session \<open>sid\<close> gets.\<close>

fun track_run :: "(string \<Rightarrow> byte list option) \<Rightarrow> string \<Rightarrow> track_call list \<Rightarrow> media_track \<Rightarrow> (frame list \<times> media_track) outcome" where
  "track_run files sid [] t = Done ([], t)"
| "track_run files sid (c # cs) t =
     (case track_exec files c t of
        Done (f, t1) \<Rightarrow>
          (case track_run files sid cs t1 of
             Done (fs, t2) \<Rightarrow> Done ((if c = Get sid then (case f of Some f \<Rightarrow> [f] | None \<Rightarrow> []) else []) @ fs, t2)
           | r \<Rightarrow> r)
      | Wait \<Rightarrow> Wait
      | Fail e \<Rightarrow> Fail e)"

lemmas track_dispatch = track_start_def track_unregister_session_def track_producer_step_def
  track_register_session_def track_get_next_frame_def h264_register_session_def aac_register_session_def
  h264_get_next_frame_def aac_get_next_frame_def track_stop_def

lemma track_register_simp:
  "track_register_session sid t = t\<lparr>frame_queue := register_consumer sid (frame_queue t)\<rparr>"
  by (simp add: track_dispatch split: media_type.split)

lemma track_get_simp:
  "track_get_next_frame sid t = (t\<lparr>frame_queue := fst (consume None sid (frame_queue t))\<rparr>, snd (consume None sid (frame_queue t)))"
  by (simp add: track_dispatch case_prod_unfold Let_def split: media_type.split)

lemma consume_never_fails:
  assumes "cq_wf q"
  shows "snd (consume t0 sid q) \<noteq> Fail e"
proof -
  obtain q1 p where q1: "consumer_slot sid q = (q1, p)" by (cases "consumer_slot sid q")
  from consumer_slot_wf [OF assms q1] show ?thesis by (auto simp: consume_def q1)
qed

lemma track_start_ok:
  assumes "track_ok t"
  shows "\<exists>t' r. track_start files t = (t', r) \<and> track_ok t' \<and> is_active t' \<and> kind t' = kind t
    \<and> consumer_positions (frame_queue t') = consumer_positions (frame_queue t)
    \<and> (r = Done () \<or> (\<exists>m. r = Fail (Runtime_Error m)))"
  using h264_track.start_returns [OF assms, of files] aac_track.start_returns [OF assms, of files]
  by (auto simp: track_start_def split: media_type.split)

lemma track_unregister_ok:
  assumes "track_ok t"
  shows "\<exists>t'. track_unregister_session sid t = Done t' \<and> track_ok t' \<and> kind t' = kind t \<and> track_name t' = track_name t \<and> url t' = url t
    \<and> consumer_positions (frame_queue t') = map_erase sid (consumer_positions (frame_queue t))
    \<and> (if map_erase sid (consumer_positions (frame_queue t)) = []
       then \<not> is_active t' \<and> produce_thread t' = None \<and> \<not> is_open (in_file (track_reader t'))
       else t' = t\<lparr>frame_queue := unregister_consumer sid (frame_queue t)\<rparr>)"
  using h264_track.unregister_returns [OF assms, of sid] aac_track.unregister_returns [OF assms, of sid]
  by (cases "kind t") (simp_all only: track_unregister_session_def media_type.simps)

lemma track_step_ok:
  assumes "track_ok t"
  shows "track_producer_step t = Wait \<or> (\<exists>t'. track_producer_step t = Done t' \<and> track_ok t' \<and> kind t' = kind t
    \<and> consumer_positions (frame_queue t') = consumer_positions (frame_queue t))"
  using h264_track.step_returns [OF assms] aac_track.step_returns [OF assms]
  by (cases "kind t") (simp_all add: track_producer_step_def)

lemma track_step_read:
  assumes "produce_thread t = Some Looping" and "is_active t" and "track_ok t"
    and "next_frame_of (kind t) (track_reader t) = Inr (n, r)"
  shows "track_producer_step t = Done (if n \<le> 0 then t\<lparr>track_reader := r, produce_thread := Some Exiting\<rparr>
      else t\<lparr>track_reader := r, produce_thread := Some (Producing (take (nat n) (frame_buf r)))\<rparr>)"
  using h264_track.step_read [OF assms(1,2)] aac_track.step_read [OF assms(1,2)] assms(3,4)
    h264_returns [of "track_reader t"] aac_returns [of "track_reader t"]
  by (cases "kind t") (auto simp: track_producer_step_def next_frame_of_def track_ok_def)

lemma track_step_produce:
  assumes "produce_thread t = Some (Producing f)"
  shows "track_producer_step t = (case produce (Some f) (frame_queue t) of
      (q, Done _) \<Rightarrow> Done (t\<lparr>frame_queue := q, produce_thread := Some Looping\<rparr>)
    | (q, Wait) \<Rightarrow> Wait | (q, Fail e) \<Rightarrow> Fail e)"
  using h264_track.step_produce [OF assms] aac_track.step_produce [OF assms]
  by (cases "kind t") (simp_all add: track_producer_step_def)

lemma track_step_end:
  "produce_thread t = Some Exiting \<Longrightarrow>
    track_producer_step t = Done (t\<lparr>frame_queue := set_exit (frame_queue t), produce_thread := Some Finished\<rparr>)"
  "produce_thread t = Some Finished \<Longrightarrow> track_producer_step t = Wait"
  using h264_track.step_exit aac_track.step_exit h264_track.step_returned aac_track.step_returned
  by (simp_all add: track_producer_step_def split: media_type.split)

lemma track_step_inactive:
  "produce_thread t = Some Looping \<Longrightarrow> \<not> is_active t \<Longrightarrow> track_producer_step t = Done (t\<lparr>produce_thread := Some Exiting\<rparr>)"
  "produce_thread t = None \<Longrightarrow> track_producer_step t = Wait"
  using h264_track.step_inactive aac_track.step_inactive h264_track.step_returned aac_track.step_returned
  by (simp_all add: track_producer_step_def split: media_type.split)

lemma track_exec_ok:
  assumes "track_ok t"
  shows "\<exists>f t'. track_exec files c t = Done (f, t') \<and> track_ok t' \<and> kind t' = kind t"
proof (cases c)
  case Start
  with track_start_ok [OF assms, of files] show ?thesis by (auto simp: track_exec_def)
next
  case (Register sid)
  then show ?thesis using assms by (auto simp: track_exec_def track_register_simp track_ok_def register_consumer_def
      intro: cq_wf_register [unfolded register_consumer_def])
next
  case (Unregister sid)
  with track_unregister_ok [OF assms, of sid] show ?thesis by (auto simp: track_exec_def)
next
  case (Get sid)
  have "cq_wf (frame_queue t)" using assms by (simp add: track_ok_def)
  with Get assms consume_never_fails [of "frame_queue t" None sid] consume_frame [of "frame_queue t" None sid]
    cq_wf_consume [of "frame_queue t" None sid] show ?thesis
    by (cases "snd (consume None sid (frame_queue t))") (auto simp: track_exec_def track_get_simp track_ok_def)
next
  case Producer_Step
  with track_step_ok [OF assms] assms show ?thesis by (auto simp: track_exec_def)
qed

lemma track_run_ok: "track_ok t \<Longrightarrow> \<exists>fs t'. track_run files sid cs t = Done (fs, t') \<and> track_ok t'"
proof (induction cs arbitrary: t)
  case (Cons c cs)
  from track_exec_ok [OF Cons.prems, of files c] obtain f t1 where
    c: "track_exec files c t = Done (f, t1)" "track_ok t1" by blast
  from Cons.IH [OF c(2)] c(1) show ?case by fastforce
qed simp

text \<open>
  C12 (safety). Whatever sequence of \<open>start\<close>, \<open>register_session\<close>, \<open>unregister_session\<close>,
  \<open>get_next_frame\<close> calls, interleaved in any way with the producer's steps, a track is given: no
  call reads or writes out of bounds, none destroys a running thread, and \<open>unregister_session\<close> of
  the last session always comes back: it can stop and join the producer even when the producer
  is asleep in a full queue. After it, nobody produces and the file is closed.
\<close>

theorem track_calls_safe:
  assumes "track_ok t"
  shows "\<exists>fs t'. track_run files sid cs t = Done (fs, t') \<and> track_ok t'
    \<and> (\<forall>last_session. map_erase last_session (consumer_positions (frame_queue t')) = [] \<longrightarrow>
        (\<exists>t''. track_unregister_session last_session t' = Done t'' \<and> \<not> is_active t'' \<and> produce_thread t'' = None
          \<and> \<not> is_open (in_file (track_reader t''))))"
proof -
  from track_run_ok [OF assms, of files sid cs] obtain fs t' where
    "track_run files sid cs t = Done (fs, t')" "track_ok t'" by blast
  moreover from track_unregister_ok [OF this(2)] have "\<exists>t''. track_unregister_session s t' = Done t''
      \<and> \<not> is_active t'' \<and> produce_thread t'' = None \<and> \<not> is_open (in_file (track_reader t''))"
    if "map_erase s (consumer_positions (frame_queue t')) = []" for s
    using that by (meson)
  ultimately show ?thesis by blast
qed

section \<open>Starting again\<close>

lemma consume_exit:
  assumes "exit_flag q"
  shows "snd (consume t0 sid q) = Done t0"
  using assms by (auto simp: consume_def consumer_slot_def split: option.splits prod.splits)

lemma consume_registered_waits:
  assumes "cq_wf q" and "\<not> exit_flag q"
  shows "consume t0 sid (register_consumer sid q) = (register_consumer sid q, Wait)"
  using assms by (simp add: consume_def consumer_slot_def register_consumer_def map_of_map_put)

text \<open>
  \<open>start\<close> does nothing on a track that is active, and a track stays active when its
  producer has come to the end of the file, and when \<open>start\<close> itself has thrown because the file
  could not be opened. So a session that joins after the end of the file (while another is still
  registered) gets \<open>nullptr\<close> for every frame, and after a failed \<open>start\<close> the next one returns
  as if it had succeeded, with no producer, and the session's \<open>get_next_frame\<close> waits.
\<close>

lemma start_does_not_restart:
  assumes "track_ok t"
  shows "(is_active t \<and> produce_thread t = Some Finished \<longrightarrow>
        track_start files t = (t, Done ()) \<and>
        snd (track_get_next_frame sid (track_register_session sid t)) = Done None)
    \<and> (\<not> is_active t \<and> \<not> is_open (in_file (track_reader t)) \<and> files (url t) = None \<longrightarrow>
        (\<exists>t' message. track_start files t = (t', Fail (Runtime_Error message))
          \<and> (\<forall>files'. track_start files' t' = (t', Done ())) \<and> produce_thread t' = None
          \<and> snd (track_get_next_frame sid (track_register_session sid t')) = Wait))"
proof (intro conjI impI)
  assume eof: "is_active t \<and> produce_thread t = Some Finished"
  then have "exit_flag (frame_queue t)" using assms by (simp add: track_ok_def)
  then show "snd (track_get_next_frame sid (track_register_session sid t)) = Done None"
    by (simp add: track_get_simp track_register_simp register_consumer_def consume_exit)
  show "track_start files t = (t, Done ())"
    using eof h264_track.start_active aac_track.start_active by (simp add: track_start_def split: media_type.split)
next
  assume missing: "\<not> is_active t \<and> \<not> is_open (in_file (track_reader t)) \<and> files (url t) = None"
  let ?t = "started None t"
  have "\<exists>m. track_start files t = (?t, Fail (Runtime_Error m))"
    using missing h264_track.start_missing [of t files] aac_track.start_missing [of t files]
    by (cases "kind t") (auto simp: track_start_def)
  moreover have "track_start files' ?t = (?t, Done ())" for files'
    using h264_track.start_active [of ?t] aac_track.start_active [of ?t]
    by (cases "kind t") (simp_all add: track_start_def started_def)
  moreover have "produce_thread ?t = None" "cq_wf (frame_queue ?t)" "\<not> exit_flag (frame_queue ?t)"
    using assms missing by (auto simp: started_def track_ok_def cq_wf_def)
  moreover from this have "snd (track_get_next_frame sid (track_register_session sid ?t)) = Wait"
    by (simp add: track_get_simp track_register_simp consume_registered_waits)
  ultimately show "\<exists>t' message. track_start files t = (t', Fail (Runtime_Error message))
          \<and> (\<forall>files'. track_start files' t' = (t', Done ())) \<and> produce_thread t' = None
          \<and> snd (track_get_next_frame sid (track_register_session sid t')) = Wait"
    by blast
qed

section \<open>From the file to a session\<close>

text \<open>The frames read one after the other on the way from one reader state to another.\<close>

inductive reads_to :: "('r \<Rightarrow> (int \<times> 'r) result) \<Rightarrow> ('r \<Rightarrow> byte list) \<Rightarrow> 'r \<Rightarrow> frame list \<Rightarrow> 'r \<Rightarrow> bool"
  for next_frame buf where
  none: "reads_to next_frame buf r [] r"
| one: "next_frame r = Inr (n, r1) \<Longrightarrow> 0 < n \<Longrightarrow> n \<le> int (length (buf r1)) \<Longrightarrow> reads_to next_frame buf r1 fs r2 \<Longrightarrow>
    reads_to next_frame buf r (take (nat n) (buf r1) # fs) r2"

lemma reads_to_snoc:
  "reads_to next_frame buf r fs r1 \<Longrightarrow> next_frame r1 = Inr (n, r2) \<Longrightarrow> 0 < n \<Longrightarrow> n \<le> int (length (buf r2)) \<Longrightarrow>
   reads_to next_frame buf r (fs @ [take (nat n) (buf r2)]) r2"
  by (induction rule: reads_to.induct) (auto intro: reads_to.intros)

lemma reads_to_append:
  "reads_to next_frame buf r (fs @ gs) r2 \<Longrightarrow> \<exists>r1. reads_to next_frame buf r fs r1 \<and> reads_to next_frame buf r1 gs r2"
proof (induction fs arbitrary: r)
  case Nil
  then show ?case using reads_to.none by fastforce
next
  case (Cons f fs)
  from Cons.prems obtain n r1 where
    r1: "next_frame r = Inr (n, r1)" "0 < n" "n \<le> int (length (buf r1))" "f = take (nat n) (buf r1)"
    "reads_to next_frame buf r1 (fs @ gs) r2"
    by (auto elim: reads_to.cases)
  from Cons.IH [OF r1(5)] obtain r' where "reads_to next_frame buf r1 fs r'" "reads_to next_frame buf r' gs r2" by blast
  with reads_to.one [of next_frame r n r1 buf, OF r1(1-3)] r1(4) show ?case by auto
qed

text \<open>What remains of the file after some frames have been read.\<close>

lemma reads_to_prefix:
  "reads_to next_frame buf r fs r1 \<Longrightarrow> read_frames next_frame buf k r = Inr (everything, True) \<Longrightarrow> prefix fs everything"
proof (induction arbitrary: k everything rule: reads_to.induct)
  case (one r n r1 fs r2)
  then obtain j where k: "k = Suc j" by (cases k) auto
  with one.prems one.hyps obtain rest where
    "read_frames next_frame buf j r1 = Inr (rest, True)" "everything = take (nat n) (buf r1) # rest"
    by (auto simp: frame_data_def bind_result_Inr_iff nat_le_iff)
  with one.IH show ?case by auto
qed simp

definition in_flight :: "media_track \<Rightarrow> frame option list" where
  "in_flight t = (case produce_thread t of Some (Producing f) \<Rightarrow> [Some f] | _ \<Rightarrow> [])"

definition reading :: "media_track \<Rightarrow> bool" where
  "reading t \<longleftrightarrow> (case produce_thread t of Some Looping \<Rightarrow> True | Some (Producing f) \<Rightarrow> True | _ \<Rightarrow> False)"

text \<open>
  What holds while session \<open>sid\<close> is registered and the producer runs: the frames read so far are
  those the session has got, those it can still get, and the one being produced; once the queue
  has been told to exit, the session has got some of them and gets no more.
\<close>

definition delivering :: "media_type \<Rightarrow> reader \<Rightarrow> string \<Rightarrow> frame list \<Rightarrow> media_track \<Rightarrow> bool" where
  "delivering mt r0 sid got t \<longleftrightarrow>
     track_ok t \<and> kind t = mt \<and> is_active t \<and>
     (\<exists>l fs r. pending (frame_queue t) sid = Some l
       \<and> reads_to (next_frame_of mt) frame_buf r0 fs r \<and> (reading t \<longrightarrow> track_reader t = r) \<and> prefix got fs
       \<and> (\<not> exit_flag (frame_queue t) \<longrightarrow> map Some fs = map Some got @ l @ in_flight t))"

lemma produce_exit_pending:
  assumes "cq_wf q" and "pending q sid = Some l"
  shows "\<exists>l'. pending (fst (produce x q)) sid = Some l'"
proof -
  have "consumer_positions (fst (produce x q)) = consumer_positions q" by (simp add: produce_def Let_def)
  with assms(2) show ?thesis by (auto simp: pending_def)
qed

lemma pending_exit_flag [simp]: "pending (q\<lparr>exit_flag := b\<rparr>) = pending q"
  by (simp add: pending_def fun_eq_iff)

context media_track_class begin

lemma delivering_step:
  assumes "delivering mt r0 sid got t" and "producer_step t = Done t'"
  shows "delivering mt r0 sid got t'"
proof -
  from assms(1) obtain l fs r1 where d: "track_ok t" "kind t = mt" "is_active t" "pending (frame_queue t) sid = Some l"
    "reads_to (next_frame_of mt) frame_buf r0 fs r1" "prefix got fs"
    "\<not> exit_flag (frame_queue t) \<Longrightarrow> map Some fs = map Some got @ l @ in_flight t"
    "reading t \<Longrightarrow> track_reader t = r1"
    by (auto simp: delivering_def)
  have ok: "track_ok t'" "kind t' = mt" using step_returns [OF d(1,2)] assms(2) d(2) by auto
  have wf: "cq_wf (frame_queue t)" using d(1) by (simp add: track_ok_def)
  consider "produce_thread t = None \<or> produce_thread t = Some Finished" | "produce_thread t = Some Looping"
    | f where "produce_thread t = Some (Producing f)" | "produce_thread t = Some Exiting"
    by (cases "produce_thread t") (auto intro: producer.exhaust)
  then show ?thesis
  proof cases
    case 1
    then show ?thesis using assms(2) by (simp add: step_returned)
  next
    case 2
    have "\<exists>n r. next_frame_of mt (track_reader t) = Inr (n, r) \<and> n \<le> int (length (frame_buf r))"
      using d(1) h264_returns [of "track_reader t"] aac_returns [of "track_reader t"]
      by (auto simp: next_frame_of_def track_ok_def split: media_type.split)
    then obtain n r where r: "next_frame_of mt (track_reader t) = Inr (n, r)" "n \<le> int (length (frame_buf r))" by blast
    show ?thesis
    proof (cases "n \<le> 0")
      case True
      then have t': "t' = t\<lparr>track_reader := r, produce_thread := Some Exiting\<rparr>"
        using step_read [OF 2 d(3) r] assms(2) by simp
      moreover have "in_flight t = []" using 2 by (simp add: in_flight_def)
      ultimately show ?thesis using ok d
        by (auto simp: delivering_def in_flight_def reading_def intro!: exI [of _ fs] exI [of _ r1])
    next
      case False
      then have t': "t' = t\<lparr>track_reader := r, produce_thread := Some (Producing (take (nat n) (frame_buf r)))\<rparr>"
        using step_read [OF 2 d(3) r] assms(2) by simp
      have "reads_to (next_frame_of mt) frame_buf r0 (fs @ [take (nat n) (frame_buf r)]) r"
        using False d(8) 2 r by (intro reads_to_snoc [OF d(5)]) (simp_all add: reading_def)
      moreover have "in_flight t = []" using 2 by (simp add: in_flight_def)
      ultimately show ?thesis using ok d t'
        by (auto simp: delivering_def in_flight_def intro!: exI [of _ "fs @ [take (nat n) (frame_buf r)]"] exI [of _ r])
    qed
  next
    case (3 f)
    obtain q where q: "produce (Some f) (frame_queue t) = (q, Done ())" "t' = t\<lparr>frame_queue := q, produce_thread := Some Looping\<rparr>"
      using assms(2) step_produce [OF 3] by (cases "produce (Some f) (frame_queue t)"; cases "snd (produce (Some f) (frame_queue t))") auto
    have ex: "exit_flag q = exit_flag (frame_queue t)" using arg_cong [OF q(1), of "\<lambda>p. exit_flag (fst p)"]
      by (simp add: produce_def Let_def split: if_splits)
    show ?thesis
    proof (cases "exit_flag (frame_queue t)")
      case True
      obtain l' where "pending q sid = Some l'" using produce_exit_pending [OF wf d(4), of "Some f"] q(1) by auto
      then show ?thesis using True ex ok d q(2) 3
        by (auto simp: delivering_def reading_def intro!: exI [of _ fs] exI [of _ r1])
    next
      case False
      then have "running (frame_queue t)" using wf by (simp add: running_def)
      from produce_running(2) [OF this q(1)] d(4) have "pending q sid = Some (l @ [Some f])" by simp
      then show ?thesis using False ex ok d q(2) 3
        by (auto simp: delivering_def in_flight_def reading_def intro!: exI [of _ fs] exI [of _ r1])
    qed
  next
    case 4
    then show ?thesis using assms(2) step_exit [OF 4] ok d
      by (auto simp: delivering_def set_exit_def reading_def intro!: exI [of _ fs] exI [of _ r1])
  qed
qed

end

text \<open>Only the queue changes, and it keeps the session's list.\<close>

lemma delivering_queue:
  assumes "delivering mt r0 sid got t" and "cq_wf q" and "exit_flag q = exit_flag (frame_queue t)"
    and "pending q sid = pending (frame_queue t) sid"
  shows "delivering mt r0 sid got (t\<lparr>frame_queue := q\<rparr>)"
  using assms by (auto simp: delivering_def track_ok_def in_flight_def reading_def)

lemma delivering_get:
  assumes "delivering mt r0 sid got t" and "consume None sid (frame_queue t) = (q, Done f)"
  shows "delivering mt r0 sid (got @ (case f of Some f \<Rightarrow> [f] | None \<Rightarrow> [])) (t\<lparr>frame_queue := q\<rparr>)"
proof -
  from assms(1) obtain l fs r where d: "track_ok t" "kind t = mt" "is_active t" "pending (frame_queue t) sid = Some l"
    "reads_to (next_frame_of mt) frame_buf r0 fs r" "prefix got fs"
    "\<not> exit_flag (frame_queue t) \<Longrightarrow> map Some fs = map Some got @ l @ in_flight t"
    "reading t \<Longrightarrow> track_reader t = r"
    by (auto simp: delivering_def)
  have wf: "cq_wf (frame_queue t)" using d(1) by (simp add: track_ok_def)
  have q: "cq_wf q" "exit_flag q = exit_flag (frame_queue t)"
    using cq_wf_consume [OF wf, of None sid] consume_frame [OF wf, of None sid] assms(2) by auto
  show ?thesis
  proof (cases "exit_flag (frame_queue t)")
    case True
    then have "f = None" using consume_exit [OF True, of None sid] assms(2) by simp
    moreover have "pending q sid = Some l"
      using consume_refines [OF wf, of sid None] d(4) True assms(2) by (auto simp: ch_consume_def dest: arg_cong [of _ _ ch_pending])
    ultimately show ?thesis using delivering_queue [OF assms(1) q] d(4) by simp
  next
    case False
    then have run: "running (frame_queue t)" using wf by (simp add: running_def)
    from consume_running [OF run d(4), of None] assms(2) obtain y ys where
      l: "l = y # ys" "f = y" "pending q sid = Some ys" by (cases l) auto
    from d(7) [OF False] l have eq: "map Some fs = map Some got @ [f] @ ys @ in_flight t" by simp
    then have "f \<in> Some ` set fs" by (metis append_Cons in_set_conv_decomp list.set_map append_assoc)
    then obtain g where g: "f = Some g" by blast
    have "fs = map the (map Some fs)" by (simp add: comp_def)
    also have "\<dots> = (got @ [g]) @ map the (ys @ in_flight t)" unfolding eq g by (simp add: comp_def)
    finally have "prefix (got @ [g]) fs" by (rule prefixI)
    then show ?thesis using False d q l(3) eq g
      by (auto simp: delivering_def track_ok_def in_flight_def reading_def intro!: exI [of _ fs] exI [of _ r])
  qed
qed

lemma delivering_exec:
  assumes "delivering mt r0 sid got t" and "c \<noteq> Register sid" and "c \<noteq> Unregister sid"
    and "track_exec files c t = Done (f, t')"
  shows "delivering mt r0 sid (got @ (if c = Get sid then (case f of Some f \<Rightarrow> [f] | None \<Rightarrow> []) else [])) t'"
proof -
  have d: "track_ok t" "kind t = mt" "is_active t" using assms(1) by (auto simp: delivering_def)
  have wf: "cq_wf (frame_queue t)" using d(1) by (simp add: track_ok_def)
  show ?thesis
  proof (cases c)
    case Start
    have "track_start files t = (t, Done ())"
      using h264_track.start_active [OF d(3)] aac_track.start_active [OF d(3)]
      by (simp add: track_start_def split: media_type.split)
    with Start assms show ?thesis by (simp add: track_exec_def)
  next
    case (Register sid')
    have "delivering mt r0 sid got (t\<lparr>frame_queue := register_consumer sid' (frame_queue t)\<rparr>)"
      using assms(2) Register pending_register [OF wf, of sid'] cq_wf_register [OF wf]
      by (intro delivering_queue [OF assms(1)]) (auto simp: register_consumer_def)
    with Register assms(4) show ?thesis by (auto simp: track_exec_def track_register_simp)
  next
    case (Unregister sid')
    obtain l where "pending (frame_queue t) sid = Some l" using assms(1) by (auto simp: delivering_def)
    then obtain p where "map_of (consumer_positions (frame_queue t)) sid = Some p" by (auto simp: pending_def)
    then have "map_of (map_erase sid' (consumer_positions (frame_queue t))) sid = Some p"
      using assms(3) Unregister by (auto simp: map_of_map_erase)
    then have "map_erase sid' (consumer_positions (frame_queue t)) \<noteq> []" by auto
    with track_unregister_ok [OF d(1), of sid'] Unregister assms(4)
    have "t' = t\<lparr>frame_queue := unregister_consumer sid' (frame_queue t)\<rparr>" by (auto simp: track_exec_def)
    moreover have "delivering mt r0 sid got (t\<lparr>frame_queue := unregister_consumer sid' (frame_queue t)\<rparr>)"
      using assms(3) Unregister pending_unregister [of sid' "frame_queue t"] cq_wf_unregister [OF wf]
      by (intro delivering_queue [OF assms(1)]) (auto simp: unregister_consumer_def)
    ultimately show ?thesis using Unregister by simp
  next
    case (Get sid')
    obtain q r where q: "consume None sid' (frame_queue t) = (q, r)" by (cases "consume None sid' (frame_queue t)")
    have q_ok: "cq_wf q" "exit_flag q = exit_flag (frame_queue t)"
      using cq_wf_consume [OF wf, of None sid'] consume_frame [OF wf, of None sid'] q by auto
    show ?thesis
    proof (cases "sid' = sid")
      case False
      then have "delivering mt r0 sid got (t\<lparr>frame_queue := q\<rparr>)"
        using consume_frame [OF wf, of None sid'] q by (intro delivering_queue [OF assms(1) q_ok]) auto
      with Get q False assms(4) show ?thesis
        by (cases r) (auto simp: track_exec_def track_get_simp)
    next
      case True
      show ?thesis
      proof (cases r)
        case (Done f')
        then show ?thesis using delivering_get [OF assms(1), of q f'] Get q True assms(4)
          by (auto simp: track_exec_def track_get_simp)
      next
        case Wait
        obtain l where "pending (frame_queue t) sid = Some l" using assms(1) by (auto simp: delivering_def)
        then obtain p where "map_of (consumer_positions (frame_queue t)) sid = Some p" by (auto simp: pending_def)
        then have "q = frame_queue t" using Wait q True
          by (auto simp: consume_def consumer_slot_def split: if_splits sum.splits)
        with Wait Get q True assms(1,4) show ?thesis
          by (auto simp: track_exec_def track_get_simp)
      qed (use q Get assms(4) in \<open>auto simp: track_exec_def track_get_simp\<close>)
    qed
  next
    case Producer_Step
    have "track_producer_step t = Done t'' \<Longrightarrow> delivering mt r0 sid got t''" for t''
      using h264_track.delivering_step [of r0 sid got t t''] aac_track.delivering_step [of r0 sid got t t''] assms(1) d(2)
      by (cases mt) (auto simp: track_producer_step_def)
    with Producer_Step assms(1,4) show ?thesis
      by (auto simp: track_exec_def split: outcome.splits)
  qed
qed

lemma delivering_run:
  "delivering mt r0 sid got t \<Longrightarrow> Register sid \<notin> set cs \<Longrightarrow> Unregister sid \<notin> set cs \<Longrightarrow>
   track_run files sid cs t = Done (fs, t') \<Longrightarrow> delivering mt r0 sid (got @ fs) t'"
proof (induction cs arbitrary: got t fs)
  case (Cons c cs)
  from track_exec_ok [of t files c] Cons.prems(1) obtain f t1 where
    c: "track_exec files c t = Done (f, t1)" by (auto simp: delivering_def)
  let ?g = "if c = Get sid then (case f of Some f \<Rightarrow> [f] | None \<Rightarrow> []) else []"
  obtain fs' where fs': "track_run files sid cs t1 = Done (fs', t')" "fs = ?g @ fs'"
    using Cons.prems(4) c by (auto split: outcome.splits)
  have "delivering mt r0 sid (got @ ?g) t1"
    using Cons.prems by (intro delivering_exec [OF Cons.prems(1) _ _ c]) auto
  from Cons.IH [OF this _ _ fs'(1)] Cons.prems(2,3) show ?case by (simp add: fs'(2))
qed simp

text \<open>A new track, after \<open>register_session\<close> and \<open>start\<close>.\<close>

definition new_track :: "media_type \<Rightarrow> byte list \<Rightarrow> string \<Rightarrow> string \<Rightarrow> media_track" where
  "new_track mt buf0 name path =
     (case mt of H264 \<Rightarrow> h264_media_track buf0 name path | AAC \<Rightarrow> aac_media_track buf0 name path)"

lemma new_track_simps:
  "kind (new_track mt buf0 name path) = mt" "url (new_track mt buf0 name path) = path"
  "\<not> is_active (new_track mt buf0 name path)" "produce_thread (new_track mt buf0 name path) = None"
  "track_reader (new_track mt buf0 name path) = \<lparr>in_file = closed_file, frame_buf = buf0\<rparr>"
  "frame_queue (new_track mt buf0 name path) = circular_queue None (case mt of H264 \<Rightarrow> 25 | AAC \<Rightarrow> 43)"
  by (simp_all add: new_track_def h264_media_track_def aac_media_track_def split: media_type.split)

lemma new_track_ok: "length buf0 = MAX_FRAME_SIZE + 10 \<Longrightarrow> track_ok (new_track mt buf0 name path)"
  by (auto simp: track_ok_def new_track_simps reader_ok_def intro!: cq_wf_init split: media_type.split)

lemma delivering_begins:
  fixes mt :: media_type and name path sid :: string
  assumes "length buf0 = MAX_FRAME_SIZE + 10" and "files path = Some bs"
  defines "t \<equiv> new_track mt buf0 name path"
  defines "t1 \<equiv> (started (Some bs) (track_register_session sid t))\<lparr>produce_thread := Some Looping\<rparr>"
  shows "track_start files (track_register_session sid t) = (t1, Done ())"
    and "delivering mt (new_reader bs buf0) sid [] t1"
proof -
  let ?r = "track_register_session sid t"
  have r: "\<not> is_active ?r" "produce_thread ?r = None" "\<not> is_open (in_file (track_reader ?r))" "files (url ?r) = Some bs" "kind ?r = mt"
    using assms(2) by (simp_all add: t_def track_register_simp new_track_simps closed_file_def)
  show "track_start files ?r = (t1, Done ())"
    using h264_track.start_closed [of ?r files bs] aac_track.start_closed [of ?r files bs] r
    by (cases mt) (simp_all add: track_start_def t1_def)
  let ?q = "circular_queue None (case mt of H264 \<Rightarrow> 25 | AAC \<Rightarrow> 43) :: frame option circular_queue"
  have wf: "cq_wf ?q" by (auto intro!: cq_wf_init split: media_type.split)
  have "pending (register_consumer sid ?q) sid = Some []" by (simp add: pending_register [OF wf])
  moreover have "cq_wf ((register_consumer sid ?q)\<lparr>exit_flag := False\<rparr>)"
    using cq_wf_register [OF wf, of sid] by (simp add: cq_wf_def)
  ultimately show "delivering mt (new_reader bs buf0) sid [] t1"
    using assms(1) reads_to.none [of "next_frame_of mt" frame_buf "new_reader bs buf0"]
    by (auto simp: delivering_def t1_def t_def started_def track_register_simp new_track_simps track_ok_def
        reader_ok_def reading_def in_flight_def new_reader_def)
qed

text \<open>
  From the file to the session: a session that registers on a new track and
  starts it gets, in whatever way its calls, the producer's steps and the calls of other sessions
  interleave, the frames of the file from the first on, in order, without a gap and unchanged,
  until it leaves: for an H.264 track a prefix of the NAL units that the reader delivers, for
  an AAC track a prefix of the access units (with a CRC in front where there is one).
\<close>

lemma session_gets_file_frames:
  assumes "length buf0 = MAX_FRAME_SIZE + 10"
    and "Register sid \<notin> set cs" and "Unregister sid \<notin> set cs"
    and "track_run files sid (Register sid # Start # cs) (new_track mt buf0 name path) = Done (got, t')"
  shows "(mt = H264 \<and> files path = Some (concat nals) \<and> (\<forall>f\<in>set nals. wf_nal f) \<longrightarrow> prefix got (delivered nals))
    \<and> (mt = AAC \<and> files path = Some (concat (map (\<lambda>(h, p). h @ p) fs)) \<and> (\<forall>(h, p)\<in>set fs. adts_frame h p) \<longrightarrow>
        prefix got (map unit_read fs))"
proof -
  have pre: "prefix got everything"
    if "files path = Some bs" and "read_frames (next_frame_of mt) frame_buf k (new_reader bs buf0) = Inr (everything, True)"
    for bs k everything
  proof -
    note begins = delivering_begins [where mt = mt and name = name and sid = sid and files = files
        and path = path and bs = bs, OF assms(1) that(1)]
    from assms(4) begins(1) have
      "track_run files sid cs ((started (Some bs) (track_register_session sid (new_track mt buf0 name path)))\<lparr>produce_thread := Some Looping\<rparr>) = Done (got, t')"
      by (auto simp: track_exec_def split: outcome.splits)
    from delivering_run [OF begins(2) assms(2,3) this] obtain fs r where
      "reads_to (next_frame_of mt) frame_buf (new_reader bs buf0) fs r" "prefix got fs" by (auto simp: delivering_def)
    with reads_to_prefix [OF _ that(2)] show ?thesis by (blast intro: prefix_order.trans)
  qed
  show ?thesis
    using pre [of "concat nals" "Suc (length nals)" "delivered nals"]
      pre [of "concat (map (\<lambda>(h, p). h @ p) fs)" "Suc (length fs)" "map unit_read fs"]
      h264_read_frames [of "new_reader (concat nals) buf0" nals "Suc (length nals)"]
      read_adts_file [of fs buf0 "Suc (length fs)"] assms(1)
    by (auto simp: next_frame_of_def simp del: read_frames.simps delivered.simps)
qed

section \<open>Witnesses\<close>

definition demo_frame_buf :: "byte list" where "demo_frame_buf = replicate (MAX_FRAME_SIZE + 10) 0"

lemma demo_frame_buf_length: "length demo_frame_buf = MAX_FRAME_SIZE + 10"
  by (simp add: demo_frame_buf_def)

theorem track_calls_safe_witness:
  "\<exists>fs t'. track_run (\<lambda>_. Some [0, 0, 1, 9, 9]) ''A'' [Register ''A'', Start, Producer_Step, Get ''A'', Unregister ''A'']
     (new_track H264 demo_frame_buf ''video'' ''v.h264'') = Done (fs, t') \<and> track_ok t'"
  using track_calls_safe [OF new_track_ok [OF demo_frame_buf_length], of "\<lambda>_. Some [0, 0, 1, 9, 9]" "''A''"] by blast

lemma start_does_not_restart_witness:
  "\<exists>t' message. track_start (\<lambda>_. None) (new_track AAC demo_frame_buf ''audio'' ''a.aac'') = (t', Fail (Runtime_Error message))
     \<and> track_start (\<lambda>_. Some []) t' = (t', Done ())
     \<and> snd (track_get_next_frame ''A'' (track_register_session ''A'' t')) = Wait"
proof -
  have "\<not> is_active (new_track AAC demo_frame_buf ''audio'' ''a.aac'') \<and>
      \<not> is_open (in_file (track_reader (new_track AAC demo_frame_buf ''audio'' ''a.aac''))) \<and>
      (\<lambda>_. None) (url (new_track AAC demo_frame_buf ''audio'' ''a.aac'')) = None"
    by (simp add: new_track_simps closed_file_def)
  with start_does_not_restart [OF new_track_ok [OF demo_frame_buf_length, of AAC "''audio''" "''a.aac''"],
      where sid = "''A''" and files = "\<lambda>_. None"]
  show ?thesis by blast
qed

lemma session_gets_file_frames_witness:
  "\<exists>got t'. track_run (\<lambda>_. Some (concat (map (\<lambda>(h, p). h @ p) [([0xFF, 0xF1, 0x50, 0x80, 1, 0x3F, 0xFC], [7, 8])])))
       ''A'' (Register ''A'' # Start # [Producer_Step, Producer_Step, Get ''A'']) (new_track AAC demo_frame_buf ''audio'' ''a.aac'') = Done (got, t')
     \<and> prefix got [[7, 8]]"
proof -
  let ?fs = "[([0xFF, 0xF1, 0x50, 0x80, 1, 0x3F, 0xFC], [7, 8 :: byte])]"
  let ?files = "\<lambda>_. Some (concat (map (\<lambda>(h, p). h @ p) ?fs))"
  let ?cs = "[Producer_Step, Producer_Step, Get ''A'']"
  from track_run_ok [OF new_track_ok [OF demo_frame_buf_length]] obtain got t' where
    run: "track_run ?files ''A'' (Register ''A'' # Start # ?cs) (new_track AAC demo_frame_buf ''audio'' ''a.aac'') = Done (got, t')"
    by blast
  have "\<forall>(h, p)\<in>set ?fs. adts_frame h p" by (simp add: adts_frame_def protection_absent_def)
  moreover have "Register ''A'' \<notin> set ?cs" "Unregister ''A'' \<notin> set ?cs" by simp_all
  note mp [OF conjunct2 [OF session_gets_file_frames [OF demo_frame_buf_length this run]], of ?fs]
  ultimately have "prefix got (map unit_read ?fs)" by simp
  with run show ?thesis by (intro exI conjI) (assumption, simp add: unit_read_def)
qed

end
