(* ===== verification/MediaSource.thy ===== *)
theory MediaSource
  imports MediaTrack
begin

text \<open>
  \<open>MediaSource\<close> of MediaSourceHandler.h/.cpp and \<open>MediaSourceManager\<close>. Tracks are shared by
  pointer between a source and the sessions that play it, so they live in a heap: a list, whose
  index is the address. The manager's map holds the sources themselves.
\<close>

record media_source =
  stream_name :: string
  media_tracks :: "(string \<times> nat) list"

record library =
  heap :: "media_track list"
  media_sources :: "(string \<times> media_source) list"

section \<open>MediaSource\<close>

definition new_media_source :: "string \<Rightarrow> media_source" where
  "new_media_source name = \<lparr>stream_name = name, media_tracks = []\<rparr>"

definition has_media_track :: "string \<Rightarrow> media_source \<Rightarrow> bool" where
  "has_media_track track s \<longleftrightarrow> map_of (media_tracks s) track \<noteq> None"

text \<open>
  \<open>media_tracks_[track_name] = make_shared\<dots>\<close>, then \<open>open\<close>: when it throws, the entry is there. The
  \<open>default\<close> branch is unreachable, \<open>MediaType\<close> has no third enumerator.
\<close>

definition source_add_media_track ::
  "(string \<Rightarrow> byte list option) \<Rightarrow> byte list \<Rightarrow> string \<Rightarrow> string \<Rightarrow> media_type \<Rightarrow>
   media_track list \<times> media_source \<Rightarrow> (media_track list \<times> media_source) \<times> unit outcome" where
  "source_add_media_track files buf0 track media_url mt hs =
     (let (h, s) = hs;
          t0 = (case mt of H264 \<Rightarrow> h264_media_track buf0 track media_url
                         | AAC \<Rightarrow> aac_media_track buf0 track media_url);
          s1 = s\<lparr>media_tracks := umap_put track (length h) (media_tracks s)\<rparr>;
          (t1, r) = track_open files t0 in
      ((h @ [t1], s1), r))"

definition get_media_track :: "string \<Rightarrow> media_source \<Rightarrow> nat option" where
  "get_media_track track s = map_of (media_tracks s) track"

definition source_media_sdp :: "media_track list \<Rightarrow> media_source \<Rightarrow> string" where
  "source_media_sdp h s = concat (map (\<lambda>(k, v). track_media_sdp (h ! v)) (media_tracks s))"

section \<open>MediaSourceManager\<close>

definition add_media_source :: "string \<Rightarrow> library \<Rightarrow> library" where
  "add_media_source name l = l\<lparr>media_sources := umap_put name (new_media_source name) (media_sources l)\<rparr>"

definition get_media_source :: "string \<Rightarrow> library \<Rightarrow> media_source option" where
  "get_media_source name l = map_of (media_sources l) name"

definition has_media_source :: "string \<Rightarrow> library \<Rightarrow> bool" where
  "has_media_source name l \<longleftrightarrow> map_of (media_sources l) name \<noteq> None"

text \<open>
  \<open>instance().get_media_source(name)->add_media_track(\<dots>)\<close>, as \<open>main\<close> does; a null pointer is
  dereferenced when the source does not exist.
\<close>

definition library_add_media_track ::
  "(string \<Rightarrow> byte list option) \<Rightarrow> byte list \<Rightarrow> string \<Rightarrow> string \<Rightarrow> string \<Rightarrow> media_type \<Rightarrow>
   library \<Rightarrow> library \<times> unit outcome" where
  "library_add_media_track files buf0 name track media_url mt l =
     (case get_media_source name l of
        None \<Rightarrow> (l, Fail (Undefined ''null pointer''))
      | Some s \<Rightarrow>
          let ((h, s1), r) = source_add_media_track files buf0 track media_url mt (heap l, s) in
          (l\<lparr>heap := h, media_sources := umap_put name s1 (media_sources l)\<rparr>, r))"

section \<open>The sources of main\<close>

text \<open>
  The calls that \<open>main\<close> makes before it starts the server; an exception ends the program.
\<close>

definition main_sources :: "(string \<times> string \<times> string \<times> media_type) list" where
  "main_sources =
     [(''fire'', ''track0'', ''/home/ts/Downloads/fire.h264'', H264),
      (''test_video'', ''track0'', ''/home/ts/Downloads/test.h264'', H264),
      (''test_audio'', ''track0'', ''/home/ts/Downloads/test.aac'', AAC),
      (''multimedia'', ''track0'', ''/home/ts/Downloads/test.h264'', H264),
      (''multimedia'', ''track1'', ''/home/ts/Downloads/test.aac'', AAC)]"

fun add_sources :: "(string \<Rightarrow> byte list option) \<Rightarrow> byte list \<Rightarrow> (string \<times> string \<times> string \<times> media_type) list \<Rightarrow>
    library \<Rightarrow> library \<times> unit outcome" where
  "add_sources files buf0 [] l = (l, Done ())"
| "add_sources files buf0 ((name, track, media_url, mt) # rest) l =
     (let l1 = (if has_media_source name l then l else add_media_source name l) in
      case library_add_media_track files buf0 name track media_url mt l1 of
        (l2, Done _) \<Rightarrow> add_sources files buf0 rest l2
      | r \<Rightarrow> r)"

section \<open>The invariant\<close>

text \<open>
  Every address in a source's map is an address of the heap, at which there is a track of that
  name, and the tracks are well formed.
\<close>

definition source_ok :: "media_track list \<Rightarrow> media_source \<Rightarrow> bool" where
  "source_ok h s \<longleftrightarrow> distinct_keys (media_tracks s) \<and>
     (\<forall>(k, v)\<in>set (media_tracks s). v < length h \<and> track_name (h ! v) = k)"

definition library_ok :: "library \<Rightarrow> bool" where
  "library_ok l \<longleftrightarrow> list_all track_ok (heap l) \<and> distinct_keys (media_sources l) \<and>
     (\<forall>(k, s)\<in>set (media_sources l). stream_name s = k \<and> source_ok (heap l) s)"

definition empty_library :: library where
  "empty_library = \<lparr>heap = [], media_sources = []\<rparr>"

lemma library_ok_empty: "library_ok empty_library"
  by (simp add: library_ok_def empty_library_def)

lemma set_umap_put: "set (umap_put k v m) \<subseteq> insert (k, v) (set m)"
  by (induction m) auto

lemma source_ok_append: "source_ok h s \<Longrightarrow> source_ok (h @ [t]) s"
  by (fastforce simp: source_ok_def nth_append)

lemma track_open_ok:
  assumes "length buf0 = MAX_FRAME_SIZE + 10"
  shows "track_ok (fst (track_open files (new_track mt buf0 name path)))
    \<and> track_name (fst (track_open files (new_track mt buf0 name path))) = name
    \<and> kind (fst (track_open files (new_track mt buf0 name path))) = mt
    \<and> url (fst (track_open files (new_track mt buf0 name path))) = path
    \<and> (snd (track_open files (new_track mt buf0 name path)) = Done () \<longleftrightarrow> files path \<noteq> None)"
  using new_track_ok [OF assms, of mt name path]
  by (cases mt) (auto simp: track_open_def h264_open_def aac_open_def new_track_def h264_media_track_def
      aac_media_track_def track_ok_def reader_ok_def split: option.split)

lemma source_add_media_track_ok:
  assumes "length buf0 = MAX_FRAME_SIZE + 10" and "source_ok h s" and "list_all track_ok h"
    and "source_add_media_track files buf0 track path mt (h, s) = ((h', s'), r)"
  shows "source_ok h' s' \<and> list_all track_ok h' \<and> stream_name s' = stream_name s
    \<and> (\<exists>t. h' = h @ [t] \<and> kind t = mt \<and> track_name t = track \<and> url t = path)
    \<and> (\<forall>k. get_media_track k s' = (if k = track then Some (length h) else get_media_track k s))
    \<and> (r = Done () \<longleftrightarrow> files path \<noteq> None)"
proof -
  let ?t = "track_open files (new_track mt buf0 track path)"
  have h': "h' = h @ [fst ?t]" and r: "r = snd ?t"
    and s': "s' = s\<lparr>media_tracks := umap_put track (length h) (media_tracks s)\<rparr>"
    using assms(4) by (auto simp: source_add_media_track_def new_track_def Let_def split: prod.splits)
  note t = track_open_ok [OF assms(1), of files mt track path]
  have "source_ok h' s'"
  proof -
    have "\<forall>(k, v)\<in>insert (track, length h) (set (media_tracks s)). v < length h' \<and> track_name (h' ! v) = k"
      using assms(2) t by (fastforce simp: source_ok_def h' nth_append)
    moreover have "distinct_keys (umap_put track (length h) (media_tracks s))"
      using assms(2) by (intro distinct_keys_update) (simp add: source_ok_def)
    ultimately show ?thesis using set_umap_put [of track "length h" "media_tracks s"]
      by (auto simp: source_ok_def s')
  qed
  then show ?thesis using assms(2,3) t
    by (auto simp: h' r s' get_media_track_def umap.lookup_put source_ok_def)
qed

text \<open>The track that a stream and a track name of a URL lead to.\<close>

definition find_track :: "string \<Rightarrow> string \<Rightarrow> library \<Rightarrow> nat option" where
  "find_track name track l =
     (case get_media_source name l of None \<Rightarrow> None | Some s \<Rightarrow> get_media_track track s)"

lemma library_ok_source:
  assumes "library_ok l" and "get_media_source name l = Some s"
  shows "source_ok (heap l) s \<and> stream_name s = name"
  using assms map_of_SomeD by (fastforce simp: library_ok_def get_media_source_def)

lemma library_ok_put_source:
  assumes "library_ok l" and "list_all track_ok h" and "\<And>k s. (k, s) \<in> set (media_sources l) \<Longrightarrow> source_ok h s"
    and "source_ok h s" and "stream_name s = name"
  shows "library_ok (l\<lparr>heap := h, media_sources := umap_put name s (media_sources l)\<rparr>)"
proof -
  have "\<forall>(k, s)\<in>insert (name, s) (set (media_sources l)). stream_name s = k \<and> source_ok h s"
    using assms by (auto simp: library_ok_def)
  moreover have "distinct_keys (umap_put name s (media_sources l))"
    using assms(1) by (intro distinct_keys_update) (simp add: library_ok_def)
  ultimately show ?thesis using assms(2) set_umap_put [of name s "media_sources l"]
    by (auto simp: library_ok_def)
qed

lemma library_ok_add_source:
  assumes "library_ok l" and "get_media_source name l = None"
  shows "library_ok (add_media_source name l) \<and> heap (add_media_source name l) = heap l
    \<and> get_media_source name (add_media_source name l) = Some (new_media_source name)
    \<and> (\<forall>n k. find_track n k (add_media_source name l) = find_track n k l)"
proof -
  have "library_ok (l\<lparr>heap := heap l, media_sources := umap_put name (new_media_source name) (media_sources l)\<rparr>)"
    using assms(1) by (intro library_ok_put_source)
      (auto simp: library_ok_def new_media_source_def source_ok_def distinct_keys_def)
  moreover have "distinct_keys (media_sources l)" using assms(1) by (simp add: library_ok_def)
  ultimately show ?thesis using assms(2)
    by (auto simp: add_media_source_def find_track_def get_media_source_def umap.lookup_put new_media_source_def
        get_media_track_def split: option.split)
qed

lemma library_add_media_track_ok:
  assumes "library_ok l" and "length buf0 = MAX_FRAME_SIZE + 10" and "get_media_source name l = Some s"
    and "files path \<noteq> None"
  shows "\<exists>l' t. library_add_media_track files buf0 name track path mt l = (l', Done ()) \<and> library_ok l'
    \<and> heap l' = heap l @ [t] \<and> kind t = mt \<and> url t = path \<and> track_name t = track
    \<and> find_track name track l' = Some (length (heap l))
    \<and> (\<forall>n k. (n, k) \<noteq> (name, track) \<longrightarrow> find_track n k l' = find_track n k l)
    \<and> (\<forall>n. get_media_source n l \<noteq> None \<longrightarrow> get_media_source n l' \<noteq> None)"
proof -
  have h: "list_all track_ok (heap l)" and d: "distinct_keys (media_sources l)"
    using assms(1) by (simp_all add: library_ok_def)
  note s = library_ok_source [OF assms(1,3)]
  obtain h' s' r where add: "source_add_media_track files buf0 track path mt (heap l, s) = ((h', s'), r)"
    by (metis prod.exhaust)
  from source_add_media_track_ok [OF assms(2) _ h add] s assms(4) obtain t where
    new: "source_ok h' s'" "list_all track_ok h'" "stream_name s' = name" "r = Done ()" "h' = heap l @ [t]"
      "kind t = mt" "track_name t = track" "url t = path"
      "\<And>k. get_media_track k s' = (if k = track then Some (length (heap l)) else get_media_track k s)" by auto
  let ?l = "l\<lparr>heap := h', media_sources := umap_put name s' (media_sources l)\<rparr>"
  have "library_ok ?l"
    using assms(1) new(1-3,5) by (intro library_ok_put_source) (auto simp: library_ok_def intro!: source_ok_append)
  moreover have "library_add_media_track files buf0 name track path mt l = (?l, Done ())"
    using assms(3) add new(4) by (simp add: library_add_media_track_def)
  moreover have "get_media_source n ?l = (if n = name then Some s' else get_media_source n l)" for n
    using d by (simp add: get_media_source_def umap.lookup_put)
  ultimately show ?thesis using new assms(3)
    by (intro exI [of _ ?l] exI [of _ t]) (auto simp: find_track_def)
qed

fun entry_key :: "string \<times> string \<times> string \<times> media_type \<Rightarrow> string \<times> string" where
  "entry_key (n, k, path, mt) = (n, k)"

lemma add_sources_ok:
  assumes "library_ok l" and "length buf0 = MAX_FRAME_SIZE + 10"
    and "\<forall>(n, k, path, mt)\<in>set es. files path \<noteq> None" and "distinct (map entry_key es)"
  shows "\<exists>l'. add_sources files buf0 es l = (l', Done ()) \<and> library_ok l'
    \<and> (\<forall>(n, k, path, mt)\<in>set es. \<exists>a. find_track n k l' = Some a \<and> a < length (heap l')
         \<and> kind (heap l' ! a) = mt \<and> url (heap l' ! a) = path \<and> track_name (heap l' ! a) = k)
    \<and> (\<exists>more. heap l' = heap l @ more)
    \<and> (\<forall>n k. (n, k) \<notin> entry_key ` set es \<longrightarrow> find_track n k l' = find_track n k l)"
  using assms
proof (induction es arbitrary: l)
  case Nil
  then show ?case by simp
next
  case (Cons e es)
  obtain name track path mt where e: "e = (name, track, path, mt)" by (metis prod_cases4)
  let ?l1 = "if has_media_source name l then l else add_media_source name l"
  have "\<exists>s. library_ok ?l1 \<and> heap ?l1 = heap l \<and> get_media_source name ?l1 = Some s
      \<and> (\<forall>n k. find_track n k ?l1 = find_track n k l)"
    using Cons.prems(1) library_ok_add_source [OF Cons.prems(1), of name]
    by (cases "get_media_source name l") (auto simp: has_media_source_def get_media_source_def)
  then obtain s where l1: "library_ok ?l1" "heap ?l1 = heap l" "get_media_source name ?l1 = Some s"
    "\<And>n k. find_track n k ?l1 = find_track n k l" by blast
  have "files path \<noteq> None" using Cons.prems(3) e by auto
  from library_add_media_track_ok [OF l1(1) Cons.prems(2) l1(3), of files path track mt] this obtain l2 t where
    l2: "library_add_media_track files buf0 name track path mt ?l1 = (l2, Done ())" "library_ok l2"
      "heap l2 = heap l @ [t]" "kind t = mt" "url t = path" "track_name t = track"
      "find_track name track l2 = Some (length (heap l))"
      "\<And>n k. (n, k) \<noteq> (name, track) \<Longrightarrow> find_track n k l2 = find_track n k l"
    using l1(2,4) by auto
  have p: "\<forall>(n, k, path, mt)\<in>set es. files path \<noteq> None" "distinct (map entry_key es)"
    using Cons.prems(3,4) by simp_all
  from Cons.IH [OF l2(2) Cons.prems(2) p] obtain l' more where
    l': "add_sources files buf0 es l2 = (l', Done ())" "library_ok l'"
      "\<forall>(n, k, path, mt)\<in>set es. \<exists>a. find_track n k l' = Some a \<and> a < length (heap l')
         \<and> kind (heap l' ! a) = mt \<and> url (heap l' ! a) = path \<and> track_name (heap l' ! a) = k"
      "heap l' = heap l2 @ more"
      "\<forall>n k. (n, k) \<notin> entry_key ` set es \<longrightarrow> find_track n k l' = find_track n k l2"
    by blast
  have "(name, track) \<notin> entry_key ` set es" using Cons.prems(4) e by auto
  with l'(5) l2(7) have "find_track name track l' = Some (length (heap l))" by simp
  moreover have "heap l' ! length (heap l) = t" using l'(4) l2(3) by (simp add: nth_append)
  ultimately show ?case using e l2 l' by (auto simp: Let_def)
qed

text \<open>
  When \<open>main\<close>'s five files are there, its set-up succeeds, and each stream and
  track name that a URL can give leads to a track of the configured type on the configured
  file; every other pair leads to none.
\<close>

lemma main_tracks_found:
  assumes "\<forall>(n, k, path, mt)\<in>set main_sources. files path \<noteq> None" and "length buf0 = MAX_FRAME_SIZE + 10"
  shows "\<exists>l. add_sources files buf0 main_sources empty_library = (l, Done ()) \<and> library_ok l
    \<and> (\<forall>(n, k, path, mt)\<in>set main_sources. \<exists>a. find_track n k l = Some a \<and> a < length (heap l)
         \<and> kind (heap l ! a) = mt \<and> url (heap l ! a) = path \<and> track_name (heap l ! a) = k)
    \<and> (\<forall>n k. (n, k) \<notin> entry_key ` set main_sources \<longrightarrow> find_track n k l = None)"
proof -
  have "distinct (map entry_key main_sources)" by (simp add: main_sources_def)
  from add_sources_ok [OF library_ok_empty assms(2,1) this] show ?thesis
    by (auto simp: find_track_def empty_library_def get_media_source_def)
qed

lemma main_tracks_found_witness:
  "\<exists>l a. add_sources (\<lambda>_. Some [0, 0, 1, 9, 9]) demo_frame_buf main_sources empty_library = (l, Done ())
     \<and> find_track ''multimedia'' ''track1'' l = Some a \<and> kind (heap l ! a) = AAC
     \<and> find_track ''multimedia'' ''track2'' l = None"
proof -
  have "\<forall>(n, k, path, mt)\<in>set main_sources. (\<lambda>_. Some [0, 0, 1, 9, 9 :: byte]) path \<noteq> None" by auto
  from main_tracks_found [OF this demo_frame_buf_length] obtain l where l:
    "add_sources (\<lambda>_. Some [0, 0, 1, 9, 9]) demo_frame_buf main_sources empty_library = (l, Done ())"
    "\<forall>(n, k, path, mt)\<in>set main_sources. \<exists>a. find_track n k l = Some a \<and> a < length (heap l)
         \<and> kind (heap l ! a) = mt \<and> url (heap l ! a) = path \<and> track_name (heap l ! a) = k"
    "\<forall>n k. (n, k) \<notin> entry_key ` set main_sources \<longrightarrow> find_track n k l = None" by blast
  have "(''multimedia'', ''track1'', ''/home/ts/Downloads/test.aac'', AAC) \<in> set main_sources"
    "(''multimedia'', ''track2'') \<notin> entry_key ` set main_sources"
    by (simp_all add: main_sources_def)
  with l show ?thesis by (intro exI [of _ l]) fastforce
qed

end
