(* ===== verification/RtpPacket.thy ===== *)
theory RtpPacket
  imports Prelude
begin

text \<open>
  The structures of RtpRtcpHandler.h as they lie in memory, and the standards' view of the
  same bytes. A bit field occupies its bits from the least significant upwards and multi-byte
  fields are stored low byte first, as the x86-64 ABI of the build does; \<open>htons\<close> and \<open>htonl\<close>
  reverse the bytes. The decoders at the end follow the wire formats (network byte order) and
  do not share code with the encoders.
\<close>

unbundle bit_operations_syntax

section \<open>Memory images\<close>

definition le16 :: "16 word \<Rightarrow> byte list" where
  "le16 w = [ucast w, ucast (drop_bit 8 w)]"

definition le32 :: "32 word \<Rightarrow> byte list" where
  "le32 w = [ucast w, ucast (drop_bit 8 w), ucast (drop_bit 16 w), ucast (drop_bit 24 w)]"

definition htons :: "16 word \<Rightarrow> 16 word" where
  "htons w = push_bit 8 w OR drop_bit 8 w"

definition htonl :: "32 word \<Rightarrow> 32 word" where
  "htonl w = push_bit 24 w OR (push_bit 8 w AND 0x00FF0000) OR (drop_bit 8 w AND 0x0000FF00) OR drop_bit 24 w"

text \<open>Reading a field back from memory.\<close>

definition of_le16 :: "byte list \<Rightarrow> 16 word" where
  "of_le16 bs = ucast (bs ! 0) OR push_bit 8 (ucast (bs ! 1))"

definition of_le32 :: "byte list \<Rightarrow> 32 word" where
  "of_le32 bs = ucast (bs ! 0) OR push_bit 8 (ucast (bs ! 1)) OR push_bit 16 (ucast (bs ! 2)) OR push_bit 24 (ucast (bs ! 3))"

section \<open>The RTP header\<close>

record rtp_header =
  csrc_count :: "4 word"
  padding :: "1 word"
  extension :: "1 word"
  version :: "2 word"
  payload_type :: "7 word"
  marker :: "1 word"
  sequence_number :: "16 word"
  timestamp_field :: "32 word"
  ssrc_field :: "32 word"

definition rtp_header_bytes :: "rtp_header \<Rightarrow> byte list" where
  "rtp_header_bytes h =
     [ucast (csrc_count h) OR push_bit 4 (ucast (padding h)) OR push_bit 5 (ucast (extension h))
        OR push_bit 6 (ucast (version h)),
      ucast (payload_type h) OR push_bit 7 (ucast (marker h))] @
     le16 (sequence_number h) @ le32 (timestamp_field h) @ le32 (ssrc_field h)"

definition sizeof_RTPHeader :: nat where "sizeof_RTPHeader = 12"

definition MAX_RTP_PACKET_SIZE :: nat where "MAX_RTP_PACKET_SIZE = 1024"

lemma length_rtp_header_bytes [simp]: "length (rtp_header_bytes h) = sizeof_RTPHeader"
  by (simp add: rtp_header_bytes_def le16_def le32_def sizeof_RTPHeader_def)

section \<open>Wire formats\<close>

definition be16 :: "byte list \<Rightarrow> 16 word" where
  "be16 bs = push_bit 8 (ucast (bs ! 0)) OR ucast (bs ! 1)"

definition be32 :: "byte list \<Rightarrow> 32 word" where
  "be32 bs = push_bit 24 (ucast (bs ! 0)) OR push_bit 16 (ucast (bs ! 1)) OR push_bit 8 (ucast (bs ! 2)) OR ucast (bs ! 3)"

lemma be16_le16_htons: "be16 (le16 (htons w) @ rest) = w"
  by (rule bit_word_eqI) (auto simp: be16_def le16_def htons_def bit_simps)

lemma length_le [simp]: "length (le16 w) = 2" "length (le32 x) = 4"
  by (simp_all add: le16_def le32_def)

lemma bit_FF00: "bit (0x0000FF00 :: 32 word) n \<longleftrightarrow> 8 \<le> n \<and> n < 16"
proof -
  have m: "(0x0000FF00 :: 32 word) = push_bit 8 (mask 8)" by (simp add: mask_eq_exp_minus_1 push_bit_eq_mult)
  show ?thesis unfolding m bit_push_bit_iff bit_mask_iff by auto
qed

lemma bit_FF0000: "bit (0x00FF0000 :: 32 word) n \<longleftrightarrow> 16 \<le> n \<and> n < 24"
proof -
  have m: "(0x00FF0000 :: 32 word) = push_bit 16 (mask 8)" by (simp add: mask_eq_exp_minus_1 push_bit_eq_mult)
  show ?thesis unfolding m bit_push_bit_iff bit_mask_iff by auto
qed

text \<open>A bit position of a 32-bit word, by the byte it lies in.\<close>

lemma bit32_cases:
  assumes "n < (32::nat)"
  obtains k where "k < 8" "n = k" | k where "k < 8" "n = 8 + k"
    | k where "k < 8" "n = 16 + k" | k where "k < 8" "n = 24 + k"
proof -
  consider "n < 8" | "8 \<le> n" "n < 16" | "16 \<le> n" "n < 24" | "24 \<le> n" by linarith
  then show ?thesis
  proof cases
    case 1 then show ?thesis using that(1) by blast
  next
    case 2 then show ?thesis using that(2) [of "n - 8"] by auto
  next
    case 3 then show ?thesis using that(3) [of "n - 16"] by auto
  next
    case 4 then show ?thesis using that(4) [of "n - 24"] assms by auto
  qed
qed

lemma bit_htonl:
  assumes "k < 8"
  shows "bit (htonl w) k = bit w (24 + k)" "bit (htonl w) (8 + k) = bit w (16 + k)"
    "bit (htonl w) (16 + k) = bit w (8 + k)" "bit (htonl w) (24 + k) = bit w k"
  unfolding htonl_def bit_or_iff bit_and_iff bit_FF0000 bit_FF00
  using assms by (auto simp: bit_simps dest: bit_imp_le_length)

lemma be32_le32_htonl: "be32 (le32 (htonl w) @ rest) = w"
proof (rule bit_word_eqI)
  fix n assume "n < LENGTH(32)"
  then have "n < 32" by simp
  then show "bit (be32 (le32 (htonl w) @ rest)) n \<longleftrightarrow> bit w n"
    by (cases rule: bit32_cases)
      (simp_all add: be32_def le32_def bit_simps bit_htonl)
qed

lemma of_le16_le16: "of_le16 (le16 w @ rest) = w"
  by (rule bit_word_eqI) (auto simp: of_le16_def le16_def bit_simps)

lemma of_le32_le32: "of_le32 (le32 w @ rest) = w"
proof (rule bit_word_eqI)
  fix n assume "n < LENGTH(32)"
  then have "n < 32" by simp
  then show "bit (of_le32 (le32 w @ rest)) n \<longleftrightarrow> bit w n"
    by (cases rule: bit32_cases) (simp_all add: of_le32_def le32_def bit_simps)
qed

text \<open>An RTP packet (RFC 3550): the fields a receiver reads, and the payload.\<close>

record rtp_fields =
  f_version :: nat
  f_marker :: bool
  f_payload_type :: nat
  f_sequence :: "16 word"
  f_timestamp :: "32 word"
  f_ssrc :: "32 word"
  f_payload :: "byte list"

definition decode_rtp :: "byte list \<Rightarrow> rtp_fields" where
  "decode_rtp bs =
     \<lparr>f_version = unat (bs ! 0) div 64, f_marker = bit (bs ! 1) 7, f_payload_type = unat (bs ! 1) mod 128,
      f_sequence = be16 (drop 2 bs), f_timestamp = be32 (drop 4 bs), f_ssrc = be32 (drop 8 bs),
      f_payload = drop 12 bs\<rparr>"

text \<open>
  An H.264 receiver (RFC 6184, packetisation mode 1): a payload whose type is 28 is a
  fragment, with the start and end flags and the NAL unit type in its second byte; any other
  payload is one NAL unit. The second argument is the NAL unit being put together.
\<close>

fun depacketize :: "byte list list \<Rightarrow> byte list \<Rightarrow> byte list list" where
  "depacketize [] acc = []"
| "depacketize (p # ps) acc =
     (if p = [] then depacketize ps acc
      else if p ! 0 AND 0x1F = 28 then
        let acc' = (if bit (p ! 1) 7 then [(p ! 0 AND 0xE0) OR (p ! 1 AND 0x1F)] else acc) @ drop 2 p in
        if bit (p ! 1) 6 then acc' # depacketize ps [] else depacketize ps acc'
      else p # depacketize ps acc)"

section \<open>Bytes\<close>

lemma less_8_cases: "(n::nat) < 8 \<longleftrightarrow> n = 0 \<or> n = 1 \<or> n = 2 \<or> n = 3 \<or> n = 4 \<or> n = 5 \<or> n = 6 \<or> n = 7"
  by auto

lemma byte_eqI: "(\<And>n. n < 8 \<Longrightarrow> bit a n = bit b n) \<Longrightarrow> a = (b :: byte)"
  by (rule bit_word_eqI) simp

lemma fu_indicator_type: "((b AND 0x60) OR 28) AND 0x1F = (28 :: byte)"
  by (rule byte_eqI) (auto simp: less_8_cases bit_simps)

lemma fu_indicator_nri: "((b AND 0x60) OR 28) AND 0xE0 = (b AND 0x60 :: byte)"
  by (rule byte_eqI) (auto simp: less_8_cases bit_simps)

lemma fu_header_type:
  "(((if s then 0x80 else 0) OR (if e then 0x40 else 0)) OR (b AND 0x1F)) AND 0x1F = (b AND 0x1F :: byte)"
  by (rule byte_eqI) (auto simp: less_8_cases bit_simps)

lemma fu_header_start:
  "bit (((if s then 0x80 else 0) OR (if e then 0x40 else 0)) OR (b AND 0x1F) :: byte) 7 \<longleftrightarrow> s"
  by (auto simp: bit_simps)

lemma fu_header_end:
  "bit (((if s then 0x80 else 0) OR (if e then 0x40 else 0)) OR (b AND 0x1F) :: byte) 6 \<longleftrightarrow> e"
  by (auto simp: bit_simps)

lemma nal_header_rebuilt: "(b AND 0x60) OR (b AND 0x1F) = (b AND 0x7F :: byte)"
  by (rule byte_eqI) (auto simp: less_8_cases bit_simps)

lemma clear_forbidden_bit: "\<not> bit (b :: byte) 7 \<Longrightarrow> b AND 0x7F = b"
  by (rule byte_eqI) (auto simp: less_8_cases bit_simps)

section \<open>The RTCP structures\<close>

record rtcp_header =
  report_count :: "5 word"
  rtcp_padding :: "1 word"
  rtcp_version :: "2 word"
  packet_type :: byte
  rtcp_length :: "16 word"

record rtcp_report_block =
  rb_ssrc :: "32 word"
  fraction_lost :: byte
  cumulative_packets_lost :: "24 word"
  extended_highest_sequence_number :: "32 word"
  interarrival_jitter :: "32 word"
  last_sr_timestamp :: "32 word"
  delay_since_last_sr :: "32 word"

record rtcp_sender_report = rtcp_header +
  sr_ssrc :: "32 word"
  ntp_timestamp_msw :: "32 word"
  ntp_timestamp_lsw :: "32 word"
  sr_rtp_timestamp :: "32 word"
  sender_packet_count :: "32 word"
  sender_octet_count :: "32 word"

definition sizeof_RTCPHeader :: nat where "sizeof_RTCPHeader = 4"
definition sizeof_RTCPReportBlock :: nat where "sizeof_RTCPReportBlock = 24"
definition sizeof_RTCPSenderReport :: nat where "sizeof_RTCPSenderReport = 28"

definition rtcp_header_bytes :: "'a rtcp_header_scheme \<Rightarrow> byte list" where
  "rtcp_header_bytes h =
     [ucast (report_count h) OR push_bit 5 (ucast (rtcp_padding h)) OR push_bit 6 (ucast (rtcp_version h)),
      packet_type h] @ le16 (rtcp_length h)"

definition rtcp_header_of :: "byte list \<Rightarrow> rtcp_header" where
  "rtcp_header_of bs =
     \<lparr>report_count = ucast (bs ! 0), rtcp_padding = ucast (drop_bit 5 (bs ! 0)),
      rtcp_version = ucast (drop_bit 6 (bs ! 0)), packet_type = bs ! 1, rtcp_length = of_le16 (drop 2 bs)\<rparr>"

definition le24 :: "24 word \<Rightarrow> byte list" where
  "le24 w = [ucast w, ucast (drop_bit 8 w), ucast (drop_bit 16 w)]"

definition of_le24 :: "byte list \<Rightarrow> 24 word" where
  "of_le24 bs = ucast (bs ! 0) OR push_bit 8 (ucast (bs ! 1)) OR push_bit 16 (ucast (bs ! 2))"

definition report_block_bytes :: "rtcp_report_block \<Rightarrow> byte list" where
  "report_block_bytes rb =
     le32 (rb_ssrc rb) @ [fraction_lost rb] @ le24 (cumulative_packets_lost rb) @
     le32 (extended_highest_sequence_number rb) @ le32 (interarrival_jitter rb) @
     le32 (last_sr_timestamp rb) @ le32 (delay_since_last_sr rb)"

definition report_block_of :: "byte list \<Rightarrow> rtcp_report_block" where
  "report_block_of bs =
     \<lparr>rb_ssrc = of_le32 bs, fraction_lost = bs ! 4, cumulative_packets_lost = of_le24 (drop 5 bs),
      extended_highest_sequence_number = of_le32 (drop 8 bs), interarrival_jitter = of_le32 (drop 12 bs),
      last_sr_timestamp = of_le32 (drop 16 bs), delay_since_last_sr = of_le32 (drop 20 bs)\<rparr>"

definition sender_report_bytes :: "rtcp_sender_report \<Rightarrow> byte list" where
  "sender_report_bytes sr =
     rtcp_header_bytes sr @ le32 (sr_ssrc sr) @ le32 (ntp_timestamp_msw sr) @ le32 (ntp_timestamp_lsw sr) @
     le32 (sr_rtp_timestamp sr) @ le32 (sender_packet_count sr) @ le32 (sender_octet_count sr)"

lemma length_rtcp_images [simp]:
  "length (rtcp_header_bytes h) = sizeof_RTCPHeader"
  "length (report_block_bytes rb) = sizeof_RTCPReportBlock"
  "length (sender_report_bytes sr) = sizeof_RTCPSenderReport"
  by (simp_all add: rtcp_header_bytes_def report_block_bytes_def sender_report_bytes_def le24_def
      sizeof_RTCPHeader_def sizeof_RTCPReportBlock_def sizeof_RTCPSenderReport_def)

text \<open>Copying bytes into a report block and out again gives the same bytes.\<close>

lemma le32_of_le32:
  assumes "4 \<le> length bs"
  shows "le32 (of_le32 bs) = take 4 bs"
proof -
  obtain a b c d rest where bs: "bs = a # b # c # d # rest"
    using assms by (auto simp: numeral_eq_Suc Suc_le_length_iff)
  have "ucast (of_le32 bs) = a" "ucast (drop_bit 8 (of_le32 bs)) = b"
    "ucast (drop_bit 16 (of_le32 bs)) = c" "ucast (drop_bit 24 (of_le32 bs)) = d"
    by (rule byte_eqI; simp add: of_le32_def bs bit_simps; auto dest: bit_imp_le_length)+
  then show ?thesis by (simp add: le32_def bs)
qed

lemma le24_of_le24:
  assumes "3 \<le> length bs"
  shows "le24 (of_le24 bs) = take 3 bs"
proof -
  obtain a b c rest where bs: "bs = a # b # c # rest"
    using assms by (auto simp: numeral_eq_Suc Suc_le_length_iff)
  have "ucast (of_le24 bs) = a" "ucast (drop_bit 8 (of_le24 bs)) = b" "ucast (drop_bit 16 (of_le24 bs)) = c"
    by (rule byte_eqI; simp add: of_le24_def bs bit_simps; auto dest: bit_imp_le_length)+
  then show ?thesis by (simp add: le24_def bs)
qed

lemma report_block_copy:
  assumes "length bs = sizeof_RTCPReportBlock"
  shows "report_block_bytes (report_block_of bs) = bs"
proof -
  have n: "length bs = 24" using assms by (simp add: sizeof_RTCPReportBlock_def)
  have part: "take k xs @ drop k xs = xs" for k and xs :: "byte list" by simp
  have "report_block_bytes (report_block_of bs) =
      take 4 bs @ [bs ! 4] @ take 3 (drop 5 bs) @ take 4 (drop 8 bs) @ take 4 (drop 12 bs)
      @ take 4 (drop 16 bs) @ take 4 (drop 20 bs)"
    using n by (simp add: report_block_bytes_def report_block_of_def le32_of_le32 le24_of_le24)
  also have "[bs ! 4] = take 1 (drop 4 bs)" using n by (simp add: take_Suc_conv_app_nth take_Suc hd_drop_conv_nth)
  also have "take 4 bs @ take 1 (drop 4 bs) @ take 3 (drop 5 bs) @ take 4 (drop 8 bs) @ take 4 (drop 12 bs)
      @ take 4 (drop 16 bs) @ take 4 (drop 20 bs) = bs"
    using n by (intro nth_equalityI) (auto simp: nth_append)
  finally show ?thesis .
qed

end
