(* ===== verification/RtpRtcpHandler.thy ===== *)
theory RtpRtcpHandler
  imports RtpPacket MediaTypes Containers
begin

text \<open>
  \<open>RtpRtcpHandler\<close> of RtpRtcpHandler.h and RtpRtcpHandler.cpp: its construction, the RTP
  sender (NAL units whole or as FU-A fragments, AAC access units), and \<open>start\<close>/\<open>stop\<close> of the
  two RTCP threads, whose bodies are in Rtcp. The record has the class's members; the thread
  handles are whether a joinable thread is held. What the handler sends is returned as a list
  of datagrams with their destination. \<open>inet_ok\<close> is \<open>inet_pton\<close>'s verdict on an address, and
  \<open>sys\<close> the verdict of the kernel on each system call of the constructor.
\<close>

unbundle bit_operations_syntax

section \<open>State\<close>

record sockaddr_in =
  sin_port :: "16 word"
  sin_addr :: string

record rtp_handler =
  ip :: string
  rtp_port :: int
  rtcp_port :: int
  client_addr :: "sockaddr_in option"
  ssrc :: "32 word"
  rtp_sequence_number :: int
  timestamp :: "32 word"
  timestamp_increment :: "32 word"
  rtp_buf :: "byte list"
  is_running :: bool
  rtcp_send_thread :: bool
  rtcp_receive_thread :: bool
  rtcp_report_blocks :: "(32 word \<times> rtcp_report_block) list"
  total_payload_size :: "32 word"
  total_rtp_packet_sent :: "32 word"

type_synonym datagram = "sockaddr_in \<times> byte list"

text \<open>The system calls of the constructor, in their order.\<close>

datatype sys_call =
    Rtp_Socket | Rtp_Reuse | Rtp_Bind "16 word"
  | Rtcp_Socket | Rtcp_Reuse | Rtcp_Timeout | Rtcp_Bind "16 word"

fun sys_error :: "sys_call \<Rightarrow> string" where
  "sys_error Rtp_Socket = ''RtpRtcpHandler create server rtp socket failed''"
| "sys_error Rtp_Reuse = ''Error setting rtp_socket_ options''"
| "sys_error (Rtp_Bind _) = ''Bind rtp socket with server failed.''"
| "sys_error Rtcp_Socket = ''RtpRtcpHandler create server rtcp socket failed''"
| "sys_error Rtcp_Reuse = ''Error setting rtp_socket_ options''"
| "sys_error Rtcp_Timeout = ''Error setting rtcp_socket_ timeout options''"
| "sys_error (Rtcp_Bind _) = ''Bind rtcp socket with server failed.''"

fun first_failure :: "(sys_call \<Rightarrow> bool) \<Rightarrow> sys_call list \<Rightarrow> sys_call option" where
  "first_failure sys [] = None"
| "first_failure sys (c # cs) = (if sys c then first_failure sys cs else Some c)"

definition handler_calls :: "int \<Rightarrow> int \<Rightarrow> sys_call list" where
  "handler_calls server_rtp_port server_rtcp_port =
     [Rtp_Socket, Rtp_Reuse, Rtp_Bind (word_of_int server_rtp_port),
      Rtcp_Socket, Rtcp_Reuse, Rtcp_Timeout, Rtcp_Bind (word_of_int server_rtcp_port)]"

text \<open>
  The constructor. \<open>random_ssrc\<close> is the drawn SSRC and \<open>buf0\<close> the indeterminate contents of
  \<open>rtp_buf_\<close>.
\<close>

definition rtp_rtcp_handler ::
  "(sys_call \<Rightarrow> bool) \<Rightarrow> 32 word \<Rightarrow> byte list \<Rightarrow> int \<Rightarrow> int \<Rightarrow> string \<Rightarrow> int \<Rightarrow> int \<Rightarrow> 32 word \<Rightarrow> rtp_handler result" where
  "rtp_rtcp_handler sys random_ssrc buf0 server_rtp_port server_rtcp_port ip0 rtp_port0 rtcp_port0 increment =
     (case first_failure sys (handler_calls server_rtp_port server_rtcp_port) of
        Some c \<Rightarrow> Inl (Runtime_Error (sys_error c))
      | None \<Rightarrow> Inr \<lparr>ip = ip0, rtp_port = rtp_port0, rtcp_port = rtcp_port0, client_addr = None,
          ssrc = random_ssrc, rtp_sequence_number = 0, timestamp = 0, timestamp_increment = increment,
          rtp_buf = buf0, is_running = True, rtcp_send_thread = False, rtcp_receive_thread = False,
          rtcp_report_blocks = [], total_payload_size = 0, total_rtp_packet_sent = 0\<rparr>)"

text \<open>
  \<open>start\<close>: resetting a handle that still holds a joinable thread destroys that thread object,
  and the runtime calls \<open>std::terminate\<close>.
\<close>

definition rtp_start :: "rtp_handler \<Rightarrow> rtp_handler result" where
  "rtp_start h =
     (if rtcp_send_thread h \<or> rtcp_receive_thread h then Inl Terminate
      else Inr (h\<lparr>rtcp_send_thread := True, rtcp_receive_thread := True\<rparr>))"

definition rtp_stop :: "rtp_handler \<Rightarrow> rtp_handler" where
  "rtp_stop h = h\<lparr>is_running := False, rtcp_send_thread := False, rtcp_receive_thread := False\<rparr>"

text \<open>The destructor stops the threads; the sockets that it closes are in Sockets.\<close>

definition rtp_destroy :: "rtp_handler \<Rightarrow> rtp_handler" where
  "rtp_destroy h = rtp_stop h"

section \<open>Sending\<close>

definition rtp_buf_size :: nat where "rtp_buf_size = MAX_RTP_PACKET_SIZE + 10"

definition max_payload_size :: nat where "max_payload_size = MAX_RTP_PACKET_SIZE - sizeof_RTPHeader"

definition new_header :: "rtp_handler \<Rightarrow> media_type \<Rightarrow> bool \<Rightarrow> rtp_header" where
  "new_header h mt is_last =
     \<lparr>csrc_count = 0, padding = 0, extension = 0, version = 2, payload_type = ucast (media_type_code mt),
      marker = (if is_last then 1 else 0), sequence_number = htons (word_of_int (rtp_sequence_number h)),
      timestamp_field = htonl (timestamp h), ssrc_field = htonl (ssrc h)\<rparr>"

text \<open>\<open>rtp_sequence_number_++\<close> on an \<open>int\<close>.\<close>

definition bump_sequence :: "rtp_handler \<Rightarrow> rtp_handler result" where
  "bump_sequence h =
     (if rtp_sequence_number h = 2 ^ 31 - 1 then Inl (Undefined ''signed integer overflow'')
      else Inr (h\<lparr>rtp_sequence_number := rtp_sequence_number h + 1\<rparr>))"

fun copy_chunks :: "byte list \<Rightarrow> (nat \<times> byte list) list \<Rightarrow> byte list result" where
  "copy_chunks buf [] = Inr buf"
| "copy_chunks buf ((off, bs) # cs) = bind_result (memcpy_at buf off bs) (\<lambda>buf'. copy_chunks buf' cs)"

text \<open>
  The common tail of the three senders: number the packet, copy its parts into \<open>rtp_buf_\<close>,
  resolve the client's address, hand \<open>packet_size\<close> bytes of the buffer to \<open>sendto\<close> (whose result the
  code does not use).
\<close>

definition transmit ::
  "(string \<Rightarrow> bool) \<Rightarrow> rtp_handler \<Rightarrow> media_type \<Rightarrow> bool \<Rightarrow> (nat \<times> byte list) list \<Rightarrow> nat \<Rightarrow>
   (rtp_handler \<times> datagram) result" where
  "transmit inet_ok h mt is_last parts packet_size =
     bind_result (bump_sequence h) (\<lambda>h1.
     bind_result (copy_chunks (rtp_buf h) ((0, rtp_header_bytes (new_header h mt is_last)) # parts)) (\<lambda>buf.
     if \<not> inet_ok (ip h) then Inl (Runtime_Error ''RtpRtcpHandler bind client rtp socket address failed'')
     else if length buf < packet_size then Inl (Undefined ''read past the end of a buffer'')
     else let addr = \<lparr>sin_port = word_of_int (rtp_port h), sin_addr = ip h\<rparr> in
       Inr (h1\<lparr>rtp_buf := buf, client_addr := Some addr\<rparr>, (addr, take packet_size buf))))"

text \<open>\<open>payload[i] == p0 && payload[i + 1] == p1 && \<dots>\<close>: reads stop at the first mismatch.\<close>

fun match_bytes :: "byte list \<Rightarrow> nat \<Rightarrow> byte list \<Rightarrow> bool result" where
  "match_bytes bs i [] = Inr True"
| "match_bytes bs i (p # ps) =
     bind_result (read_at bs i) (\<lambda>b. if b = p then match_bytes bs (i + 1) ps else Inr False)"

definition start_code_length :: "byte list \<Rightarrow> nat option result" where
  "start_code_length payload =
     bind_result (match_bytes payload 0 [0, 0, 1]) (\<lambda>three.
     if three then Inr (Some 3)
     else bind_result (match_bytes payload 0 [0, 0, 0, 1]) (\<lambda>four.
       Inr (if four then Some 4 else None)))"

definition fu_indicator :: "byte \<Rightarrow> byte" where
  "fu_indicator b = (b AND 0x60) OR 28"

definition fu_header :: "bool \<Rightarrow> bool \<Rightarrow> byte \<Rightarrow> byte" where
  "fu_header first is_last b = ((if first then 0x80 else 0) OR (if is_last then 0x40 else 0)) OR (b AND 0x1F)"

text \<open>The loop over the fragments of a NAL unit.\<close>

function send_fragments ::
  "(string \<Rightarrow> bool) \<Rightarrow> byte list \<Rightarrow> nat \<Rightarrow> nat \<Rightarrow> bool \<Rightarrow> rtp_handler \<Rightarrow> (rtp_handler \<times> datagram list) result" where
  "send_fragments inet_ok payload start_code offset first_fragment h =
     (if offset < length payload then
        let payload_size = length payload;
            fragment_size = min (max_payload_size - 2) (payload_size - offset);
            is_last = (offset + fragment_size = payload_size) in
        bind_result (read_at payload start_code) (\<lambda>nalu.
        bind_result
          (transmit inet_ok h H264 is_last
            [(sizeof_RTPHeader, [fu_indicator nalu]),
             (sizeof_RTPHeader + 1, [fu_header first_fragment is_last nalu]),
             (sizeof_RTPHeader + 2, take fragment_size (drop offset payload))]
            (sizeof_RTPHeader + 2 + fragment_size)) (\<lambda>(h1, p).
        bind_result (send_fragments inet_ok payload start_code (offset + fragment_size) False h1) (\<lambda>(h2, ps).
        Inr (h2, p # ps))))
      else Inr (h, []))"
  by pat_completeness auto
termination
  by (relation "measure (\<lambda>(ok, payload, sc, offset, first, h). length payload - offset)")
    (auto simp: max_payload_size_def MAX_RTP_PACKET_SIZE_def sizeof_RTPHeader_def min_def)

declare send_fragments.simps [simp del]

text \<open>\<open>send_h264\<close>; a frame without start code is logged and dropped.\<close>

definition send_h264 :: "(string \<Rightarrow> bool) \<Rightarrow> byte list \<Rightarrow> rtp_handler \<Rightarrow> (rtp_handler \<times> datagram list) result" where
  "send_h264 inet_ok payload h =
     bind_result (start_code_length payload) (\<lambda>sc. case sc of
       None \<Rightarrow> Inr (h, [])
     | Some start_code \<Rightarrow>
         let payload_size = length payload; nal_unit_size = payload_size - start_code in
         if max_payload_size < nal_unit_size then
           bind_result (send_fragments inet_ok payload start_code (start_code + 1) True h) (\<lambda>(h1, ps).
             Inr (h1\<lparr>timestamp := timestamp h1 + timestamp_increment h1,
                     total_rtp_packet_sent := total_rtp_packet_sent h1 + 1\<rparr>, ps))
         else
           bind_result
             (transmit inet_ok h H264 True [(sizeof_RTPHeader, drop start_code payload)]
               (sizeof_RTPHeader + payload_size - start_code)) (\<lambda>(h1, p).
           bind_result (read_at payload start_code) (\<lambda>nalu.
             Inr ((if nalu AND 0x1F \<noteq> 7 \<and> nalu AND 0x1F \<noteq> 8
                   then h1\<lparr>timestamp := timestamp h1 + timestamp_increment h1\<rparr> else h1)
                  \<lparr>total_rtp_packet_sent := total_rtp_packet_sent h1 + 1\<rparr>, [p]))))"

text \<open>The two bytes of the AU header: \<open>(payload_size & 0x1FE0) >> 5\<close> and \<open>(payload_size & 0x1F) << 3\<close>.\<close>

definition au_header :: "nat \<Rightarrow> byte list" where
  "au_header n =
     [0x00, 0x10, word_of_nat (drop_bit 5 (n AND 0x1FE0)), word_of_nat (push_bit 3 (n AND 0x1F))]"

definition send_aac :: "(string \<Rightarrow> bool) \<Rightarrow> byte list \<Rightarrow> rtp_handler \<Rightarrow> (rtp_handler \<times> datagram list) result" where
  "send_aac inet_ok payload h =
     (let au = au_header (length payload) in
      bind_result
        (transmit inet_ok h AAC True
          [(sizeof_RTPHeader, [au ! 0]), (sizeof_RTPHeader + 1, [au ! 1]), (sizeof_RTPHeader + 2, [au ! 2]),
           (sizeof_RTPHeader + 3, [au ! 3]), (sizeof_RTPHeader + 4, payload)]
          (sizeof_RTPHeader + 4 + length payload)) (\<lambda>(h1, p).
        Inr (h1\<lparr>timestamp := timestamp h1 + timestamp_increment h1,
                total_rtp_packet_sent := total_rtp_packet_sent h1 + 1\<rparr>, [p])))"

definition send_rtp_packet ::
  "(string \<Rightarrow> bool) \<Rightarrow> byte list \<Rightarrow> media_type \<Rightarrow> rtp_handler \<Rightarrow> (rtp_handler \<times> datagram list) result" where
  "send_rtp_packet inet_ok payload mt h =
     bind_result (case mt of H264 \<Rightarrow> send_h264 inet_ok payload h | AAC \<Rightarrow> send_aac inet_ok payload h)
       (\<lambda>(h1, ps). Inr (h1\<lparr>total_payload_size := total_payload_size h1 + word_of_nat (length payload)\<rparr>, ps))"

section \<open>What one packet looks like\<close>

definition handler_ok :: "(string \<Rightarrow> bool) \<Rightarrow> rtp_handler \<Rightarrow> bool" where
  "handler_ok inet_ok h \<longleftrightarrow> length (rtp_buf h) = rtp_buf_size \<and> inet_ok (ip h)"

definition rtp_addr :: "rtp_handler \<Rightarrow> sockaddr_in" where
  "rtp_addr h = \<lparr>sin_port = word_of_int (rtp_port h), sin_addr = ip h\<rparr>"

lemmas rtp_sizes = rtp_buf_size_def max_payload_size_def MAX_RTP_PACKET_SIZE_def sizeof_RTPHeader_def

text \<open>Contiguous chunks from the start of the buffer come out as their concatenation.\<close>

fun contiguous :: "nat \<Rightarrow> (nat \<times> byte list) list \<Rightarrow> bool" where
  "contiguous off [] = True"
| "contiguous off ((o', bs) # cs) = (o' = off \<and> contiguous (off + length bs) cs)"

lemma copy_chunks_contiguous:
  assumes "contiguous off cs" and "off + length (concat (map snd cs)) \<le> length buf"
  shows "copy_chunks buf cs =
    Inr (take off buf @ concat (map snd cs) @ drop (off + length (concat (map snd cs))) buf)"
  using assms
proof (induction cs arbitrary: off buf)
  case (Cons c cs)
  obtain bs where c: "c = (off, bs)" using Cons.prems by (cases c) auto
  let ?buf = "take off buf @ bs @ drop (off + length bs) buf"
  have len: "off + length bs \<le> length buf" and len': "off + length bs + length (concat (map snd cs)) \<le> length ?buf"
    using Cons.prems c by auto
  have "copy_chunks ?buf cs = Inr (take (off + length bs) ?buf @ concat (map snd cs) @
      drop (off + length bs + length (concat (map snd cs))) ?buf)"
    using Cons.prems c len' by (intro Cons.IH) auto
  moreover have "take (off + length bs) ?buf = take off buf @ bs" using len by simp
  moreover have "drop (off + length bs + k) ?buf = drop (off + length bs + k) buf" for k
    using len by (simp add: add.assoc add.commute)
  ultimately show ?case using c len by (simp add: add.assoc)
qed simp

lemma transmit_ok:
  assumes "handler_ok inet_ok h" and "rtp_sequence_number h < 2 ^ 31 - 1"
    and "contiguous sizeof_RTPHeader parts" and "concat (map snd parts) = body"
    and "packet_size = sizeof_RTPHeader + length body" and "packet_size \<le> rtp_buf_size"
  shows "\<exists>buf. length buf = rtp_buf_size \<and> transmit inet_ok h mt is_last parts packet_size =
    Inr (h\<lparr>rtp_sequence_number := rtp_sequence_number h + 1, rtp_buf := buf, client_addr := Some (rtp_addr h)\<rparr>,
      (rtp_addr h, rtp_header_bytes (new_header h mt is_last) @ body))"
proof -
  let ?cs = "(0, rtp_header_bytes (new_header h mt is_last)) # parts"
  let ?all = "rtp_header_bytes (new_header h mt is_last) @ body"
  have "copy_chunks (rtp_buf h) ?cs = Inr (take 0 (rtp_buf h) @ concat (map snd ?cs) @
      drop (0 + length (concat (map snd ?cs))) (rtp_buf h))"
    using assms by (intro copy_chunks_contiguous) (auto simp: handler_ok_def)
  then have "copy_chunks (rtp_buf h) ?cs = Inr (?all @ drop (length ?all) (rtp_buf h))"
    using assms(4) by simp
  moreover have "length (?all @ drop (length ?all) (rtp_buf h)) = rtp_buf_size"
    using assms by (auto simp: handler_ok_def)
  ultimately show ?thesis
    using assms
    by (intro exI [of _ "?all @ drop (length ?all) (rtp_buf h)"])
      (auto simp: transmit_def bump_sequence_def handler_ok_def rtp_addr_def Let_def)
qed

lemma decode_sent:
  "decode_rtp (rtp_header_bytes (new_header h mt is_last) @ body) =
    \<lparr>f_version = 2, f_marker = is_last, f_payload_type = unat (media_type_code mt),
     f_sequence = word_of_int (rtp_sequence_number h), f_timestamp = timestamp h, f_ssrc = ssrc h, f_payload = body\<rparr>"
proof -
  let ?h = "new_header h mt is_last"
  have b: "rtp_header_bytes ?h @ body = [0x80, ucast (payload_type ?h) OR push_bit 7 (ucast (marker ?h))] @
      le16 (htons (word_of_int (rtp_sequence_number h))) @ le32 (htonl (timestamp h)) @ le32 (htonl (ssrc h)) @ body"
    by (simp add: rtp_header_bytes_def new_header_def)
  have "drop 2 (rtp_header_bytes ?h @ body) = le16 (htons (word_of_int (rtp_sequence_number h))) @
      (le32 (htonl (timestamp h)) @ le32 (htonl (ssrc h)) @ body)"
    "drop 4 (rtp_header_bytes ?h @ body) = le32 (htonl (timestamp h)) @ (le32 (htonl (ssrc h)) @ body)"
    "drop 8 (rtp_header_bytes ?h @ body) = le32 (htonl (ssrc h)) @ body"
    "drop 12 (rtp_header_bytes ?h @ body) = body"
    unfolding b by (simp_all add: le16_def le32_def)
  moreover have "(rtp_header_bytes ?h @ body) ! 0 = 0x80"
    "(rtp_header_bytes ?h @ body) ! 1 = ucast (payload_type ?h) OR push_bit 7 (ucast (marker ?h))"
    unfolding b by simp_all
  moreover have "bit (ucast (payload_type ?h) OR push_bit 7 (ucast (marker ?h)) :: byte) 7 = is_last"
    "unat (ucast (payload_type ?h) OR push_bit 7 (ucast (marker ?h)) :: byte) mod 128 = unat (media_type_code mt)"
    by (cases mt; simp add: new_header_def)+
  ultimately show ?thesis
    by (simp add: decode_rtp_def be16_le16_htons be32_le32_htonl)
qed

section \<open>What a NAL unit becomes\<close>

definition fragment_room :: nat where "fragment_room = max_payload_size - 2"

lemma fragment_room_pos [simp]: "0 < fragment_room"
  by (simp add: fragment_room_def rtp_sizes)

text \<open>The payloads of the fragments of a NAL unit with header \<open>b\<close> and remaining bytes \<open>data\<close>.\<close>

function fu_payloads :: "byte \<Rightarrow> bool \<Rightarrow> byte list \<Rightarrow> byte list list" where
  "fu_payloads b first data =
     (if data = [] then []
      else let rest = drop fragment_room data in
        ([fu_indicator b, fu_header first (rest = []) b] @ take fragment_room data) # fu_payloads b False rest)"
  by pat_completeness auto
termination
  by (relation "measure (\<lambda>(b, first, data). length data)") auto

declare fu_payloads.simps [simp del]

lemma fu_payloads_Nil [simp]: "fu_payloads b first [] = []"
  by (simp add: fu_payloads.simps)

lemma fu_payloads_eq_Nil [simp]: "fu_payloads b first data = [] \<longleftrightarrow> data = []"
  by (subst fu_payloads.simps) (simp add: Let_def)

text \<open>A receiver puts the NAL unit together again.\<close>

lemma depacketize_fu_rest:
  assumes "data \<noteq> []"
  shows "depacketize (fu_payloads b False data @ ps) acc = (acc @ data) # depacketize ps []"
  using assms
proof (induction "length data" arbitrary: data acc rule: less_induct)
  case less
  have frag: "fu_indicator b AND 0x1F = 28" "bit (fu_header False e b) 7 = False" "bit (fu_header False e b) 6 = e" for e
    using fu_indicator_type fu_header_start [of False e b] fu_header_end [of False e b]
    by (auto simp: fu_indicator_def fu_header_def)
  show ?case
  proof (cases "drop fragment_room data = []")
    case True
    with less.prems show ?thesis
      by (subst fu_payloads.simps) (simp add: frag Let_def)
  next
    case False
    have "length (drop fragment_room data) < length data" using less.prems by auto
    from less.hyps [OF this False] False less.prems show ?thesis
      by (subst fu_payloads.simps) (simp add: frag Let_def)
  qed
qed

lemma depacketize_fu:
  assumes "data \<noteq> []" and "\<not> bit b 7"
  shows "depacketize (fu_payloads b True data @ ps) [] = (b # data) # depacketize ps []"
proof -
  have frag: "fu_indicator b AND 0x1F = 28" "bit (fu_header True e b) 7" "bit (fu_header True e b) 6 = e"
    "(fu_indicator b AND 0xE0) OR (fu_header True e b AND 0x1F) = b" for e
    using fu_indicator_type fu_header_start [of True e b] fu_header_end [of True e b] fu_header_type [of True e b]
      clear_forbidden_bit [OF assms(2)] nal_header_rebuilt [of b] fu_indicator_nri [of b]
    by (auto simp: fu_indicator_def fu_header_def)
  show ?thesis
  proof (cases "drop fragment_room data = []")
    case True
    with assms show ?thesis by (subst fu_payloads.simps) (simp add: frag Let_def)
  next
    case False
    with assms show ?thesis
      by (subst fu_payloads.simps) (simp add: frag Let_def depacketize_fu_rest)
  qed
qed

text \<open>The datagrams that carry the payloads: consecutive sequence numbers, one timestamp, the marker on the last.\<close>

fun stamped :: "rtp_handler \<Rightarrow> byte list list \<Rightarrow> datagram list" where
  "stamped h [] = []"
| "stamped h (p # ps) =
     (rtp_addr h, rtp_header_bytes (new_header h H264 (ps = [])) @ p) #
     stamped (h\<lparr>rtp_sequence_number := rtp_sequence_number h + 1\<rparr>) ps"

lemma stamped_cong:
  assumes "ip h' = ip h" "rtp_port h' = rtp_port h" "rtp_sequence_number h' = rtp_sequence_number h"
    "timestamp h' = timestamp h" "ssrc h' = ssrc h"
  shows "stamped h' ps = stamped h ps"
  using assms
proof (induction ps arbitrary: h h')
  case (Cons p ps)
  have "stamped (h'\<lparr>rtp_sequence_number := rtp_sequence_number h + 1\<rparr>) ps =
      stamped (h\<lparr>rtp_sequence_number := rtp_sequence_number h + 1\<rparr>) ps"
    using Cons.prems by (intro Cons.IH) simp_all
  with Cons.prems show ?case by (simp add: rtp_addr_def new_header_def)
qed simp

lemma handler_ok_frame:
  "handler_ok inet_ok h \<Longrightarrow> length buf = rtp_buf_size \<Longrightarrow>
   handler_ok inet_ok (h\<lparr>rtp_sequence_number := n, rtp_buf := buf, client_addr := a\<rparr>)"
  by (simp add: handler_ok_def)

lemma send_fragments_ok:
  assumes "handler_ok inet_ok h" and "sc < length payload" and "offset \<le> length payload"
    and "ps = fu_payloads (payload ! sc) first (drop offset payload)"
    and "rtp_sequence_number h + int (length ps) < 2 ^ 31"
  shows "\<exists>buf a. length buf = rtp_buf_size \<and> send_fragments inet_ok payload sc offset first h =
    Inr (h\<lparr>rtp_sequence_number := rtp_sequence_number h + int (length ps), rtp_buf := buf, client_addr := a\<rparr>,
      stamped h ps)"
  using assms
proof (induction "length payload - offset" arbitrary: offset first h ps rule: less_induct)
  case less
  show ?case
  proof (cases "offset < length payload")
    case False
    then have "ps = []" using less.prems(4) by simp
    with False less.prems(1) show ?thesis
      by (intro exI [of _ "rtp_buf h"] exI [of _ "client_addr h"])
        (subst send_fragments.simps, simp add: handler_ok_def)
  next
    case True
    define b where "b = payload ! sc"
    define k where "k = min fragment_room (length payload - offset)"
    define body where "body = [fu_indicator b, fu_header first (offset + k = length payload) b] @ take k (drop offset payload)"
    define ps' where "ps' = fu_payloads b False (drop (offset + k) payload)"
    have k: "0 < k" "offset + k \<le> length payload" using True by (auto simp: k_def)
    have rest: "drop fragment_room (drop offset payload) = drop (offset + k) payload"
      by (auto simp: k_def min_def add.commute)
    have tk: "take fragment_room (drop offset payload) = take k (drop offset payload)"
      by (simp add: k_def take_all min_def)
    have ends: "drop (offset + k) payload = [] \<longleftrightarrow> offset + k = length payload" using k by auto
    have ps: "ps = body # ps'"
      unfolding less.prems(4) b_def [symmetric] using True rest tk ends
      by (subst fu_payloads.simps) (simp add: Let_def body_def ps'_def)
    have lenb: "length body = 2 + k" using k by (simp add: body_def)
    have "k \<le> fragment_room" by (simp add: k_def)
    then have size: "sizeof_RTPHeader + 2 + k \<le> rtp_buf_size" by (simp add: fragment_room_def rtp_sizes)
    obtain buf where buf: "length buf = rtp_buf_size"
      and tr: "transmit inet_ok h H264 (offset + k = length payload)
        [(sizeof_RTPHeader, [fu_indicator b]),
         (sizeof_RTPHeader + 1, [fu_header first (offset + k = length payload) b]),
         (sizeof_RTPHeader + 2, take k (drop offset payload))] (sizeof_RTPHeader + 2 + k) =
        Inr (h\<lparr>rtp_sequence_number := rtp_sequence_number h + 1, rtp_buf := buf, client_addr := Some (rtp_addr h)\<rparr>,
          (rtp_addr h, rtp_header_bytes (new_header h H264 (offset + k = length payload)) @ body))"
      using transmit_ok [OF less.prems(1), of "[(sizeof_RTPHeader, [fu_indicator b]),
         (sizeof_RTPHeader + 1, [fu_header first (offset + k = length payload) b]),
         (sizeof_RTPHeader + 2, take k (drop offset payload))]" body "sizeof_RTPHeader + 2 + k" H264
         "offset + k = length payload"]
        less.prems(5) size lenb by (auto simp: body_def ps)
    let ?h1 = "h\<lparr>rtp_sequence_number := rtp_sequence_number h + 1, rtp_buf := buf, client_addr := Some (rtp_addr h)\<rparr>"
    have "length payload - (offset + k) < length payload - offset" using k True by simp
    from less.hyps [OF this handler_ok_frame [OF less.prems(1) buf] less.prems(2) k(2) ps'_def [unfolded b_def],
        of "Some (rtp_addr h)" "rtp_sequence_number h + 1"]
    obtain buf' a where buf': "length buf' = rtp_buf_size"
      and rec: "send_fragments inet_ok payload sc (offset + k) False ?h1 =
        Inr (h\<lparr>rtp_sequence_number := rtp_sequence_number h + 1 + int (length ps'), rtp_buf := buf', client_addr := a\<rparr>,
          stamped ?h1 ps')"
      using less.prems(5) ps by fastforce
    have st: "stamped ?h1 ps' = stamped (h\<lparr>rtp_sequence_number := rtp_sequence_number h + 1\<rparr>) ps'"
      by (rule stamped_cong) simp_all
    have "ps' = [] \<longleftrightarrow> offset + k = length payload" unfolding ps'_def using ends by simp
    then show ?thesis
      using True tr rec buf' less.prems(2) st
      by (intro exI [of _ buf'] exI [of _ a])
        (subst send_fragments.simps, simp add: Let_def ps fragment_room_def [symmetric] k_def [symmetric] b_def [symmetric])
  qed
qed

definition nal_payloads :: "byte list \<Rightarrow> byte list list" where
  "nal_payloads nal =
     (if length nal \<le> max_payload_size then [nal] else fu_payloads (hd nal) True (tl nal))"


definition parameter_set :: "byte \<Rightarrow> bool" where
  "parameter_set b \<longleftrightarrow> b AND 0x1F = 7 \<or> b AND 0x1F = 8"

lemma start_code_length_ok:
  assumes "sc \<in> start_codes"
  shows "start_code_length (sc @ nal) = Inr (Some (length sc))"
  using assms by (auto simp: start_codes_def start_code_length_def read_at_def)

lemma length_fu_payloads: "length (fu_payloads b first data) \<le> length data"
proof (induction b first data rule: fu_payloads.induct)
  case (1 b first data)
  show ?case
  proof (cases "data = []")
    case False
    then have "length (fu_payloads b False (drop fragment_room data)) \<le> length data - fragment_room"
      using "1" by simp
    moreover have "length data - fragment_room < length data" using False by (simp add: diff_less)
    ultimately have "Suc (length (fu_payloads b False (drop fragment_room data))) \<le> length data" by linarith
    then show ?thesis using False by (subst fu_payloads.simps) (simp add: Let_def)
  qed simp
qed

lemma length_nal_payloads: "nal \<noteq> [] \<Longrightarrow> length (nal_payloads nal) \<le> length nal"
  using length_fu_payloads [of "hd nal" True "tl nal"]
  by (cases nal) (auto simp: nal_payloads_def)

lemma send_h264_ok:
  assumes "sc \<in> start_codes" and "nal \<noteq> []" and "handler_ok inet_ok h"
    and "rtp_sequence_number h + int (length nal) < 2 ^ 31"
  shows "\<exists>buf a. length buf = rtp_buf_size \<and> send_h264 inet_ok (sc @ nal) h =
    Inr (h\<lparr>rtp_sequence_number := rtp_sequence_number h + int (length (nal_payloads nal)), rtp_buf := buf,
           client_addr := a,
           timestamp := (if length nal \<le> max_payload_size \<and> parameter_set (hd nal) then timestamp h
                         else timestamp h + timestamp_increment h),
           total_rtp_packet_sent := total_rtp_packet_sent h + 1\<rparr>, stamped h (nal_payloads nal))"
proof (cases "length nal \<le> max_payload_size")
  case True
  have sc: "sc @ nal \<noteq> []" "length sc < length (sc @ nal)" "(sc @ nal) ! length sc = hd nal"
    using assms(2) by (simp_all add: nth_append hd_conv_nth)
  have "rtp_sequence_number h < 2 ^ 31 - 1" using assms(2,4) by (cases nal) auto
  from transmit_ok [OF assms(3) this, of "[(sizeof_RTPHeader, nal)]" nal "sizeof_RTPHeader + length nal" H264 True]
  obtain buf where "length buf = rtp_buf_size"
    "transmit inet_ok h H264 True [(sizeof_RTPHeader, nal)] (sizeof_RTPHeader + length nal) =
      Inr (h\<lparr>rtp_sequence_number := rtp_sequence_number h + 1, rtp_buf := buf, client_addr := Some (rtp_addr h)\<rparr>,
        (rtp_addr h, rtp_header_bytes (new_header h H264 True) @ nal))"
    using True by (auto simp: rtp_sizes)
  with True sc show ?thesis
    by (intro exI [of _ buf] exI [of _ "Some (rtp_addr h)"])
      (simp add: send_h264_def start_code_length_ok [OF assms(1)] nal_payloads_def parameter_set_def)
next
  case False
  have drp: "drop (length sc + 1) (sc @ nal) = tl nal" "(sc @ nal) ! length sc = hd nal"
    using assms(2) by (simp_all add: drop_Suc nth_append hd_conv_nth)
  have len: "rtp_sequence_number h + int (length (fu_payloads (hd nal) True (tl nal))) < 2 ^ 31"
    using length_nal_payloads [OF assms(2)] assms(4) False by (simp add: nal_payloads_def)
  have "length sc < length (sc @ nal)" "length sc + 1 \<le> length (sc @ nal)"
    using assms(2) by (cases nal; simp)+
  from send_fragments_ok [OF assms(3) this, of "fu_payloads (hd nal) True (tl nal)" True] len drp
  obtain buf a where "length buf = rtp_buf_size"
    "send_fragments inet_ok (sc @ nal) (length sc) (length sc + 1) True h =
      Inr (h\<lparr>rtp_sequence_number := rtp_sequence_number h + int (length (fu_payloads (hd nal) True (tl nal))),
             rtp_buf := buf, client_addr := a\<rparr>, stamped h (fu_payloads (hd nal) True (tl nal)))"
    by auto
  with False show ?thesis
    by (intro exI [of _ buf] exI [of _ a])
      (simp add: send_h264_def start_code_length_ok [OF assms(1)] nal_payloads_def)
qed

lemma payload_of_stamped: "map (\<lambda>d. f_payload (decode_rtp (snd d))) (stamped h ps) = ps"
  by (induction ps arbitrary: h) (auto simp: decode_sent)

lemma length_stamped [simp]: "length (stamped h ps) = length ps"
  by (induction ps arbitrary: h) auto

lemma nth_stamped:
  "i < length ps \<Longrightarrow> stamped h ps ! i =
    (rtp_addr h, rtp_header_bytes (new_header (h\<lparr>rtp_sequence_number := rtp_sequence_number h + int i\<rparr>)
       H264 (i = length ps - 1)) @ ps ! i)"
proof (induction ps arbitrary: h i)
  case (Cons p ps)
  show ?case
  proof (cases i)
    case (Suc j)
    then have "stamped (h\<lparr>rtp_sequence_number := rtp_sequence_number h + 1\<rparr>) ps ! j =
      (rtp_addr h, rtp_header_bytes (new_header (h\<lparr>rtp_sequence_number := rtp_sequence_number h + 1 + int j\<rparr>)
       H264 (j = length ps - 1)) @ ps ! j)"
      using Cons by (simp add: rtp_addr_def)
    moreover have "j = length ps - 1 \<longleftrightarrow> i = length (p # ps) - 1" using Suc Cons.prems by auto
    ultimately show ?thesis using Suc by (simp add: add.assoc)
  qed simp
qed simp

lemma fu_payloads_length:
  "p \<in> set (fu_payloads b first data) \<Longrightarrow> length p \<le> max_payload_size"
proof (induction b first data rule: fu_payloads.induct)
  case (1 b first data)
  have "2 + fragment_room \<le> max_payload_size" by (simp add: fragment_room_def rtp_sizes)
  with 1 show ?case
    by (subst (asm) (2) fu_payloads.simps) (auto simp: Let_def split: if_splits)
qed

lemma nal_payloads_length: "p \<in> set (nal_payloads nal) \<Longrightarrow> length p \<le> max_payload_size"
  by (auto simp: nal_payloads_def fu_payloads_length split: if_splits)

text \<open>How many fragments there are: the bytes after the NAL header, in pieces of \<open>fragment_room\<close>.\<close>

lemma count_fu_payloads:
  "length (fu_payloads b first data) = (length data + fragment_room - 1) div fragment_room"
proof (induction b first data rule: fu_payloads.induct)
  case (1 b first data)
  show ?case
  proof (cases "data = []")
    case False
    then have IH: "length (fu_payloads b False (drop fragment_room data)) =
        (length data - fragment_room + fragment_room - 1) div fragment_room"
      using 1 by simp
    show ?thesis
    proof (cases "length data \<le> fragment_room")
      case True
      have "(length data + fragment_room - 1) div fragment_room = 1"
        using True False by (cases data) (auto simp: div_nat_eqI)
      with True False show ?thesis by (subst fu_payloads.simps) (simp add: Let_def)
    next
      case big: False
      then have "(length data + fragment_room - 1) div fragment_room = Suc ((length data - 1) div fragment_room)"
        by (metis Suc_pred add.commute add_diff_assoc2 add_diff_cancel_left' div_add_self1 fragment_room_pos
            length_greater_0_conv less_imp_le not_less One_nat_def False Suc_leI plus_1_eq_Suc less_not_refl2)
      with IH False big show ?thesis by (subst fu_payloads.simps) (simp add: Let_def)
    qed
  qed (simp add: div_eq_0_iff)
qed

text \<open>
  A NAL unit that a receiver can tell from a fragment (RFC 6184): the forbidden bit is clear and
  the type is not FU-A.
\<close>

definition plain_nal :: "byte list \<Rightarrow> bool" where
  "plain_nal nal \<longleftrightarrow> nal \<noteq> [] \<and> \<not> bit (hd nal) 7 \<and> hd nal AND 0x1F \<noteq> 28"

lemma depacketize_nal:
  assumes "plain_nal nal"
  shows "depacketize (nal_payloads nal @ ps) [] = nal # depacketize ps []"
proof (cases "length nal \<le> max_payload_size")
  case True
  with assms show ?thesis by (cases nal) (simp_all add: nal_payloads_def plain_nal_def)
next
  case False
  then have "tl nal \<noteq> []" by (cases nal) (auto simp: rtp_sizes)
  from depacketize_fu [OF this, of "hd nal" ps] False assms show ?thesis
    by (simp add: nal_payloads_def plain_nal_def)
qed

section \<open>AAC access units\<close>

text \<open>The AU size a receiver reads: the upper 13 bits of the AU header (RFC 3640).\<close>

definition au_size :: "byte list \<Rightarrow> nat" where
  "au_size p = (unat (p ! 2) * 256 + unat (p ! 3)) div 8"

lemma nat_and_1F: "(n AND 0x1F :: nat) = n mod 32"
  using take_bit_eq_mask [of 5 n] by (simp add: take_bit_eq_mod mask_eq_exp_minus_1)

lemma nat_and_1FE0: "drop_bit 5 (n AND 0x1FE0 :: nat) = n div 32 mod 256"
proof -
  have "drop_bit 5 (n AND 0x1FE0 :: nat) = drop_bit 5 n AND 255" by simp
  also have "\<dots> = n div 32 AND 255" by (simp only: drop_bit_eq_div) simp
  also have "\<dots> = n div 32 mod 256"
    using take_bit_eq_mask [of 8 "n div 32"] by (simp add: take_bit_eq_mod mask_eq_exp_minus_1)
  finally show ?thesis .
qed

lemma au_size_au_header:
  assumes "n < 8192"
  shows "au_size (au_header n @ rest) = n"
proof -
  have hi: "n div 32 < 256" using assms by simp
  have lo: "n mod 32 * 8 < 256" using mod_less_divisor [of 32 n] by linarith
  have "unat (word_of_nat (n div 32 mod 256) :: byte) = n div 32"
    using hi by (simp only: unat_of_nat) simp
  moreover have "unat (word_of_nat (n mod 32 * 8) :: byte) = n mod 32 * 8"
    using lo by (simp only: unat_of_nat) simp
  moreover have "(n div 32) * 256 + n mod 32 * 8 = 8 * n"
    using div_mult_mod_eq [of n 32] by linarith
  moreover have "push_bit 3 (n AND 0x1F) = n mod 32 * 8"
    unfolding nat_and_1F by (simp only: push_bit_eq_mult) simp
  ultimately show ?thesis
    unfolding au_size_def au_header_def nat_and_1FE0 by simp
qed

lemma send_aac_ok:
  assumes "length payload + sizeof_RTPHeader + 4 \<le> rtp_buf_size" and "handler_ok inet_ok h"
    and "rtp_sequence_number h < 2 ^ 31 - 1"
  shows "\<exists>buf. length buf = rtp_buf_size \<and> send_aac inet_ok payload h =
    Inr (h\<lparr>rtp_sequence_number := rtp_sequence_number h + 1, rtp_buf := buf, client_addr := Some (rtp_addr h),
           timestamp := timestamp h + timestamp_increment h,
           total_rtp_packet_sent := total_rtp_packet_sent h + 1\<rparr>,
      [(rtp_addr h, rtp_header_bytes (new_header h AAC True) @ au_header (length payload) @ payload)])"
proof -
  let ?au = "au_header (length payload)"
  have au: "[?au ! 0, ?au ! 1, ?au ! 2, ?au ! 3] = ?au" by (simp add: au_header_def)
  from transmit_ok [OF assms(2,3), of "[(sizeof_RTPHeader, [?au ! 0]), (sizeof_RTPHeader + 1, [?au ! 1]),
      (sizeof_RTPHeader + 2, [?au ! 2]), (sizeof_RTPHeader + 3, [?au ! 3]), (sizeof_RTPHeader + 4, payload)]"
      "?au @ payload" "sizeof_RTPHeader + 4 + length payload" AAC True] assms(1)
  obtain buf where "length buf = rtp_buf_size"
    "transmit inet_ok h AAC True [(sizeof_RTPHeader, [?au ! 0]), (sizeof_RTPHeader + 1, [?au ! 1]),
      (sizeof_RTPHeader + 2, [?au ! 2]), (sizeof_RTPHeader + 3, [?au ! 3]), (sizeof_RTPHeader + 4, payload)]
      (sizeof_RTPHeader + 4 + length payload) =
     Inr (h\<lparr>rtp_sequence_number := rtp_sequence_number h + 1, rtp_buf := buf, client_addr := Some (rtp_addr h)\<rparr>,
      (rtp_addr h, rtp_header_bytes (new_header h AAC True) @ ?au @ payload))"
    by (auto simp: au_header_def)
  then show ?thesis
    by (intro exI [of _ buf]) (simp add: send_aac_def Let_def)
qed

section \<open>Properties\<close>

text \<open>A handler as the constructor leaves it, for the witnesses.\<close>

definition demo_handler :: rtp_handler where
  "demo_handler = \<lparr>ip = ''127.0.0.1'', rtp_port = 5000, rtcp_port = 5001, client_addr = None, ssrc = 7,
     rtp_sequence_number = 0, timestamp = 0, timestamp_increment = 3600, rtp_buf = replicate rtp_buf_size 0,
     is_running = True, rtcp_send_thread = False, rtcp_receive_thread = False, rtcp_report_blocks = [],
     total_payload_size = 0, total_rtp_packet_sent = 0\<rparr>"

lemma demo_handler_ok: "handler_ok (\<lambda>_. True) demo_handler"
  by (simp add: handler_ok_def demo_handler_def)

text \<open>
  C6 (roundtrip). A NAL unit of any size, behind either start code, reaches an H.264 receiver
  unchanged: \<open>send_h264\<close> returns, and depacketizing (RFC 6184) the payloads of the datagrams
  it sent, in order, gives exactly that NAL unit. The unit's forbidden bit must be clear, as
  in every valid stream, and its type must not be the fragment type itself; the sequence counter,
  an \<open>int\<close>, must be less than \<open>2 ^ 31\<close> minus the unit's length.
\<close>

theorem h264_roundtrip:
  assumes "sc \<in> start_codes" and "nal \<noteq> []" and "\<not> bit (hd nal) 7" and "hd nal AND 0x1F \<noteq> 28"
    and "handler_ok inet_ok h" and "rtp_sequence_number h + int (length nal) < 2 ^ 31"
  shows "\<exists>h' ds. send_h264 inet_ok (sc @ nal) h = Inr (h', ds)
    \<and> depacketize (map (\<lambda>d. f_payload (decode_rtp (snd d))) ds) [] = [nal]"
proof -
  from send_h264_ok [OF assms(1,2,5,6)] obtain h' where
    s: "send_h264 inet_ok (sc @ nal) h = Inr (h', stamped h (nal_payloads nal))" by blast
  have "depacketize (nal_payloads nal) [] = [nal]"
    using depacketize_nal [of nal "[]"] assms(2-4) by (simp add: plain_nal_def)
  with s show ?thesis by (simp add: payload_of_stamped)
qed

theorem h264_roundtrip_witness:
  "\<exists>h' ds. send_h264 (\<lambda>_. True) ([0, 0, 0, 1] @ 0x65 # replicate 3000 0xAB) demo_handler = Inr (h', ds)
    \<and> depacketize (map (\<lambda>d. f_payload (decode_rtp (snd d))) ds) [] = [0x65 # replicate 3000 0xAB]"
  by (rule h264_roundtrip) (simp_all add: start_codes_def demo_handler_ok bit_simps, simp add: demo_handler_def)

text \<open>
  C27 (bounds). Every datagram of a NAL unit is an RTP version 2 packet of payload type 96, at
  most 1024 bytes long, addressed to the client's RTP port; the packets of one unit carry the
  same timestamp and SSRC, consecutive sequence numbers modulo \<open>2 ^ 16\<close> that continue those of
  the previous unit, and the marker exactly on the last.
\<close>

theorem h264_headers:
  assumes "sc \<in> start_codes" and "nal \<noteq> []" and "handler_ok inet_ok h"
    and "rtp_sequence_number h + int (length nal) < 2 ^ 31"
  shows "\<exists>h' ds. send_h264 inet_ok (sc @ nal) h = Inr (h', ds) \<and> ds \<noteq> []
    \<and> rtp_sequence_number h' = rtp_sequence_number h + int (length ds)
    \<and> (\<forall>i < length ds. fst (ds ! i) = rtp_addr h \<and> length (snd (ds ! i)) \<le> MAX_RTP_PACKET_SIZE
        \<and> (\<exists>p. decode_rtp (snd (ds ! i)) =
             \<lparr>f_version = 2, f_marker = (i = length ds - 1), f_payload_type = 96,
              f_sequence = word_of_int (rtp_sequence_number h + int i), f_timestamp = timestamp h,
              f_ssrc = ssrc h, f_payload = p\<rparr>))"
proof -
  let ?ps = "nal_payloads nal"
  from send_h264_ok [OF assms] obtain h' where
    s: "send_h264 inet_ok (sc @ nal) h = Inr (h', stamped h ?ps)"
    and n: "rtp_sequence_number h' = rtp_sequence_number h + int (length ?ps)" by fastforce
  have ne: "?ps \<noteq> []"
    using assms(2) by (cases nal) (auto simp: nal_payloads_def rtp_sizes)
  have len: "length (?ps ! i) \<le> max_payload_size" if "i < length ?ps" for i
    using nal_payloads_length [OF nth_mem [OF that]] .
  have "MAX_RTP_PACKET_SIZE = sizeof_RTPHeader + max_payload_size" by (simp add: rtp_sizes)
  then have "fst (stamped h ?ps ! i) = rtp_addr h \<and> length (snd (stamped h ?ps ! i)) \<le> MAX_RTP_PACKET_SIZE
      \<and> (\<exists>p. decode_rtp (snd (stamped h ?ps ! i)) =
             \<lparr>f_version = 2, f_marker = (i = length ?ps - 1), f_payload_type = 96,
              f_sequence = word_of_int (rtp_sequence_number h + int i), f_timestamp = timestamp h,
              f_ssrc = ssrc h, f_payload = p\<rparr>)" if "i < length ?ps" for i
    using that len [OF that] by (simp add: nth_stamped decode_sent)
  then have "\<forall>i < length (stamped h ?ps). fst (stamped h ?ps ! i) = rtp_addr h
      \<and> length (snd (stamped h ?ps ! i)) \<le> MAX_RTP_PACKET_SIZE
      \<and> (\<exists>p. decode_rtp (snd (stamped h ?ps ! i)) =
             \<lparr>f_version = 2, f_marker = (i = length (stamped h ?ps) - 1), f_payload_type = 96,
              f_sequence = word_of_int (rtp_sequence_number h + int i), f_timestamp = timestamp h,
              f_ssrc = ssrc h, f_payload = p\<rparr>)"
    unfolding length_stamped by blast
  moreover have "stamped h ?ps \<noteq> []" using ne length_stamped [of h ?ps] by fastforce
  moreover have "rtp_sequence_number h' = rtp_sequence_number h + int (length (stamped h ?ps))" using n by simp
  ultimately show ?thesis using s by blast
qed

theorem h264_headers_witness:
  "\<exists>h' ds. send_h264 (\<lambda>_. True) ([0, 0, 1] @ replicate 2000 0x41) demo_handler = Inr (h', ds) \<and> ds \<noteq> []
    \<and> rtp_sequence_number h' = int (length ds)"
proof -
  have "[0, 0, 1] \<in> start_codes" by (simp add: start_codes_def)
  moreover have "rtp_sequence_number demo_handler + int (length (replicate 2000 (0x41 :: byte))) < 2 ^ 31"
    by (simp add: demo_handler_def)
  ultimately obtain h' ds where "send_h264 (\<lambda>_. True) ([0, 0, 1] @ replicate 2000 0x41) demo_handler = Inr (h', ds)"
    "ds \<noteq> []" "rtp_sequence_number h' = rtp_sequence_number demo_handler + int (length ds)"
    using h264_headers [of "[0, 0, 1]" "replicate 2000 0x41", OF _ _ demo_handler_ok] by force
  then show ?thesis by (simp add: demo_handler_def)
qed

text \<open>
  What a NAL unit does to the counters: the RTP clock advances by one
  increment, except for a parameter set (SPS, PPS) that fits in one packet; the packet counter
  that the sender reports carry goes up by one per NAL unit, however many packets were sent,
  which is one for up to 1012 bytes and otherwise one for each started 1010 bytes after the
  NAL header.
\<close>

lemma h264_counters:
  assumes "sc \<in> start_codes" and "nal \<noteq> []" and "handler_ok inet_ok h"
    and "rtp_sequence_number h + int (length nal) < 2 ^ 31"
  shows "\<exists>h' ds. send_h264 inet_ok (sc @ nal) h = Inr (h', ds)
    \<and> timestamp h' = (if length nal \<le> 1012 \<and> (hd nal AND 0x1F = 7 \<or> hd nal AND 0x1F = 8) then timestamp h
                      else timestamp h + timestamp_increment h)
    \<and> total_rtp_packet_sent h' = total_rtp_packet_sent h + 1
    \<and> length ds = (if length nal \<le> 1012 then 1 else (length nal + 1008) div 1010)"
proof -
  have "length (nal_payloads nal) = (if length nal \<le> 1012 then 1 else (length nal + 1008) div 1010)"
    using assms(2) by (cases nal) (simp_all add: nal_payloads_def count_fu_payloads fragment_room_def rtp_sizes)
  moreover from send_h264_ok [OF assms] obtain h' where
    "send_h264 inet_ok (sc @ nal) h = Inr (h', stamped h (nal_payloads nal))"
    and "timestamp h' = (if length nal \<le> max_payload_size \<and> parameter_set (hd nal) then timestamp h
                         else timestamp h + timestamp_increment h)"
    and "total_rtp_packet_sent h' = total_rtp_packet_sent h + 1"
    by fastforce
  moreover have "max_payload_size = 1012" by (simp add: rtp_sizes)
  ultimately show ?thesis by (simp add: parameter_set_def)
qed

lemma h264_counters_witness:
  "\<exists>h' ds. send_h264 (\<lambda>_. True) ([0, 0, 1] @ replicate 3031 0x41) demo_handler = Inr (h', ds)
    \<and> total_rtp_packet_sent h' = 1 \<and> length ds = 3"
proof -
  have "[0, 0, 1] \<in> start_codes" by (simp add: start_codes_def)
  moreover have "rtp_sequence_number demo_handler + int (length (replicate 3031 (0x41 :: byte))) < 2 ^ 31"
    by (simp add: demo_handler_def)
  ultimately obtain h' ds where "send_h264 (\<lambda>_. True) ([0, 0, 1] @ replicate 3031 0x41) demo_handler = Inr (h', ds)"
    "total_rtp_packet_sent h' = total_rtp_packet_sent demo_handler + 1" "length ds = 3"
    using h264_counters [of "[0, 0, 1]" "replicate 3031 0x41", OF _ _ demo_handler_ok] by force
  then show ?thesis by (simp add: demo_handler_def)
qed

text \<open>
  A frame that consists of a start code only (which the file reader returns for
  two adjacent start codes) makes \<open>send_h264\<close> read one byte past the end of the frame's
  allocation, after it has sent a packet without payload.
\<close>

lemma h264_empty_nal_reads_past_end:
  assumes "sc \<in> start_codes" and "handler_ok inet_ok h" and "rtp_sequence_number h < 2 ^ 31 - 1"
  shows "send_h264 inet_ok sc h = Inl (Undefined ''read past the end of a buffer'')"
proof -
  from transmit_ok [OF assms(2,3), of "[(sizeof_RTPHeader, [])]" "[]" sizeof_RTPHeader H264 True]
  obtain h' d where "transmit inet_ok h H264 True [(sizeof_RTPHeader, [])] sizeof_RTPHeader = Inr (h', d)"
    by (auto simp: rtp_sizes)
  then show ?thesis
    using start_code_length_ok [OF assms(1), of "[]"] by (simp add: send_h264_def read_at_def)
qed

text \<open>
  C28 (roundtrip). An AAC access unit of up to 1018 bytes is sent as one packet with the marker
  set, whose AU header gives a receiver the unit's size (13 bits) and whose remaining payload
  is the unit; sequence number, clock and packet counter advance by one step each.
\<close>

theorem aac_roundtrip:
  assumes "length au \<le> 1018" and "handler_ok inet_ok h" and "rtp_sequence_number h < 2 ^ 31 - 1"
  shows "\<exists>h' d p. send_aac inet_ok au h = Inr (h', [(rtp_addr h, d)])
    \<and> decode_rtp d = \<lparr>f_version = 2, f_marker = True, f_payload_type = 97,
         f_sequence = word_of_int (rtp_sequence_number h), f_timestamp = timestamp h, f_ssrc = ssrc h, f_payload = p\<rparr>
    \<and> au_size p = length au \<and> drop 4 p = au
    \<and> rtp_sequence_number h' = rtp_sequence_number h + 1
    \<and> timestamp h' = timestamp h + timestamp_increment h
    \<and> total_rtp_packet_sent h' = total_rtp_packet_sent h + 1"
proof -
  have "length au + sizeof_RTPHeader + 4 \<le> rtp_buf_size" using assms(1) by (simp add: rtp_sizes)
  moreover have "au_size (au_header (length au) @ au) = length au"
    using assms(1) by (intro au_size_au_header) simp
  moreover have "drop 4 (au_header (length au) @ au) = au" by (simp add: au_header_def)
  ultimately show ?thesis
    using send_aac_ok [OF _ assms(2,3), of au] decode_sent [of h AAC True "au_header (length au) @ au"]
    by fastforce
qed

theorem aac_roundtrip_witness:
  "\<exists>h' d. send_aac (\<lambda>_. True) [1, 2, 3] demo_handler = Inr (h', [(rtp_addr demo_handler, d)])
    \<and> drop 4 (f_payload (decode_rtp d)) = [1, 2, 3]"
proof -
  have "rtp_sequence_number demo_handler < 2 ^ 31 - 1" by (simp add: demo_handler_def)
  then obtain h' d p where "send_aac (\<lambda>_. True) [1, 2, 3] demo_handler = Inr (h', [(rtp_addr demo_handler, d)])"
    "f_payload (decode_rtp d) = p" "drop 4 p = [1, 2, 3]"
    using aac_roundtrip [of "[1, 2, 3]", OF _ demo_handler_ok] by fastforce
  then show ?thesis by auto
qed

text \<open>
  A longer access unit, up to any size an ADTS header can announce, is written
  past the end of the 1034-byte \<open>rtp_buf_\<close>: \<open>send_aac\<close> does not check the size.
\<close>

lemma aac_overflow:
  assumes "1018 < length au" and "handler_ok inet_ok h" and "rtp_sequence_number h < 2 ^ 31 - 1"
  shows "send_aac inet_ok au h = Inl (Undefined ''write past the end of a buffer'')"
proof -
  let ?au = "au_header (length au)"
  let ?pre = "[(0, rtp_header_bytes (new_header h AAC True)), (sizeof_RTPHeader, [?au ! 0]), (sizeof_RTPHeader + 1, [?au ! 1]),
      (sizeof_RTPHeader + 2, [?au ! 2]), (sizeof_RTPHeader + 3, [?au ! 3])]"
  have app: "copy_chunks buf (xs @ ys) = bind_result (copy_chunks buf xs) (\<lambda>b. copy_chunks b ys)" for buf xs ys
  proof (induction xs arbitrary: buf)
    case (Cons x xs)
    then show ?case by (cases x; cases "memcpy_at buf (fst x) (snd x)") auto
  qed simp
  have buf: "length (rtp_buf h) = rtp_buf_size" using assms(2) by (simp add: handler_ok_def)
  have "copy_chunks (rtp_buf h) ?pre = Inr (take 0 (rtp_buf h) @ concat (map snd ?pre) @
      drop (0 + length (concat (map snd ?pre))) (rtp_buf h))"
    by (rule copy_chunks_contiguous) (simp_all add: buf rtp_sizes)
  moreover have "length (take 0 (rtp_buf h) @ concat (map snd ?pre) @
      drop (0 + length (concat (map snd ?pre))) (rtp_buf h)) = rtp_buf_size"
    using buf by (simp add: rtp_sizes)
  ultimately obtain b where "copy_chunks (rtp_buf h) ?pre = Inr b" "length b = rtp_buf_size" by blast
  then have "copy_chunks (rtp_buf h) (?pre @ [(sizeof_RTPHeader + 4, au)]) =
      Inl (Undefined ''write past the end of a buffer'')"
    unfolding app using assms(1) by (simp add: memcpy_at_overflow rtp_sizes)
  then show ?thesis
    using assms(3) by (simp add: send_aac_def transmit_def bump_sequence_def Let_def)
qed

lemma aac_overflow_witness:
  "send_aac (\<lambda>_. True) (replicate 1019 0) demo_handler = Inl (Undefined ''write past the end of a buffer'')"
  by (rule aac_overflow) (simp_all add: demo_handler_ok, simp add: demo_handler_def)

end
