(* ===== verification/Rtcp.thy ===== *)
theory Rtcp
  imports RtpRtcpHandler "HOL-Library.Multiset"
begin

text \<open>
  The bodies of the two RTCP threads of RtpRtcpHandler.cpp: \<open>parse_rtcp_packet\<close> with one round
  of \<open>receive_rtcp_packet\<close>, and one round of \<open>send_rtcp_packet\<close>. Both use a 4096-byte buffer on
  the stack. The report blocks are a \<open>std::unordered_map\<close> from the SSRC, as it lies in memory,
  to the block. The buffer is modelled with all its bytes: what the datagram did not overwrite
  is whatever was there before.
\<close>

unbundle bit_operations_syntax

section \<open>Receiving\<close>

record rtcp_receiver_report = rtcp_header +
  rr_ssrc :: "32 word"

definition rtcp_buffer_size :: nat where "rtcp_buffer_size = 4096"

text \<open>\<open>memcpy\<close> out of a buffer.\<close>

definition read_slice :: "byte list \<Rightarrow> nat \<Rightarrow> nat \<Rightarrow> byte list result" where
  "read_slice buf off n =
     (if off + n \<le> length buf then Inr (take n (drop off buf))
      else Inl (Undefined ''read past the end of a buffer''))"

fun copy_report_blocks :: "byte list \<Rightarrow> nat \<Rightarrow> nat \<Rightarrow> (32 word \<times> rtcp_report_block) list \<Rightarrow>
    (32 word \<times> rtcp_report_block) list result" where
  "copy_report_blocks buffer i 0 blocks = Inr blocks"
| "copy_report_blocks buffer i (Suc k) blocks =
     bind_result (read_slice buffer (sizeof_RTCPHeader + 4 + sizeof_RTCPReportBlock * i) sizeof_RTCPReportBlock)
       (\<lambda>bs. let rb = report_block_of bs in
         copy_report_blocks buffer (i + 1) k (umap_put (rb_ssrc rb) rb blocks))"

definition parse_rtcp_packet ::
  "byte list \<Rightarrow> int \<Rightarrow> rtcp_receiver_report \<Rightarrow> rtp_handler \<Rightarrow> (bool \<times> rtcp_receiver_report \<times> rtp_handler) result" where
  "parse_rtcp_packet buffer received_bytes rr h =
     (if received_bytes < int sizeof_RTCPHeader then Inr (False, rr, h)
      else bind_result (read_slice buffer 0 sizeof_RTCPHeader) (\<lambda>hdr.
        let header = rtcp_header_of hdr in
        if rtcp_version header \<noteq> 2 \<or> packet_type header \<noteq> 201 then Inr (False, rr, h)
        else
          let rr1 = rr\<lparr>rtcp_version := rtcp_version header, packet_type := packet_type header\<rparr>;
              len = htons (rtcp_length header) in
          if received_bytes < int (sizeof_RTCPHeader + unat len * 4) then Inr (False, rr1, h)
          else bind_result (read_slice buffer sizeof_RTCPHeader 4) (\<lambda>s.
            let rr2 = rr1\<lparr>rtcp_padding := rtcp_padding header, rtcp_length := len, rr_ssrc := htonl (of_le32 s)\<rparr> in
            bind_result (copy_report_blocks buffer 0 (unat (report_count header)) (rtcp_report_blocks h)) (\<lambda>blocks.
              Inr (True, rr2, h\<lparr>rtcp_report_blocks := blocks\<rparr>)))))"

text \<open>
  One round of the loop of \<open>receive_rtcp_packet\<close>. The local \<open>rr\<close> is not initialised; when
  nothing was received its \<open>packet_type_\<close> is read all the same.
\<close>

datatype round = Again | Break

definition receive_round :: "byte list \<Rightarrow> int \<Rightarrow> rtcp_receiver_report \<Rightarrow> rtp_handler \<Rightarrow> (round \<times> rtp_handler) result" where
  "receive_round buffer received_size rr h =
     (if 0 < received_size then
        bind_result (parse_rtcp_packet buffer received_size rr h) (\<lambda>(ok, rr1, h1).
          if \<not> ok then Inr (Again, h1)
          else if packet_type rr1 = 203 then Inr (Break, h1)
          else Inr (Again, h1))
      else Inl (Undefined ''read of an uninitialised variable''))"

text \<open>The loop over the datagrams that arrive while the handler is running.\<close>

fun receive_all :: "rtcp_receiver_report \<Rightarrow> (byte list \<times> int) list \<Rightarrow> rtp_handler \<Rightarrow> rtp_handler result" where
  "receive_all rr [] h = Inr h"
| "receive_all rr ((buffer, n) # evs) h =
     (if is_running h then
        bind_result (receive_round buffer n rr h) (\<lambda>(next, h1).
          case next of Break \<Rightarrow> Inr h1 | Again \<Rightarrow> receive_all rr evs h1)
      else Inr h)"

text \<open>The body of the thread: an exception that leaves it ends the program.\<close>

definition receive_rtcp_packet :: "(string \<Rightarrow> bool) \<Rightarrow> rtcp_receiver_report \<Rightarrow> (byte list \<times> int) list \<Rightarrow> rtp_handler \<Rightarrow>
    rtp_handler result" where
  "receive_rtcp_packet inet_ok rr evs h = (if \<not> inet_ok (ip h) then Inl Terminate else receive_all rr evs h)"

section \<open>Sending\<close>

definition NTP_epoch :: nat where "NTP_epoch = 2208988800"

definition ntp_time :: "nat \<Rightarrow> nat \<Rightarrow> 64 word" where
  "ntp_time sec usec =
     push_bit 32 (word_of_nat sec + word_of_nat NTP_epoch) + (word_of_nat usec * 0x100000000) div 1000000"

fun place_blocks :: "byte list \<Rightarrow> nat \<Rightarrow> rtcp_report_block list \<Rightarrow> byte list result" where
  "place_blocks buffer i [] = Inr buffer"
| "place_blocks buffer i (rb # rbs) =
     bind_result (memcpy_at buffer (sizeof_RTCPSenderReport + i * sizeof_RTCPReportBlock) (report_block_bytes rb))
       (\<lambda>buffer'. place_blocks buffer' (i + 1) rbs)"

definition new_sender_report :: "nat \<Rightarrow> nat \<Rightarrow> 32 word \<Rightarrow> rtp_handler \<Rightarrow> rtcp_sender_report" where
  "new_sender_report sec usec ssrc0 h =
     (let n = length (rtcp_report_blocks h) in
      \<lparr>report_count = word_of_nat n, rtcp_padding = 0, rtcp_version = 2, packet_type = 200,
       rtcp_length = htons (word_of_nat (6 + 6 * n)), sr_ssrc = htonl ssrc0,
       ntp_timestamp_msw = htonl (ucast (drop_bit 32 (ntp_time sec usec))),
       ntp_timestamp_lsw = htonl (ucast (ntp_time sec usec)),
       sr_rtp_timestamp = htonl (timestamp h),
       sender_packet_count = htonl (total_rtp_packet_sent h),
       sender_octet_count = htonl (total_payload_size h)\<rparr>)"

text \<open>
  One round of the loop of \<open>send_rtcp_packet\<close>, after the five seconds' sleep. The destination is
  \<open>client_addr_\<close>, which the RTP sender fills in; \<open>None\<close> while it has never been set.
\<close>

definition send_round :: "byte list \<Rightarrow> nat \<Rightarrow> nat \<Rightarrow> 32 word \<Rightarrow> rtp_handler \<Rightarrow> (sockaddr_in option \<times> byte list) result" where
  "send_round buffer sec usec ssrc0 h =
     bind_result (memcpy_at buffer 0 (sender_report_bytes (new_sender_report sec usec ssrc0 h))) (\<lambda>buffer1.
     bind_result (place_blocks buffer1 0 (map snd (rtcp_report_blocks h))) (\<lambda>buffer2.
       Inr (client_addr h, take (sizeof_RTCPSenderReport + length (rtcp_report_blocks h) * sizeof_RTCPReportBlock) buffer2)))"

text \<open>
  The loop: each round is given the time and what the other threads have made of the handler by
  then; \<open>is_running_\<close> is tested before the sleep, on the state given with the round before.
\<close>

fun send_all :: "byte list \<Rightarrow> 32 word \<Rightarrow> (nat \<times> nat \<times> rtp_handler) list \<Rightarrow> rtp_handler \<Rightarrow>
    (sockaddr_in option \<times> byte list) list result" where
  "send_all buffer ssrc0 [] h = Inr []"
| "send_all buffer ssrc0 ((sec, usec, h1) # rounds) h =
     (if is_running h then
        bind_result (send_round buffer sec usec ssrc0 h1) (\<lambda>p.
        bind_result (send_all buffer ssrc0 rounds h1) (\<lambda>ps. Inr (p # ps)))
      else Inr [])"

definition send_rtcp_packet :: "(string \<Rightarrow> bool) \<Rightarrow> byte list \<Rightarrow> 32 word \<Rightarrow> (nat \<times> nat \<times> rtp_handler) list \<Rightarrow> rtp_handler \<Rightarrow>
    (sockaddr_in option \<times> byte list) list result" where
  "send_rtcp_packet inet_ok buffer ssrc0 rounds h =
     (if \<not> inet_ok (ip h) then Inl Terminate else send_all buffer ssrc0 rounds h)"

section \<open>Lemmas on receiving\<close>

lemmas rtcp_sizes = sizeof_RTCPHeader_def sizeof_RTCPReportBlock_def sizeof_RTCPSenderReport_def rtcp_buffer_size_def

text \<open>The slice of the buffer that holds the \<open>i\<close>-th block.\<close>

definition block_slice :: "byte list \<Rightarrow> nat \<Rightarrow> byte list" where
  "block_slice buffer i = take sizeof_RTCPReportBlock (drop (sizeof_RTCPHeader + 4 + sizeof_RTCPReportBlock * i) buffer)"

definition put_block :: "rtcp_report_block \<Rightarrow> (32 word \<times> rtcp_report_block) list \<Rightarrow> (32 word \<times> rtcp_report_block) list" where
  "put_block rb blocks = umap_put (rb_ssrc rb) rb blocks"

lemma copy_report_blocks_ok:
  assumes "sizeof_RTCPHeader + 4 + sizeof_RTCPReportBlock * (i + k) \<le> length buffer"
  shows "copy_report_blocks buffer i k blocks =
    Inr (fold put_block (map (\<lambda>j. report_block_of (block_slice buffer j)) [i..<i + k]) blocks)"
  using assms
proof (induction k arbitrary: i blocks)
  case (Suc k)
  have "[i..<i + Suc k] = i # [i + 1..<i + 1 + k]" by (simp add: upt_conv_Cons del: upt_Suc)
  moreover have "read_slice buffer (sizeof_RTCPHeader + 4 + sizeof_RTCPReportBlock * i) sizeof_RTCPReportBlock =
      Inr (block_slice buffer i)"
    using Suc.prems by (simp add: read_slice_def block_slice_def rtcp_sizes)
  ultimately show ?case
    using Suc.IH [of "i + 1"] Suc.prems by (simp add: put_block_def Let_def del: upt_Suc)
qed simp

lemma parse_rtcp_accepts:
  assumes "length buffer = rtcp_buffer_size" and "n \<le> int rtcp_buffer_size"
  defines "header \<equiv> rtcp_header_of (take sizeof_RTCPHeader buffer)"
  shows "parse_rtcp_packet buffer n rr h =
    (if int sizeof_RTCPHeader \<le> n \<and> rtcp_version header = 2 \<and> packet_type header = 201
        \<and> int (sizeof_RTCPHeader + unat (htons (rtcp_length header)) * 4) \<le> n
     then Inr (True,
       rr\<lparr>rtcp_version := 2, packet_type := 201, rtcp_padding := rtcp_padding header,
          rtcp_length := htons (rtcp_length header), rr_ssrc := htonl (of_le32 (take 4 (drop sizeof_RTCPHeader buffer)))\<rparr>,
       h\<lparr>rtcp_report_blocks := fold put_block
          (map (\<lambda>j. report_block_of (block_slice buffer j)) [0..<unat (report_count header)]) (rtcp_report_blocks h)\<rparr>)
     else Inr (False,
       if int sizeof_RTCPHeader \<le> n \<and> rtcp_version header = 2 \<and> packet_type header = 201
       then rr\<lparr>rtcp_version := 2, packet_type := 201\<rparr> else rr, h))"
proof -
  have "unat (report_count header) < 2 ^ 5" using unsigned_less [of "report_count header"] by simp
  then have "sizeof_RTCPHeader + 4 + sizeof_RTCPReportBlock * (0 + unat (report_count header)) \<le> length buffer"
    using assms(1) by (simp add: rtcp_sizes)
  from copy_report_blocks_ok [OF this] show ?thesis
    using assms by (auto simp: parse_rtcp_packet_def read_slice_def rtcp_sizes Let_def)
qed

section \<open>Lemmas on sending\<close>

lemma place_blocks_ok:
  assumes "sizeof_RTCPSenderReport + (i + length rbs) * sizeof_RTCPReportBlock \<le> length buffer"
  shows "\<exists>rest. place_blocks buffer i rbs =
    Inr (take (sizeof_RTCPSenderReport + i * sizeof_RTCPReportBlock) buffer @ concat (map report_block_bytes rbs) @ rest)"
  using assms
proof (induction rbs arbitrary: i buffer)
  case Nil
  then show ?case
    by (intro exI [of _ "drop (sizeof_RTCPSenderReport + i * sizeof_RTCPReportBlock) buffer"]) simp
next
  case (Cons rb rbs)
  let ?o = "sizeof_RTCPSenderReport + i * sizeof_RTCPReportBlock"
  let ?b = "take ?o buffer @ report_block_bytes rb @ drop (?o + sizeof_RTCPReportBlock) buffer"
  have le: "?o + sizeof_RTCPReportBlock \<le> length buffer" using Cons.prems by (simp add: rtcp_sizes)
  have "sizeof_RTCPSenderReport + (i + 1 + length rbs) * sizeof_RTCPReportBlock \<le> length ?b"
    using Cons.prems le by (simp add: rtcp_sizes)
  from Cons.IH [OF this] obtain rest where
    "place_blocks ?b (i + 1) rbs = Inr (take (?o + sizeof_RTCPReportBlock) ?b @ concat (map report_block_bytes rbs) @ rest)"
    by (auto simp: add.assoc add.commute)
  moreover have "take (?o + sizeof_RTCPReportBlock) ?b = take ?o buffer @ report_block_bytes rb"
    using le by simp
  ultimately show ?case using le by (intro exI [of _ rest]) simp
qed

lemma place_blocks_overflow:
  assumes "length buffer < sizeof_RTCPSenderReport + (i + length rbs) * sizeof_RTCPReportBlock" and "rbs \<noteq> []"
  shows "place_blocks buffer i rbs = Inl (Undefined ''write past the end of a buffer'')"
  using assms
proof (induction rbs arbitrary: i buffer)
  case (Cons rb rbs)
  let ?o = "sizeof_RTCPSenderReport + i * sizeof_RTCPReportBlock"
  show ?case
  proof (cases "?o + sizeof_RTCPReportBlock \<le> length buffer")
    case True
    then have "rbs \<noteq> []" using Cons.prems by (auto simp: rtcp_sizes)
    let ?b = "take ?o buffer @ report_block_bytes rb @ drop (?o + sizeof_RTCPReportBlock) buffer"
    have "length ?b < sizeof_RTCPSenderReport + (i + 1 + length rbs) * sizeof_RTCPReportBlock"
      using Cons.prems True by (simp add: rtcp_sizes)
    from Cons.IH [OF this \<open>rbs \<noteq> []\<close>] True show ?thesis by simp
  next
    case False
    then show ?thesis by (simp add: memcpy_at_overflow)
  qed
qed simp

lemma send_round_ok:
  assumes "length buffer = rtcp_buffer_size" and "length (rtcp_report_blocks h) \<le> 169"
  shows "send_round buffer sec usec ssrc0 h =
    Inr (client_addr h, sender_report_bytes (new_sender_report sec usec ssrc0 h) @
      concat (map report_block_bytes (map snd (rtcp_report_blocks h))))"
proof -
  let ?sr = "sender_report_bytes (new_sender_report sec usec ssrc0 h)"
  let ?rbs = "map snd (rtcp_report_blocks h)"
  let ?b = "?sr @ drop sizeof_RTCPSenderReport buffer"
  have "sizeof_RTCPSenderReport + (0 + length ?rbs) * sizeof_RTCPReportBlock \<le> length ?b"
    using assms by (simp add: rtcp_sizes)
  from place_blocks_ok [OF this] obtain rest where
    p: "place_blocks ?b 0 ?rbs = Inr (?sr @ concat (map report_block_bytes ?rbs) @ rest)" by auto
  have len: "length (concat (map report_block_bytes ?rbs)) = length ?rbs * sizeof_RTCPReportBlock"
    by (induction ?rbs) (simp_all add: length_concat sum_list_triv comp_def)
  have "memcpy_at buffer 0 ?sr = Inr ?b" using assms by (simp add: rtcp_sizes)
  then show ?thesis using p len by (simp add: send_round_def)
qed

lemma send_round_overflow:
  assumes "length buffer = rtcp_buffer_size" and "169 < length (rtcp_report_blocks h)"
  shows "send_round buffer sec usec ssrc0 h = Inl (Undefined ''write past the end of a buffer'')"
proof -
  let ?b = "sender_report_bytes (new_sender_report sec usec ssrc0 h) @ drop sizeof_RTCPSenderReport buffer"
  have "length ?b < sizeof_RTCPSenderReport + (0 + length (map snd (rtcp_report_blocks h))) * sizeof_RTCPReportBlock"
    using assms by (simp add: rtcp_sizes)
  moreover have "map snd (rtcp_report_blocks h) \<noteq> []" using assms(2) by auto
  ultimately have "place_blocks ?b 0 (map snd (rtcp_report_blocks h)) = Inl (Undefined ''write past the end of a buffer'')"
    by (rule place_blocks_overflow)
  moreover have "memcpy_at buffer 0 (sender_report_bytes (new_sender_report sec usec ssrc0 h)) = Inr ?b"
    using assms by (simp add: rtcp_sizes)
  ultimately show ?thesis by (simp add: send_round_def)
qed

text \<open>Blocks with new, pairwise different SSRCs are appended.\<close>

lemma put_block_fresh:
  "rb_ssrc rb \<notin> fst ` set blocks \<Longrightarrow> put_block rb blocks = blocks @ [(rb_ssrc rb, rb)]"
  unfolding put_block_def by (induction blocks) auto

lemma fold_put_block_fresh:
  "distinct (map fst blocks @ map rb_ssrc rbs) \<Longrightarrow>
   fold put_block rbs blocks = blocks @ map (\<lambda>rb. (rb_ssrc rb, rb)) rbs"
proof (induction rbs arbitrary: blocks)
  case (Cons rb rbs)
  have "rb_ssrc rb \<notin> fst ` set blocks" using Cons.prems by auto
  then show ?case using Cons by (simp add: put_block_fresh)
qed simp

section \<open>What the RTCP threads do\<close>

text \<open>A complete receiver report at the front of the buffer, as the two checks accept it.\<close>

definition rr_complete :: "byte list \<Rightarrow> int \<Rightarrow> bool" where
  "rr_complete buffer n \<longleftrightarrow>
     (let header = rtcp_header_of (take sizeof_RTCPHeader buffer) in
      int sizeof_RTCPHeader \<le> n \<and> rtcp_version header = 2 \<and> packet_type header = 201 \<and>
      int (sizeof_RTCPHeader + unat (htons (rtcp_length header)) * 4) \<le> n)"

definition rr_count :: "byte list \<Rightarrow> nat" where
  "rr_count buffer = unat (report_count (rtcp_header_of (take sizeof_RTCPHeader buffer)))"

lemma receive_round_accepts:
  assumes "length buffer = rtcp_buffer_size" and "0 < n" and "n \<le> int rtcp_buffer_size"
  shows "receive_round buffer n rr h =
    Inr (Again,
      if rr_complete buffer n
      then h\<lparr>rtcp_report_blocks := fold put_block
        (map (\<lambda>j. report_block_of (block_slice buffer j)) [0..<rr_count buffer]) (rtcp_report_blocks h)\<rparr>
      else h)"
  using assms parse_rtcp_accepts [OF assms(1) assms(3), of rr h]
  by (simp add: receive_round_def rr_complete_def rr_count_def Let_def)


text \<open>
  The next sender report after a receiver report echoes its blocks byte for
  byte: a receiver report with blocks of different SSRCs, on a handler with no blocks yet, makes
  the next round of \<open>send_rtcp_packet\<close> send the 28 bytes of the sender report, with the count of
  blocks, followed by the received blocks in some order, to the address RTP packets go to.
\<close>

lemma report_blocks_echoed:
  assumes "length buffer = rtcp_buffer_size" and "n \<le> int rtcp_buffer_size" and "rr_complete buffer n"
    and "distinct (map (\<lambda>j. of_le32 (block_slice buffer j)) [0..<rr_count buffer])"
    and "rtcp_report_blocks h = []" and "length out = rtcp_buffer_size"
  shows "\<exists>h' blocks. receive_round buffer n rr h = Inr (Again, h')
    \<and> send_round out sec usec ssrc0 h' =
        Inr (client_addr h, sender_report_bytes (new_sender_report sec usec ssrc0 h') @ concat blocks)
    \<and> unat (report_count (new_sender_report sec usec ssrc0 h')) = rr_count buffer
    \<and> mset blocks = mset (map (block_slice buffer) [0..<rr_count buffer])"
proof -
  let ?slices = "map (block_slice buffer) [0..<rr_count buffer]"
  let ?rbs = "map report_block_of ?slices"
  define h' where "h' = h\<lparr>rtcp_report_blocks := map (\<lambda>rb. (rb_ssrc rb, rb)) ?rbs\<rparr>"
  have pos: "0 < n" using assms(3) by (auto simp: rr_complete_def Let_def rtcp_sizes)
  have "fold put_block ?rbs [] = map (\<lambda>rb. (rb_ssrc rb, rb)) ?rbs"
    using assms(4) by (subst fold_put_block_fresh) (simp_all add: comp_def report_block_of_def)
  then have recv: "receive_round buffer n rr h = Inr (Again, h')"
    using receive_round_accepts [OF assms(1) pos assms(2)] assms(3,5) by (simp add: h'_def comp_def)
  have few: "rr_count buffer < 2 ^ 5"
    using unsigned_less [of "report_count (rtcp_header_of (take sizeof_RTCPHeader buffer))"]
    by (simp add: rr_count_def)
  have same: "map (\<lambda>j. report_block_bytes (report_block_of (block_slice buffer j))) [0..<rr_count buffer] = ?slices"
    using assms(1) few by (intro map_cong refl report_block_copy) (auto simp: block_slice_def rtcp_sizes)
  have "length (rtcp_report_blocks h') \<le> 169" using few by (simp add: h'_def)
  from send_round_ok [OF assms(6) this] have
    "send_round out sec usec ssrc0 h' =
      Inr (client_addr h', sender_report_bytes (new_sender_report sec usec ssrc0 h') @ concat ?slices)"
    using same by (simp add: h'_def comp_def)
  moreover have "unat (report_count (new_sender_report sec usec ssrc0 h')) = rr_count buffer"
    using few by (simp add: new_sender_report_def h'_def Let_def unat_of_nat take_bit_eq_mod)
  ultimately show ?thesis using recv by (intro exI [of _ h'] exI [of _ ?slices]) (simp add: h'_def)
qed

text \<open>The datagram of a receiver report with one block, of SSRC \<open>s\<close>, at the front of the buffer.\<close>

definition rr_packet :: "32 word \<Rightarrow> byte list" where
  "rr_packet s = [0x81, 201, 0, 7, 0, 0, 0, 1] @ report_block_bytes (report_block_of (le32 s @ replicate 20 0))
     @ replicate 4064 0"

lemma rr_packet_image:
  "rr_packet s = [0x81, 201, 0, 7, 0, 0, 0, 1] @ (le32 s @ replicate 20 0) @ replicate 4064 0"
proof -
  have "length (le32 s @ replicate 20 0) = sizeof_RTCPReportBlock"
    by (simp add: le32_def sizeof_RTCPReportBlock_def)
  from report_block_copy [OF this] show ?thesis by (simp add: rr_packet_def)
qed

lemma rr_packet_header: "take 4 (rr_packet s) = [0x81, 201, 0, 7]"
  by (simp add: rr_packet_image)

lemma rr_packet_facts:
  "length (rr_packet s) = rtcp_buffer_size" "rr_complete (rr_packet s) 32" "rr_count (rr_packet s) = 1"
  "block_slice (rr_packet s) 0 = le32 s @ replicate 20 0"
proof -
  show "length (rr_packet s) = rtcp_buffer_size" by (simp add: rr_packet_image le32_def rtcp_sizes)
  have "rtcp_header_of [0x81, 201, 0, 7] = \<lparr>report_count = 1, rtcp_padding = 0, rtcp_version = 2, packet_type = 201, rtcp_length = 0x0700\<rparr>"
    by code_simp
  moreover have "htons 0x0700 = 7" by code_simp
  ultimately show "rr_complete (rr_packet s) 32" "rr_count (rr_packet s) = 1"
    by (simp_all add: rr_complete_def rr_count_def rr_packet_header sizeof_RTCPHeader_def)
  show "block_slice (rr_packet s) 0 = le32 s @ replicate 20 0"
    by (simp add: block_slice_def rr_packet_image rtcp_sizes le32_def)
qed

lemma receive_rr_packet:
  "receive_round (rr_packet s) 32 rr h =
     Inr (Again, h\<lparr>rtcp_report_blocks := put_block (report_block_of (le32 s @ replicate 20 0)) (rtcp_report_blocks h)\<rparr>)"
  using receive_round_accepts [OF rr_packet_facts(1), of 32 s rr h]
  by (simp add: rr_packet_facts rtcp_buffer_size_def)

lemma receive_flood:
  assumes "is_running h"
  shows "receive_all rr (map (\<lambda>s. (rr_packet s, 32)) ss) h =
    Inr (h\<lparr>rtcp_report_blocks := fold put_block (map (\<lambda>s. report_block_of (le32 s @ replicate 20 0)) ss) (rtcp_report_blocks h)\<rparr>)"
  using assms
proof (induction ss arbitrary: h)
  case (Cons s ss)
  show ?case using Cons.IH [of "h\<lparr>rtcp_report_blocks := put_block (report_block_of (le32 s @ replicate 20 0)) (rtcp_report_blocks h)\<rparr>"]
      Cons.prems by (simp add: receive_rr_packet)
qed simp

text \<open>
  The 4096-byte buffer of \<open>send_rtcp_packet\<close> holds a sender report with 169 blocks,
  and nothing limits the table of blocks: after receiver reports from more than 169 different
  SSRCs, 32 bytes each, the next sender report is written past the end of the buffer on the
  stack of the RTCP thread; up to 169 it is sent whole.
\<close>

lemma report_flood_overflows:
  assumes "distinct ss" and "is_running h" and "rtcp_report_blocks h = []" and "length out = rtcp_buffer_size"
  shows "\<exists>h'. receive_all rr (map (\<lambda>s. (rr_packet s, 32)) ss) h = Inr h'
    \<and> length (rtcp_report_blocks h') = length ss
    \<and> (169 < length ss \<longrightarrow>
        send_round out sec usec ssrc0 h' = Inl (Undefined ''write past the end of a buffer''))
    \<and> (length ss \<le> 169 \<longrightarrow>
        (\<exists>d. send_round out sec usec ssrc0 h' = Inr (client_addr h, d) \<and> length d = 28 + 24 * length ss))"
proof -
  let ?rbs = "map (\<lambda>s. report_block_of (le32 s @ replicate 20 0)) ss"
  define h' where "h' = h\<lparr>rtcp_report_blocks := map (\<lambda>rb. (rb_ssrc rb, rb)) ?rbs\<rparr>"
  have "map rb_ssrc ?rbs = ss" by (simp add: comp_def report_block_of_def of_le32_le32)
  then have "fold put_block ?rbs [] = map (\<lambda>rb. (rb_ssrc rb, rb)) ?rbs"
    using assms(1) by (subst fold_put_block_fresh) simp_all
  then have recv: "receive_all rr (map (\<lambda>s. (rr_packet s, 32)) ss) h = Inr h'"
    using receive_flood [OF assms(2)] assms(3) by (simp add: h'_def)
  have len: "length (rtcp_report_blocks h') = length ss" by (simp add: h'_def)
  have bytes: "length (concat (map report_block_bytes rbs)) = 24 * length rbs" for rbs
    by (induction rbs) (simp_all add: sizeof_RTCPReportBlock_def)
  have "\<exists>d. send_round out sec usec ssrc0 h' = Inr (client_addr h, d) \<and> length d = 28 + 24 * length ss"
    if "length ss \<le> 169"
    using send_round_ok [OF assms(4), of h'] that len bytes [of "map snd (rtcp_report_blocks h')"]
    by (simp add: h'_def sizeof_RTCPSenderReport_def)
  moreover have "send_round out sec usec ssrc0 h' = Inl (Undefined ''write past the end of a buffer'')"
    if "169 < length ss" using send_round_overflow [OF assms(4)] that len by simp
  ultimately show ?thesis using recv len by auto
qed

text \<open>
  When \<open>recvfrom\<close> returns without data (an error, or the socket shut down by
  \<open>stop\<close>), the receiver tests the packet type of a report it has not filled in: an uninitialised
  variable decides whether the loop goes on.
\<close>

lemma nothing_received_reads_uninitialised:
  assumes "is_running h" and "n \<le> 0"
  shows "receive_all rr ((buffer, n) # evs) h = Inl (Undefined ''read of an uninitialised variable'')"
  using assms by (simp add: receive_round_def)

section \<open>Witnesses\<close>

definition demo_rr :: rtcp_receiver_report where
  "demo_rr = \<lparr>report_count = 0, rtcp_padding = 0, rtcp_version = 0, packet_type = 0, rtcp_length = 0, rr_ssrc = 0\<rparr>"

definition running_handler :: rtp_handler where
  "running_handler = demo_handler\<lparr>is_running := True, rtcp_report_blocks := []\<rparr>"

lemma distinct_ssrcs: "distinct (map (word_of_nat :: nat \<Rightarrow> 32 word) [0..<170])"
proof -
  have "inj_on (word_of_nat :: nat \<Rightarrow> 32 word) {0..<170}"
    by (rule inj_onI, drule arg_cong [of _ _ unat]) (simp add: unat_of_nat)
  then show ?thesis by (simp add: distinct_map)
qed


lemma report_blocks_echoed_witness:
  "\<exists>h' blocks. receive_round (rr_packet 5) 32 demo_rr running_handler = Inr (Again, h')
    \<and> send_round (replicate 4096 0) 0 0 9 h' =
        Inr (client_addr running_handler, sender_report_bytes (new_sender_report 0 0 9 h') @ concat blocks)
    \<and> unat (report_count (new_sender_report 0 0 9 h')) = rr_count (rr_packet 5)
    \<and> mset blocks = mset (map (block_slice (rr_packet 5)) [0..<rr_count (rr_packet 5)])"
  by (rule report_blocks_echoed) (simp_all add: rr_packet_facts running_handler_def, simp_all add: rtcp_buffer_size_def)

lemma report_flood_overflows_witness:
  "\<exists>h'. receive_all demo_rr (map (\<lambda>s. (rr_packet s, 32)) (map word_of_nat [0..<170])) running_handler = Inr h'
    \<and> send_round (replicate 4096 0) 0 0 9 h' = Inl (Undefined ''write past the end of a buffer'')"
proof -
  have "is_running running_handler" "rtcp_report_blocks running_handler = []"
    "length (replicate 4096 (0 :: byte)) = rtcp_buffer_size"
    by (simp_all add: running_handler_def rtcp_buffer_size_def)
  from report_flood_overflows [OF distinct_ssrcs this, of demo_rr 0 0 9] obtain h' where
    "receive_all demo_rr (map (\<lambda>s. (rr_packet s, 32)) (map word_of_nat [0..<170])) running_handler = Inr h'"
    "169 < length (map (word_of_nat :: nat \<Rightarrow> 32 word) [0..<170]) \<longrightarrow>
      send_round (replicate 4096 0) 0 0 9 h' = Inl (Undefined ''write past the end of a buffer'')" by blast
  moreover have "169 < length (map (word_of_nat :: nat \<Rightarrow> 32 word) [0..<170])" by simp
  ultimately show ?thesis by blast
qed

end
