(* ===== verification/PortPool.thy ===== *)
theory PortPool
  imports Prelude "HOL-Library.Multiset"
begin

text \<open>
  PortPool.h: the pool of even UDP ports from which a SETUP takes the server's RTP port (the
  RTCP port is the next one). A pool is a queue of ports; every operation runs under one mutex,
  so it is one function on the state. The locale \<open>port_source\<close> is what a client may assume: the
  conservation of ports is proved in it, for any sequence of allocations and releases.
\<close>

section \<open>The contract\<close>

locale port_source =
  fixes alloc :: "'s \<Rightarrow> int \<times> 's"
    and give_back :: "int \<Rightarrow> 's \<Rightarrow> 's"
    and free :: "'s \<Rightarrow> int list"
  assumes alloc_none: "free s = [] \<Longrightarrow> fst (alloc s) = -1 \<and> free (snd (alloc s)) = []"
    and alloc_first: "free s = p # ps \<Longrightarrow> fst (alloc s) = p \<and> free (snd (alloc s)) = ps"
    and free_give_back: "free (give_back p s) = free s @ [p]"

text \<open>
  A client's run: it keeps the list of the ports it holds, and gives back only what it holds.
\<close>

datatype port_op = Allocate | Release int

fun port_run :: "('s \<Rightarrow> int \<times> 's) \<Rightarrow> (int \<Rightarrow> 's \<Rightarrow> 's) \<Rightarrow> port_op list \<Rightarrow> int list \<Rightarrow> 's \<Rightarrow> int list \<times> 's" where
  "port_run alloc give_back [] held s = (held, s)"
| "port_run alloc give_back (Allocate # ops) held s =
     (let (p, s') = alloc s in
      if p = -1 then port_run alloc give_back ops held s'
      else port_run alloc give_back ops (p # held) s')"
| "port_run alloc give_back (Release p # ops) held s =
     (if p \<in> set held then port_run alloc give_back ops (remove1 p held) (give_back p s)
      else port_run alloc give_back ops held s)"

text \<open>The answers of \<open>n\<close> allocations in a row.\<close>

fun alloc_many :: "('s \<Rightarrow> int \<times> 's) \<Rightarrow> nat \<Rightarrow> 's \<Rightarrow> int list" where
  "alloc_many alloc 0 s = []"
| "alloc_many alloc (Suc n) s = (let (p, s') = alloc s in p # alloc_many alloc n s')"

context port_source begin

lemma ports_conserved:
  "port_run alloc give_back ops held s = (held', s') \<Longrightarrow> -1 \<notin> set (held @ free s) \<Longrightarrow>
   mset held' + mset (free s') = mset held + mset (free s)"
proof (induction ops arbitrary: held s)
  case (Cons x ops)
  show ?case
  proof (cases x)
    case Allocate
    obtain p s1 where a: "alloc s = (p, s1)" by (cases "alloc s")
    show ?thesis
    proof (cases "free s")
      case Nil
      with alloc_none [OF Nil] Cons Allocate a show ?thesis by simp
    next
      case (Cons q qs)
      with alloc_first [OF Cons] Cons.IH [of "p # held" s1] Cons.prems Allocate a show ?thesis by auto
    qed
  next
    case (Release p)
    show ?thesis
    proof (cases "p \<in> set held")
      case True
      have "-1 \<notin> set (remove1 p held @ free (give_back p s))"
        using Cons.prems(2) True by (auto simp: free_give_back dest: notin_set_remove1 [rotated] set_remove1_subset [THEN subsetD])
      with Cons.IH [of "remove1 p held" "give_back p s"] Cons.prems Release True show ?thesis
        by (simp add: free_give_back)
    next
      case False
      with Cons Release show ?thesis by simp
    qed
  qed
qed simp

lemma ports_not_shared:
  assumes "port_run alloc give_back ops [] s = (held, s')" and "distinct (free s)" and "-1 \<notin> set (free s)"
  shows "distinct (held @ free s') \<and> set (held @ free s') = set (free s)"
proof -
  have "mset (held @ free s') = mset (free s)"
    using ports_conserved [OF assms(1)] assms(3) by simp
  then show ?thesis using assms(2) by (metis mset_eq_imp_distinct_iff mset_eq_setD)
qed

lemma alloc_many_answers:
  "alloc_many alloc n s = take n (free s) @ replicate (n - length (free s)) (-1)"
proof (induction n arbitrary: s)
  case (Suc n)
  show ?case
  proof (cases "free s")
    case Nil
    with alloc_none [OF Nil] Suc.IH [of "snd (alloc s)"] show ?thesis by (simp add: case_prod_unfold Let_def)
  next
    case (Cons p ps)
    with alloc_first [OF Cons] Suc.IH [of "snd (alloc s)"] show ?thesis by (simp add: case_prod_unfold Let_def)
  qed
qed simp

end

section \<open>The pool\<close>

text \<open>
  The loop variable is an \<open>int\<close> in the program. Ports are at most 65535, so \<open>i += 2\<close> does not
  overflow; ranges that end near \<open>INT_MAX\<close> are not modelled.
\<close>

record port_pool =
  available_ports :: "int list"

function push_ports :: "int \<Rightarrow> int \<Rightarrow> port_pool \<Rightarrow> port_pool" where
  "push_ports i end_port pool =
     (if i \<le> end_port then push_ports (i + 2) end_port (pool\<lparr>available_ports := available_ports pool @ [i]\<rparr>)
      else pool)"
  by auto
termination by (relation "measure (\<lambda>(i, end_port, _). nat (end_port + 1 - i))") auto

declare push_ports.simps [simp del]

definition new_port_pool :: "int \<Rightarrow> int \<Rightarrow> port_pool" where
  "new_port_pool start_port end_port = push_ports start_port end_port \<lparr>available_ports = []\<rparr>"

definition allocate_port_pair :: "port_pool \<Rightarrow> int \<times> port_pool" where
  "allocate_port_pair pool =
     (case available_ports pool of
        [] \<Rightarrow> (-1, pool)
      | port_pair # rest \<Rightarrow> (port_pair, pool\<lparr>available_ports := rest\<rparr>))"

definition release_port_pair :: "int \<Rightarrow> port_pool \<Rightarrow> port_pool" where
  "release_port_pair port_pair pool = pool\<lparr>available_ports := available_ports pool @ [port_pair]\<rparr>"

interpretation pool: port_source allocate_port_pair release_port_pair available_ports
  by unfold_locales (auto simp: allocate_port_pair_def release_port_pair_def)

lemma push_ports_range:
  "available_ports (push_ports i end_port pool) =
     available_ports pool @ map (\<lambda>k. i + 2 * int k) [0..<nat ((end_port - i) div 2 + 1)]"
proof (induction i end_port pool rule: push_ports.induct)
  case (1 i end_port pool)
  show ?case
  proof (cases "i \<le> end_port")
    case True
    define m where "m = nat ((end_port - (i + 2)) div 2 + 1)"
    have "nat ((end_port - i) div 2 + 1) = Suc m" using True unfolding m_def by linarith
    moreover have "map (\<lambda>k. i + 2 * int k) [0..<Suc m] = i # map (\<lambda>k. i + 2 + 2 * int k) [0..<m]"
      by (simp add: map_upt_Suc algebra_simps del: upt_Suc)
    ultimately show ?thesis using 1 [folded m_def] True
      by (subst push_ports.simps) (simp del: upt_Suc)
  next
    case False
    then have "nat ((end_port - i) div 2 + 1) = 0" by linarith
    with False show ?thesis by (subst push_ports.simps) simp
  qed
qed

lemma new_port_pool_ports:
  "available_ports (new_port_pool start_port end_port) =
     map (\<lambda>k. start_port + 2 * int k) [0..<nat ((end_port - start_port) div 2 + 1)]"
  by (simp add: new_port_pool_def push_ports_range)

lemma new_port_pool_ok:
  assumes "0 \<le> start_port"
  shows "distinct (available_ports (new_port_pool start_port end_port))"
    "-1 \<notin> set (available_ports (new_port_pool start_port end_port))"
  using assms by (auto simp: new_port_pool_ports distinct_map intro: inj_onI)

section \<open>What the pool guarantees\<close>

text \<open>
  C33 (safety). Whatever allocations and releases its clients make, as long as they release only
  ports they hold, no port of the pool is ever held twice, or held and free at the same time,
  and none is lost: the held ports and the free ones are exactly those the pool started with.
\<close>

theorem ports_never_shared:
  assumes "0 \<le> start_port"
    and "port_run allocate_port_pair release_port_pair ops [] (new_port_pool start_port end_port) = (held, pool')"
  shows "distinct (held @ available_ports pool')
    \<and> set (held @ available_ports pool') = {p. start_port \<le> p \<and> p \<le> end_port \<and> even (p - start_port)}"
proof -
  have "set (available_ports (new_port_pool start_port end_port)) = {p. start_port \<le> p \<and> p \<le> end_port \<and> even (p - start_port)}"
  proof (intro equalityI subsetI)
    fix p assume "p \<in> {p. start_port \<le> p \<and> p \<le> end_port \<and> even (p - start_port)}"
    then have "p = start_port + 2 * int (nat ((p - start_port) div 2))" "nat ((p - start_port) div 2) < nat ((end_port - start_port) div 2 + 1)"
      by (auto simp: zdiv_mono1 nat_less_iff elim!: evenE)
    then show "p \<in> set (available_ports (new_port_pool start_port end_port))"
      unfolding new_port_pool_ports by (metis (no_types, lifting) atLeastLessThan_iff image_eqI le0 set_map set_upt)
  qed (auto simp: new_port_pool_ports)
  with pool.ports_not_shared [OF assms(2) new_port_pool_ok [OF assms(1)]] show ?thesis by simp
qed

text \<open>
  A pool from which nothing is given back answers its ports in order, two apart,
  and then -1 for ever. The server's pool, from 15000 to 16000, serves 501 allocations.
\<close>

lemma ports_run_out:
  "alloc_many allocate_port_pair n (new_port_pool 15000 16000) =
     map (\<lambda>k. if k < 501 then 15000 + 2 * int k else -1) [0..<n]"
proof (rule nth_equalityI)
  show "length (alloc_many allocate_port_pair n (new_port_pool 15000 16000)) =
      length (map (\<lambda>k. if k < 501 then 15000 + 2 * int k else -1) [0..<n])"
    by (simp add: pool.alloc_many_answers new_port_pool_ports)
next
  fix i assume "i < length (alloc_many allocate_port_pair n (new_port_pool 15000 16000))"
  then show "alloc_many allocate_port_pair n (new_port_pool 15000 16000) ! i =
      map (\<lambda>k. if k < 501 then 15000 + 2 * int k else -1) [0..<n] ! i"
    by (auto simp: pool.alloc_many_answers new_port_pool_ports nth_append take_map del: upt_Suc)
qed

theorem ports_never_shared_witness:
  "\<exists>held pool'. port_run allocate_port_pair release_port_pair [Allocate, Allocate, Release 15002] []
       (new_port_pool 15000 15010) = (held, pool')
     \<and> held = [15000] \<and> available_ports pool' = [15004, 15006, 15008, 15010, 15002]
     \<and> distinct (held @ available_ports pool')"
proof -
  have run: "port_run allocate_port_pair release_port_pair [Allocate, Allocate, Release 15002] [] (new_port_pool 15000 15010) =
      ([15000], \<lparr>available_ports = [15004, 15006, 15008, 15010, 15002]\<rparr>)"
    by code_simp
  have "(0 :: int) \<le> 15000" by simp
  from conjunct1 [OF ports_never_shared [OF this run]]
  have "distinct ([15000] @ available_ports \<lparr>available_ports = [15004, 15006, 15008, 15010, 15002]\<rparr>)" .
  with run show ?thesis by (intro exI conjI) (assumption, simp_all)
qed

end
