(* ===== verification/Session.thy ===== *)
theory Session
  imports MediaSource RtpRtcpHandler Rtcp PortPool
begin

text \<open>
  Session.h/.cpp and SessionManager.h/.cpp. A session holds, for each track it has set up, a
  \<open>SessionHandler\<close>: the shared track (an address of the heap), the RTP/RTCP handler, and the
  sender thread, whose lambda in \<open>Session::start\<close> is the step function \<open>sender_step\<close>. The methods
  that connection threads call are atomic between the steps of senders and producers; a join
  runs the joined thread until it has returned, and is \<open>Wait\<close> when that thread waits for
  another one. The manager's state is the \<open>world\<close>, with the media sources and the port pool.
\<close>

datatype sender =
    At_Test           \<comment> \<open>at \<open>while (v->is_active_)\<close>\<close>
  | In_Get            \<comment> \<open>in \<open>get_next_frame\<close>\<close>
  | Sender_Returned   \<comment> \<open>returned, but not joined\<close>

record session_handler =
  handler_active :: bool
  handler_track_name :: string
  sender_thread :: "sender option"
  handler_track :: nat
  handler_rtp :: rtp_handler

record session =
  session_id :: string
  session_handlers :: "(string \<times> session_handler) list"

definition new_session :: "string \<Rightarrow> session" where
  "new_session sid = \<lparr>session_id = sid, session_handlers = []\<rparr>"

section \<open>Adding a track\<close>

text \<open>
  The track registers the session before the \<open>RtpRtcpHandler\<close> is constructed, and an exception of
  its constructor leaves it registered. Assigning to the map releases the handler of an
  earlier set-up of the same track, and with it its thread object.
\<close>

definition session_add_media_track ::
  "(sys_call \<Rightarrow> bool) \<Rightarrow> 32 word \<Rightarrow> byte list \<Rightarrow> string \<Rightarrow> nat \<Rightarrow> int \<Rightarrow> int \<Rightarrow> string \<Rightarrow> int \<Rightarrow> int \<Rightarrow>
   media_track list \<times> session \<Rightarrow> (media_track list \<times> session) \<times> unit outcome" where
  "session_add_media_track sys random_ssrc rtp_buf0 track a server_rtp_port server_rtcp_port client_ip
     client_rtp_port client_rtcp_port hs =
     (let (h, s) = hs;
          h1 = h[a := track_register_session (session_id s) (h ! a)] in
      case rtp_rtcp_handler sys random_ssrc rtp_buf0 server_rtp_port server_rtcp_port client_ip
             client_rtp_port client_rtcp_port (track_timestamp_increment (h ! a)) of
        Inl e \<Rightarrow> ((h1, s), Fail e)
      | Inr rtp \<Rightarrow>
          let v = \<lparr>handler_active = False, handler_track_name = track, sender_thread = None,
                   handler_track = a, handler_rtp = rtp\<rparr> in
          case map_of (session_handlers s) track of
            Some old \<Rightarrow>
              (if sender_thread old \<noteq> None then ((h1, s), Fail Terminate)
               else ((h1, s\<lparr>session_handlers := umap_put track v (session_handlers s)\<rparr>), Done ()))
          | None \<Rightarrow> ((h1, s\<lparr>session_handlers := umap_put track v (session_handlers s)\<rparr>), Done ()))"

section \<open>The sender thread\<close>

text \<open>
  An exception that leaves the lambda ends the program. The second component is what the step
  sends.
\<close>

definition sender_step :: "(string \<Rightarrow> bool) \<Rightarrow> string \<Rightarrow> media_track list \<times> session_handler \<Rightarrow>
    ((media_track list \<times> session_handler) \<times> datagram list) outcome" where
  "sender_step inet_ok sid hv =
     (let (h, v) = hv in
      case sender_thread v of
        Some At_Test \<Rightarrow>
          Done ((h, v\<lparr>sender_thread := Some (if handler_active v then In_Get else Sender_Returned)\<rparr>), [])
      | Some In_Get \<Rightarrow>
          (case track_get_next_frame sid (h ! handler_track v) of
             (t, Done None) \<Rightarrow> Done ((h[handler_track v := t], v\<lparr>sender_thread := Some Sender_Returned\<rparr>), [])
           | (t, Done (Some f)) \<Rightarrow>
               (case send_rtp_packet inet_ok f (track_media_type (h ! handler_track v)) (handler_rtp v) of
                  Inl (Runtime_Error m) \<Rightarrow> Fail Terminate
                | Inl e \<Rightarrow> Fail e
                | Inr (rtp, ds) \<Rightarrow>
                    Done ((h[handler_track v := t], v\<lparr>sender_thread := Some At_Test, handler_rtp := rtp\<rparr>), ds))
           | (t, Wait) \<Rightarrow> Wait
           | (t, Fail e) \<Rightarrow> Fail e)
      | _ \<Rightarrow> Wait)"

text \<open>
  \<open>join\<close> when \<open>is_active_\<close> is false: a sender in \<open>get_next_frame\<close> comes back with at most one
  frame, sends it, and leaves the loop at its test.
\<close>

fun run_sender :: "(string \<Rightarrow> bool) \<Rightarrow> string \<Rightarrow> nat \<Rightarrow> media_track list \<times> session_handler \<Rightarrow>
    ((media_track list \<times> session_handler) \<times> datagram list) outcome" where
  "run_sender inet_ok sid k hv =
     (if sender_thread (snd hv) = Some Sender_Returned then Done (hv, [])
      else case k of
          0 \<Rightarrow> Wait
        | Suc j \<Rightarrow>
            (case sender_step inet_ok sid hv of
               Done (hv1, ds) \<Rightarrow>
                 (case run_sender inet_ok sid j hv1 of
                    Done (hv2, ds') \<Rightarrow> Done (hv2, ds @ ds') | r \<Rightarrow> r)
             | Wait \<Rightarrow> Wait
             | Fail e \<Rightarrow> Fail e))"

declare run_sender.simps [simp del]

section \<open>start, pause, stop\<close>

text \<open>
  One iteration of the loop of \<open>start\<close>. The new sender is created before the assignment destroys
  the old thread object, and \<open>stop\<close> of the RTP/RTCP handler follows at once. The step is atomic here:
  the RTCP threads do nothing between \<open>start\<close> and \<open>stop\<close>. In the program one of them can pass
  \<open>while (is_running_)\<close> once before \<open>stop\<close> clears it; then \<open>stop\<close>, which joins it, takes the five
  seconds of its pause (or the one second of a receive), and one report can be sent or read.
\<close>

definition start_handler :: "(string \<Rightarrow> byte list option) \<Rightarrow> media_track list \<times> session_handler \<Rightarrow>
    (media_track list \<times> session_handler) \<times> unit outcome" where
  "start_handler files hv =
     (let (h, v) = hv in
      if handler_active v then (hv, Done ())
      else
        let v1 = v\<lparr>handler_active := True\<rparr>; a = handler_track v in
        case track_start files (h ! a) of
          (t, Done _) \<Rightarrow>
            (case rtp_start (handler_rtp v1) of
               Inl e \<Rightarrow> ((h[a := t], v1), Fail e)
             | Inr rtp \<Rightarrow>
                 if sender_thread v1 \<noteq> None then ((h[a := t], v1\<lparr>handler_rtp := rtp\<rparr>), Fail Terminate)
                 else ((h[a := t], v1\<lparr>sender_thread := Some At_Test, handler_rtp := rtp_stop rtp\<rparr>), Done ()))
        | (t, r) \<Rightarrow> ((h[a := t], v1), r))"

fun start_handlers :: "(string \<Rightarrow> byte list option) \<Rightarrow> (string \<times> session_handler) list \<Rightarrow> media_track list \<Rightarrow>
    (media_track list \<times> (string \<times> session_handler) list) \<times> unit outcome" where
  "start_handlers files [] h = ((h, []), Done ())"
| "start_handlers files ((k, v) # m) h =
     (case start_handler files (h, v) of
        ((h1, v1), Done _) \<Rightarrow>
          (let ((h2, m2), r) = start_handlers files m h1 in ((h2, (k, v1) # m2), r))
      | ((h1, v1), r) \<Rightarrow> ((h1, (k, v1) # m), r))"

definition session_start :: "(string \<Rightarrow> byte list option) \<Rightarrow> media_track list \<times> session \<Rightarrow>
    (media_track list \<times> session) \<times> unit outcome" where
  "session_start files hs =
     (let (h, s) = hs; ((h1, m), r) = start_handlers files (session_handlers s) h in
      ((h1, s\<lparr>session_handlers := m\<rparr>), r))"

definition session_pause :: "session \<Rightarrow> session" where
  "session_pause s = s\<lparr>session_handlers := map_values (\<lambda>v. v\<lparr>handler_active := False\<rparr>) (session_handlers s)\<rparr>"

definition stop_handler :: "(string \<Rightarrow> bool) \<Rightarrow> string \<Rightarrow> media_track list \<times> session_handler \<Rightarrow>
    ((media_track list \<times> session_handler) \<times> datagram list) outcome" where
  "stop_handler inet_ok sid hv =
     (let (h, v) = hv; v1 = v\<lparr>handler_active := False\<rparr> in
      if sender_thread v1 = None then Done ((h, v1), [])
      else case run_sender inet_ok sid 2 (h, v1) of
          Done ((h2, v2), ds) \<Rightarrow> Done ((h2, v2\<lparr>sender_thread := None\<rparr>), ds)
        | r \<Rightarrow> r)"

fun stop_handlers :: "(string \<Rightarrow> bool) \<Rightarrow> string \<Rightarrow> (string \<times> session_handler) list \<Rightarrow> media_track list \<Rightarrow>
    ((media_track list \<times> (string \<times> session_handler) list) \<times> datagram list) outcome" where
  "stop_handlers inet_ok sid [] h = Done ((h, []), [])"
| "stop_handlers inet_ok sid ((k, v) # m) h =
     (case stop_handler inet_ok sid (h, v) of
        Done ((h1, v1), ds) \<Rightarrow>
          (case stop_handlers inet_ok sid m h1 of
             Done ((h2, m2), ds') \<Rightarrow> Done ((h2, (k, v1) # m2), ds @ ds') | Wait \<Rightarrow> Wait | Fail e \<Rightarrow> Fail e)
      | Wait \<Rightarrow> Wait
      | Fail e \<Rightarrow> Fail e)"

definition session_stop :: "(string \<Rightarrow> bool) \<Rightarrow> media_track list \<times> session \<Rightarrow>
    ((media_track list \<times> session) \<times> datagram list) outcome" where
  "session_stop inet_ok hs =
     (let (h, s) = hs in
      case stop_handlers inet_ok (session_id s) (session_handlers s) h of
        Done ((h1, m), ds) \<Rightarrow> Done ((h1, s\<lparr>session_handlers := m\<rparr>), ds) | Wait \<Rightarrow> Wait | Fail e \<Rightarrow> Fail e)"

text \<open>The destructor: \<open>stop\<close>, then every track forgets the session.\<close>

fun release_handlers :: "string \<Rightarrow> (string \<times> session_handler) list \<Rightarrow> media_track list \<Rightarrow> media_track list outcome" where
  "release_handlers sid [] h = Done h"
| "release_handlers sid ((k, v) # m) h =
     (case track_unregister_session sid (h ! handler_track v) of
        Done t \<Rightarrow> release_handlers sid m (h[handler_track v := t]) | Wait \<Rightarrow> Wait | Fail e \<Rightarrow> Fail e)"

definition session_destroy :: "(string \<Rightarrow> bool) \<Rightarrow> media_track list \<times> session \<Rightarrow> (media_track list \<times> datagram list) outcome" where
  "session_destroy inet_ok hs =
     (case session_stop inet_ok hs of
        Done ((h, s), ds) \<Rightarrow>
          (case release_handlers (session_id s) (session_handlers s) h of
             Done h1 \<Rightarrow> Done (h1, ds) | Wait \<Rightarrow> Wait | Fail e \<Rightarrow> Fail e)
      | Wait \<Rightarrow> Wait
      | Fail e \<Rightarrow> Fail e)"

section \<open>SessionManager\<close>

record world =
  lib :: library
  sessions :: "(string \<times> session) list"
  ports :: port_pool

definition set_heap :: "media_track list \<Rightarrow> world \<Rightarrow> world" where
  "set_heap h w = w\<lparr>lib := (lib w)\<lparr>heap := h\<rparr>\<rparr>"

text \<open>The assignment releases the session that had the identifier before.\<close>

definition create_session :: "(string \<Rightarrow> bool) \<Rightarrow> string \<Rightarrow> world \<Rightarrow> (world \<times> datagram list) outcome" where
  "create_session inet_ok sid w =
     (let w1 = w\<lparr>sessions := umap_put sid (new_session sid) (sessions w)\<rparr> in
      case map_of (sessions w) sid of
        None \<Rightarrow> Done (w1, [])
      | Some old \<Rightarrow>
          (case session_destroy inet_ok (heap (lib w), old) of
             Done (h, ds) \<Rightarrow> Done (set_heap h w1, ds) | Wait \<Rightarrow> Wait | Fail e \<Rightarrow> Fail e))"

definition get_session :: "string \<Rightarrow> world \<Rightarrow> session option" where
  "get_session sid w = map_of (sessions w) sid"

definition session_exists :: "string \<Rightarrow> world \<Rightarrow> bool" where
  "session_exists sid w \<longleftrightarrow> map_of (sessions w) sid \<noteq> None"

text \<open>
  \<open>stop\<close>, then \<open>erase\<close>, which runs the destructor; all under \<open>sessions_mutex_\<close>, which is not modelled
  here: \<open>Wait\<close> leaves the world as it was before the call. Deadlock takes the call apart and follows the mutex.
\<close>

definition terminate_session :: "(string \<Rightarrow> bool) \<Rightarrow> string \<Rightarrow> world \<Rightarrow> (world \<times> datagram list) outcome" where
  "terminate_session inet_ok sid w =
     (case map_of (sessions w) sid of
        None \<Rightarrow> Done (w, [])
      | Some s \<Rightarrow>
          (case session_stop inet_ok (heap (lib w), s) of
             Done ((h, s1), ds) \<Rightarrow>
               (case session_destroy inet_ok (h, s1) of
                  Done (h1, ds') \<Rightarrow> Done (set_heap h1 (w\<lparr>sessions := umap_erase sid (sessions w)\<rparr>), ds @ ds')
                | Wait \<Rightarrow> Wait
                | Fail e \<Rightarrow> Fail e)
           | Wait \<Rightarrow> Wait
           | Fail e \<Rightarrow> Fail e))"

section \<open>Starting\<close>

text \<open>A handler as \<open>add_media_track\<close> makes it: set up, never played.\<close>

definition fresh_handler :: "session_handler \<Rightarrow> bool" where
  "fresh_handler v \<longleftrightarrow> \<not> handler_active v \<and> sender_thread v = None
     \<and> \<not> rtcp_send_thread (handler_rtp v) \<and> \<not> rtcp_receive_thread (handler_rtp v)"

definition playing_handler :: "session_handler \<Rightarrow> bool" where
  "playing_handler v \<longleftrightarrow> handler_active v \<and> sender_thread v \<noteq> None \<and> \<not> is_running (handler_rtp v)
     \<and> \<not> rtcp_send_thread (handler_rtp v) \<and> \<not> rtcp_receive_thread (handler_rtp v)"

lemma add_media_track_fresh:
  assumes "session_add_media_track sys r b track a p1 p2 ip0 p3 p4 (h, s) = ((h', s'), Done u)"
    and "\<forall>(k, v)\<in>set (session_handlers s). fresh_handler v"
  shows "\<forall>(k, v)\<in>set (session_handlers s'). fresh_handler v"
proof -
  obtain v where "session_handlers s' = umap_put track v (session_handlers s)" "fresh_handler v"
    using assms(1)
    by (auto simp: session_add_media_track_def Let_def fresh_handler_def rtp_rtcp_handler_def
        split: sum.splits option.splits if_splits)
  with set_umap_put [of track v "session_handlers s"] assms(2) show ?thesis by auto
qed

lemma start_handler_fresh:
  assumes "fresh_handler v" and "start_handler files (h, v) = ((h1, v1), Done u)"
  shows "playing_handler v1 \<and> handler_track v1 = handler_track v"
  using assms
  by (auto simp: start_handler_def Let_def fresh_handler_def playing_handler_def rtp_start_def rtp_stop_def
      split: prod.splits outcome.splits)

lemma start_handlers_fresh:
  assumes "\<forall>(k, v)\<in>set m. fresh_handler v" and "start_handlers files m h = ((h1, m1), Done u)"
  shows "(\<forall>(k, v)\<in>set m1. playing_handler v) \<and> map (\<lambda>(k, v). (k, handler_track v)) m1 = map (\<lambda>(k, v). (k, handler_track v)) m"
  using assms
proof (induction files m h arbitrary: m1 h1 rule: start_handlers.induct)
  case (2 files k v m h)
  obtain h2 v2 r where v2: "start_handler files (h, v) = ((h2, v2), r)" by (metis prod.exhaust)
  obtain u' where r: "r = Done u'" using "2.prems"(2) v2 by (cases r) auto
  obtain h3 m3 r3 where m3: "start_handlers files m h2 = ((h3, m3), r3)" by (metis prod.exhaust)
  with "2.prems"(2) v2 r have m1: "m1 = (k, v2) # m3" "r3 = Done u" by auto
  have "(\<forall>(k, v)\<in>set m3. playing_handler v) \<and> map (\<lambda>(k, v). (k, handler_track v)) m3 = map (\<lambda>(k, v). (k, handler_track v)) m"
    using "2.IH" [OF v2 [symmetric] refl r] "2.prems"(1) m3 m1(2) by auto
  with start_handler_fresh [of v files h h2 v2 u'] "2.prems"(1) v2 r m1 show ?case by auto
qed simp

lemma track_start_is_active: "is_active t \<Longrightarrow> track_start files t = (t, Done ())"
  using h264_track.start_active [of t files] aac_track.start_active [of t files]
  by (simp add: track_start_def split: media_type.split)

text \<open>
  C38 (error). PLAY, PAUSE, PLAY ends the server. \<open>pause\<close> only clears the flags, and the second
  \<open>start\<close> assigns a new thread to a handle that still holds one which was never joined, whether
  its function has returned or not: \<open>std::terminate\<close>. That holds whatever the senders have done
  in between, and for any tracks that are active, as the tracks of a registered session are.
\<close>

theorem play_pause_play_terminates:
  assumes "\<forall>(k, v)\<in>set (session_handlers s). fresh_handler v" and "session_handlers s \<noteq> []"
    and "session_start files (h, s) = ((h1, s1), Done ())"
    and "map (\<lambda>(k, v). handler_track v) (session_handlers s2) = map (\<lambda>(k, v). handler_track v) (session_handlers s1)"
    and "\<forall>(k, v)\<in>set (session_handlers s2). sender_thread v \<noteq> None
           \<and> \<not> rtcp_send_thread (handler_rtp v) \<and> \<not> rtcp_receive_thread (handler_rtp v)"
    and "\<forall>(k, v)\<in>set (session_handlers s1). is_active (h2 ! handler_track v)"
  shows "(\<forall>(k, v)\<in>set (session_handlers s1). sender_thread v \<noteq> None
           \<and> \<not> rtcp_send_thread (handler_rtp v) \<and> \<not> rtcp_receive_thread (handler_rtp v))
    \<and> snd (session_start files' (h2, session_pause s2)) = Fail Terminate"
proof
  obtain m1 where m1: "start_handlers files (session_handlers s) h = ((h1, m1), Done ())" "session_handlers s1 = m1"
    using assms(3) by (auto simp: session_start_def split: prod.splits)
  note fresh = start_handlers_fresh [OF assms(1) m1(1)]
  then show "\<forall>(k, v)\<in>set (session_handlers s1). sender_thread v \<noteq> None
      \<and> \<not> rtcp_send_thread (handler_rtp v) \<and> \<not> rtcp_receive_thread (handler_rtp v)"
    unfolding m1(2) by (auto simp: playing_handler_def)
  from fresh assms(2) have "m1 \<noteq> []" by auto
  then obtain k v m where m2: "session_handlers s2 = (k, v) # m"
    using assms(4) m1(2) by (cases "session_handlers s2") auto
  then have "handler_track v \<in> set (map (\<lambda>(k, v). handler_track v) (session_handlers s1))"
    using assms(4) by (metis (mono_tags, lifting) case_prod_conv list.set_intros(1) list.simps(9))
  then have "is_active (h2 ! handler_track v)" using assms(6) by fastforce
  then have "snd (start_handler files' (h2, v\<lparr>handler_active := False\<rparr>)) = Fail Terminate"
    using assms(5) m2 by (simp add: start_handler_def track_start_is_active rtp_start_def)
  then show "snd (session_start files' (h2, session_pause s2)) = Fail Terminate"
    by (cases "start_handler files' (h2, v\<lparr>handler_active := False\<rparr>)")
      (auto simp: session_start_def session_pause_def map_values_def m2)
qed

text \<open>
  A second SETUP of a track that the session plays ends the server in the same way: the new handler
  replaces the old one in the map, and with it a thread object that was never joined.
\<close>

lemma setup_of_played_track_terminates:
  assumes "map_of (session_handlers s) track = Some v" and "sender_thread v \<noteq> None"
    and "\<forall>call\<in>set (handler_calls p1 p2). sys call"
  shows "snd (session_add_media_track sys r buf0 track a p1 p2 ip0 p3 p4 (h, s)) = Fail Terminate"
proof -
  have "first_failure sys cs = None" if "\<forall>call\<in>set cs. sys call" for cs using that by (induction cs) auto
  with assms show ?thesis by (simp add: session_add_media_track_def rtp_rtcp_handler_def Let_def)
qed

text \<open>
  PLAY turns RTCP off: \<open>start\<close> of the RTP/RTCP handler is followed by its \<open>stop\<close>
  in the same loop iteration, so after the first PLAY has returned no handler of the session runs an RTCP
  thread, none will (\<open>is_running_\<close> is never set again), and whatever the client sends to the RTCP
  port, nothing of the handler changes.
\<close>

lemma play_disables_rtcp:
  assumes "\<forall>(k, v)\<in>set (session_handlers s). fresh_handler v"
    and "session_start files (h, s) = ((h1, s1), Done ())" and "(k, v) \<in> set (session_handlers s1)"
  shows "\<not> is_running (handler_rtp v) \<and> \<not> rtcp_send_thread (handler_rtp v) \<and> \<not> rtcp_receive_thread (handler_rtp v)
    \<and> receive_all rr datagrams (handler_rtp v) = Inr (handler_rtp v)
    \<and> (case rtp_start (handler_rtp v) of Inl e \<Rightarrow> False | Inr rtp \<Rightarrow> receive_all rr datagrams rtp = Inr rtp)"
proof -
  obtain m1 where m1: "start_handlers files (session_handlers s) h = ((h1, m1), Done ())" "session_handlers s1 = m1"
    using assms(2) by (auto simp: session_start_def split: prod.splits)
  have "playing_handler v" using start_handlers_fresh [OF assms(1) m1(1)] assms(3) m1(2) by auto
  then show ?thesis
    by (cases "(rr, datagrams, handler_rtp v)" rule: receive_all.cases)
      (auto simp: playing_handler_def rtp_start_def)
qed

section \<open>Terminating\<close>

definition session_ok :: "media_track list \<Rightarrow> session \<Rightarrow> bool" where
  "session_ok h s \<longleftrightarrow> (\<forall>(k, v)\<in>set (session_handlers s). handler_track v < length h)"

definition world_ok :: "world \<Rightarrow> bool" where
  "world_ok w \<longleftrightarrow> library_ok (lib w) \<and> distinct_keys (sessions w) \<and>
     (\<forall>(k, s)\<in>set (sessions w). session_id s = k \<and> session_ok (heap (lib w)) s)"

lemma stop_handler_returns:
  assumes "sender_thread v \<noteq> Some In_Get"
  shows "stop_handler inet_ok sid (h, v) = Done ((h, v\<lparr>handler_active := False, sender_thread := None\<rparr>), [])"
proof -
  consider "sender_thread v = None" | "sender_thread v = Some At_Test" | "sender_thread v = Some Sender_Returned"
    using assms by (cases "sender_thread v") (auto intro: sender.exhaust)
  then show ?thesis
  proof cases
    case 1
    then have "v\<lparr>handler_active := False, sender_thread := None\<rparr> = v\<lparr>handler_active := False\<rparr>" by simp
    with 1 show ?thesis by (simp add: stop_handler_def)
  next
    case 2
    then show ?thesis
      by (simp add: stop_handler_def numeral_2_eq_2 run_sender.simps [where k = "Suc (Suc 0)"]
          run_sender.simps [where k = "Suc 0"] sender_step_def)
  next
    case 3
    then show ?thesis by (simp add: stop_handler_def run_sender.simps)
  qed
qed

abbreviation stopped_handler :: "session_handler \<Rightarrow> session_handler" where
  "stopped_handler v \<equiv> v\<lparr>handler_active := False, sender_thread := None\<rparr>"

lemma stop_handlers_return:
  "\<forall>(k, v)\<in>set m. sender_thread v \<noteq> Some In_Get \<Longrightarrow>
   stop_handlers inet_ok sid m h = Done ((h, map_values stopped_handler m), [])"
  by (induction m) (auto simp: stop_handler_returns map_values_def)

text \<open>The heap after every track of the handlers \<open>m\<close> has forgotten the session.\<close>

definition released :: "string \<Rightarrow> (string \<times> session_handler) list \<Rightarrow> media_track list \<Rightarrow> media_track list \<Rightarrow> bool" where
  "released sid m h h' \<longleftrightarrow> list_all track_ok h' \<and> length h' = length h
    \<and> (\<forall>a < length h. consumer_positions (frame_queue (h' ! a)) =
         (if a \<in> (\<lambda>(k, v). handler_track v) ` set m then map_erase sid (consumer_positions (frame_queue (h ! a)))
          else consumer_positions (frame_queue (h ! a))))
    \<and> (\<forall>a < length h. track_name (h' ! a) = track_name (h ! a))"

lemma list_all_update: "list_all P xs \<Longrightarrow> P x \<Longrightarrow> list_all P (xs[i := x])"
  using set_update_subset_insert [of xs i x] by (auto simp: list_all_iff)

lemma release_handlers_ok:
  assumes "list_all track_ok h" and "\<forall>(k, v)\<in>set m. handler_track v < length h"
  shows "\<exists>h'. release_handlers sid m h = Done h' \<and> released sid m h h'"
  using assms
proof (induction m arbitrary: h)
  case (Cons e m)
  obtain k v where e: "e = (k, v)" by (cases e)
  let ?a = "handler_track v"
  have a: "?a < length h" "track_ok (h ! ?a)" using Cons.prems e by (auto simp: list_all_length)
  from track_unregister_ok [OF a(2), of sid] obtain t where
    t: "track_unregister_session sid (h ! ?a) = Done t" "track_ok t"
      "consumer_positions (frame_queue t) = map_erase sid (consumer_positions (frame_queue (h ! ?a)))"
      "track_name t = track_name (h ! ?a)" by blast
  have "list_all track_ok (h[?a := t])" by (rule list_all_update [OF Cons.prems(1) t(2)])
  from Cons.IH [OF this] Cons.prems(2) e obtain h' where
    h': "release_handlers sid m (h[?a := t]) = Done h'" "released sid m (h[?a := t]) h'" by auto
  have "map_erase sid (map_erase sid x) = map_erase sid x" for x :: "(string \<times> nat) list"
    by (simp add: map_erase_def)
  with h'(2) t(3,4) e a have "released sid (e # m) h h'" by (auto simp: released_def nth_list_update)
  with h'(1) t(1) e show ?case by simp
qed (simp add: released_def)

lemma session_stop_returns:
  assumes "\<forall>(k, v)\<in>set (session_handlers s). sender_thread v \<noteq> Some In_Get"
  shows "session_stop inet_ok (h, s) = Done ((h, s\<lparr>session_handlers := map_values stopped_handler (session_handlers s)\<rparr>), [])"
  by (simp add: session_stop_def stop_handlers_return [OF assms])

lemma set_map_values: "set (map_values f m) = (\<lambda>(k, v). (k, f v)) ` set m"
  by (simp add: map_values_def)

lemma released_stopped: "released sid (map_values stopped_handler m) = released sid m"
proof -
  have "(\<lambda>(k, v). handler_track v) ` set (map_values stopped_handler m) = (\<lambda>(k, v). handler_track v) ` set m"
    by (simp add: set_map_values image_image case_prod_unfold)
  then show ?thesis by (simp add: released_def fun_eq_iff)
qed

lemma session_destroy_returns:
  assumes "list_all track_ok h" and "session_ok h s"
    and "\<forall>(k, v)\<in>set (session_handlers s). sender_thread v \<noteq> Some In_Get"
  shows "\<exists>h'. session_destroy inet_ok (h, s) = Done (h', []) \<and> released (session_id s) (session_handlers s) h h'"
proof -
  let ?m = "map_values stopped_handler (session_handlers s)"
  have "\<forall>(k, v)\<in>set ?m. handler_track v < length h" using assms(2) by (auto simp: set_map_values session_ok_def)
  from release_handlers_ok [OF assms(1) this, of "session_id s"] obtain h' where
    "release_handlers (session_id s) ?m h = Done h'" "released (session_id s) (session_handlers s) h h'"
    unfolding released_stopped by blast
  then show ?thesis by (simp add: session_destroy_def session_stop_returns [OF assms(3)])
qed

lemma library_ok_set_heap:
  assumes "library_ok l" and "list_all track_ok h" and "length h = length (heap l)"
    and "\<forall>a < length h. track_name (h ! a) = track_name (heap l ! a)"
  shows "library_ok (l\<lparr>heap := h\<rparr>)"
  using assms by (fastforce simp: library_ok_def source_ok_def)

lemma set_umap_erase: "set (umap_erase k m) \<subseteq> set m"
  by (auto simp: AList.delete_eq)

text \<open>The world after \<open>terminate_session\<close>: the session erased, its tracks released.\<close>

lemma terminate_session_returns:
  assumes "world_ok w" and "get_session sid w = Some s"
    and "\<forall>(k, v)\<in>set (session_handlers s). sender_thread v \<noteq> Some In_Get"
  shows "\<exists>h'. terminate_session inet_ok sid w = Done (set_heap h' (w\<lparr>sessions := umap_erase sid (sessions w)\<rparr>), [])
    \<and> released sid (session_handlers s) (heap (lib w)) h'"
proof -
  have s: "(sid, s) \<in> set (sessions w)" using assms(2) by (auto simp: get_session_def dest: map_of_SomeD)
  then have sok: "session_id s = sid" "session_ok (heap (lib w)) s" and tok: "list_all track_ok (heap (lib w))"
    using assms(1) by (auto simp: world_ok_def library_ok_def)
  let ?s1 = "s\<lparr>session_handlers := map_values stopped_handler (session_handlers s)\<rparr>"
  have "session_ok (heap (lib w)) ?s1" using sok(2) by (auto simp: session_ok_def set_map_values)
  moreover have "\<forall>(k, v)\<in>set (session_handlers ?s1). sender_thread v \<noteq> Some In_Get" by (auto simp: set_map_values)
  ultimately obtain h' where "session_destroy inet_ok (heap (lib w), ?s1) = Done (h', [])"
    "released sid (session_handlers s) (heap (lib w)) h'"
    using session_destroy_returns [OF tok, of ?s1 inet_ok] sok(1) by (auto simp: released_stopped)
  then show ?thesis
    using assms(2) by (auto simp: terminate_session_def get_session_def session_stop_returns [OF assms(3)])
qed

lemma released_world_ok:
  assumes "world_ok w" and "released sid m (heap (lib w)) h'"
  shows "world_ok (set_heap h' (w\<lparr>sessions := umap_erase sid (sessions w)\<rparr>))"
proof -
  have h': "list_all track_ok h'" "length h' = length (heap (lib w))"
    "\<forall>a < length h'. track_name (h' ! a) = track_name (heap (lib w) ! a)"
    using assms(2) by (simp_all add: released_def)
  have "library_ok ((lib w)\<lparr>heap := h'\<rparr>)"
    using assms(1) h' by (intro library_ok_set_heap) (simp_all add: world_ok_def)
  moreover have "session_id s' = k' \<and> session_ok h' s'" if "(k', s') \<in> set (umap_erase sid (sessions w))" for k' s'
  proof -
    have "(k', s') \<in> set (sessions w)" by (rule subsetD [OF set_umap_erase that])
    then have "session_id s' = k' \<and> session_ok (heap (lib w)) s'" using assms(1) by (auto simp: world_ok_def)
    then show ?thesis using h'(2) by (simp add: session_ok_def)
  qed
  moreover have "distinct_keys (umap_erase sid (sessions w))"
    using assms(1) by (intro distinct_keys_delete) (simp add: world_ok_def)
  ultimately show ?thesis by (auto simp: world_ok_def set_heap_def)
qed

text \<open>
  C20 (functional). When none of a session's senders waits for a frame, \<open>terminate_session\<close>
  returns, and it cleans up: the session is gone and no other session is touched, every
  track that it had set up has forgotten it (so no producer waits for it), nothing is sent, and
  the world's invariant holds. The ports of the session are not given back: the pool is
  unchanged.
\<close>

theorem terminate_cleans_up:
  assumes "world_ok w" and "get_session sid w = Some s"
    and "\<forall>(k, v)\<in>set (session_handlers s). sender_thread v \<noteq> Some In_Get"
  shows "\<exists>w'. terminate_session inet_ok sid w = Done (w', []) \<and> world_ok w' \<and> ports w' = ports w
    \<and> \<not> session_exists sid w' \<and> (\<forall>other. other \<noteq> sid \<longrightarrow> get_session other w' = get_session other w)
    \<and> (\<forall>(k, v)\<in>set (session_handlers s).
         map_of (consumer_positions (frame_queue (heap (lib w') ! handler_track v))) sid = None)"
proof -
  from terminate_session_returns [OF assms] obtain h' where
    returns: "terminate_session inet_ok sid w = Done (set_heap h' (w\<lparr>sessions := umap_erase sid (sessions w)\<rparr>), [])"
    and rel: "released sid (session_handlers s) (heap (lib w)) h'" by blast
  let ?w = "set_heap h' (w\<lparr>sessions := umap_erase sid (sessions w)\<rparr>)"
  have dist: "distinct_keys (sessions w)" and "session_ok (heap (lib w)) s"
    using assms(1,2) by (auto simp: world_ok_def get_session_def dest: map_of_SomeD)
  then have "map_of (consumer_positions (frame_queue (heap (lib ?w) ! handler_track v))) sid = None"
    if "(k, v) \<in> set (session_handlers s)" for k v
    using rel that by (force simp: released_def set_heap_def map_of_map_erase session_ok_def)
  moreover have "\<not> session_exists sid ?w" "\<forall>other. other \<noteq> sid \<longrightarrow> get_session other ?w = get_session other w"
    using dist by (auto simp: session_exists_def get_session_def set_heap_def umap.lookup_erase)
  moreover have "ports ?w = ports w" by (simp add: set_heap_def)
  ultimately show ?thesis using returns released_world_ok [OF assms(1) rel] by blast
qed

section \<open>Witnesses\<close>

definition demo_track :: media_track where
  "demo_track = new_track H264 demo_frame_buf ''track0'' ''v.h264''"

definition demo_session_handler :: session_handler where
  "demo_session_handler = \<lparr>handler_active = False, handler_track_name = ''track0'', sender_thread = None,
     handler_track = 0, handler_rtp = demo_handler\<rparr>"

definition demo_session :: session where
  "demo_session = \<lparr>session_id = ''A'', session_handlers = [(''track0'', demo_session_handler)]\<rparr>"

lemma demo_session_fresh: "\<forall>(k, v)\<in>set (session_handlers demo_session). fresh_handler v"
  by (simp add: demo_session_def demo_session_handler_def fresh_handler_def demo_handler_def)

lemma demo_session_starts:
  "session_start (\<lambda>_. Some [0, 0, 1, 9, 9]) ([demo_track], demo_session) =
    (([(started (Some [0, 0, 1, 9, 9]) demo_track)\<lparr>produce_thread := Some Looping\<rparr>],
      demo_session\<lparr>session_handlers := [(''track0'', demo_session_handler\<lparr>handler_active := True,
        sender_thread := Some At_Test, handler_rtp := demo_handler\<lparr>is_running := False\<rparr>\<rparr>)]\<rparr>), Done ())"
proof -
  have "track_start (\<lambda>_. Some [0, 0, 1, 9, 9]) demo_track =
      ((started (Some [0, 0, 1, 9, 9]) demo_track)\<lparr>produce_thread := Some Looping\<rparr>, Done ())"
    using h264_track.start_closed [of demo_track "\<lambda>_. Some [0, 0, 1, 9, 9]" "[0, 0, 1, 9, 9]"]
    by (simp add: track_start_def demo_track_def new_track_simps closed_file_def)
  then show ?thesis
    by (simp add: session_start_def demo_session_def demo_session_handler_def start_handler_def rtp_start_def
        rtp_stop_def demo_handler_def)
qed

theorem play_pause_play_terminates_witness:
  "\<exists>h1 s1. session_start (\<lambda>_. Some [0, 0, 1, 9, 9]) ([demo_track], demo_session) = ((h1, s1), Done ())
     \<and> snd (session_start (\<lambda>_. Some [0, 0, 1, 9, 9]) (h1, session_pause s1)) = Fail Terminate"
proof -
  obtain h1 s1 where s1: "session_start (\<lambda>_. Some [0, 0, 1, 9, 9]) ([demo_track], demo_session) = ((h1, s1), Done ())"
    "\<forall>(k, v)\<in>set (session_handlers s1). sender_thread v \<noteq> None
       \<and> \<not> rtcp_send_thread (handler_rtp v) \<and> \<not> rtcp_receive_thread (handler_rtp v)"
    "\<forall>(k, v)\<in>set (session_handlers s1). is_active (h1 ! handler_track v)"
    using demo_session_starts by (auto simp: demo_session_handler_def demo_handler_def started_def)
  have "session_handlers demo_session \<noteq> []" by (simp add: demo_session_def)
  from play_pause_play_terminates [OF demo_session_fresh this s1(1) refl s1(2,3)] s1(1) show ?thesis by blast
qed

lemma play_disables_rtcp_witness:
  "\<exists>h1 s1 k v. session_start (\<lambda>_. Some [0, 0, 1, 9, 9]) ([demo_track], demo_session) = ((h1, s1), Done ())
     \<and> (k, v) \<in> set (session_handlers s1) \<and> receive_all demo_rr [(rr_packet 5, 32)] (handler_rtp v) = Inr (handler_rtp v)"
proof -
  obtain h1 s1 k v where s1: "session_start (\<lambda>_. Some [0, 0, 1, 9, 9]) ([demo_track], demo_session) = ((h1, s1), Done ())"
    "(k, v) \<in> set (session_handlers s1)"
    using demo_session_starts by auto
  from play_disables_rtcp [OF demo_session_fresh s1, of demo_rr "[(rr_packet 5, 32)]"] s1 show ?thesis by blast
qed

definition demo_world :: world where
  "demo_world = \<lparr>lib = \<lparr>heap = [demo_track], media_sources = []\<rparr>, sessions = [(''A'', demo_session)],
     ports = \<lparr>available_ports = []\<rparr>\<rparr>"

lemma demo_world_ok: "world_ok demo_world"
  using new_track_ok [OF demo_frame_buf_length, of H264 "''track0''" "''v.h264''"]
  by (simp add: world_ok_def library_ok_def demo_world_def demo_track_def distinct_keys_def session_ok_def
      demo_session_def demo_session_handler_def)

theorem terminate_cleans_up_witness:
  "\<exists>w'. terminate_session (\<lambda>_. True) ''A'' demo_world = Done (w', []) \<and> \<not> session_exists ''A'' w'"
proof -
  have "get_session ''A'' demo_world = Some demo_session" by (simp add: get_session_def demo_world_def)
  moreover have "\<forall>(k, v)\<in>set (session_handlers demo_session). sender_thread v \<noteq> Some In_Get"
    by (simp add: demo_session_def demo_session_handler_def)
  ultimately show ?thesis using terminate_cleans_up [OF demo_world_ok] by blast
qed

end
