(* ===== verification/ConnectionHandler.thy ===== *)
theory ConnectionHandler
  imports EcmaRegex RtspMessage Session
begin

text \<open>
  ConnectionHandler.h/.cpp: the request loop of one RTSP connection, its six request handlers, URL
  and transport parsing, and session identifiers. A handler works on the state of the connection,
  the response under construction, the shared world, and the datagrams that were sent on the
  way (a teardown may let a sender finish a frame). An exception ends the handler with what it
  has changed so far. What a request's handling reads from outside (files, clock, random
  numbers, the kernel's verdicts) is its \<open>env\<close>.
\<close>

record rtsp_url =
  url_protocol :: string
  url_username :: string
  url_password :: string
  url_host :: string
  url_port :: string
  url_app :: string
  url_track :: string

record connection =
  client_ip :: string
  conn_session_id :: string
  conn_url :: rtsp_url

definition new_connection :: "string \<Rightarrow> connection" where
  "new_connection ip0 = \<lparr>client_ip = ip0, conn_session_id = '''',
     conn_url = \<lparr>url_protocol = '''', url_username = '''', url_password = '''', url_host = '''', url_port = '''',
       url_app = '''', url_track = ''''\<rparr>\<rparr>"

record env =
  env_files :: "string \<Rightarrow> byte list option"
  env_sys :: "sys_call \<Rightarrow> bool"
  env_inet :: "string \<Rightarrow> bool"
  env_ssrc :: "32 word"
  env_rtp_buf :: "byte list"
  env_seconds :: nat   \<comment> \<open>\<open>seconds_since_epoch\<close> and \<open>time(NULL)\<close>\<close>
  env_random :: nat    \<comment> \<open>drawn from 0 to 999999\<close>

record conn_state =
  conn :: connection
  response :: rtsp_message
  the_world :: world
  sent_datagrams :: "datagram list"

section \<open>Parsing\<close>

definition rtsp_url_regex :: rx where
  "rtsp_url_regex = Seq
     [Cap 1 (Text ''rtsp''), Text ''://'',
      Opt (Seq [Cap 2 (Star (Not_In '':'')), Text '':'', Cap 3 (Star (Not_In ''@'')), Text ''@'']),
      Cap 4 (Star (Not_In '':'')), Text '':'', Cap 5 (Plus Digit), Text ''/'', Cap 6 (Star (Not_In ''/'')),
      Opt (Seq [Text ''/'', Cap 7 (Star (Not_In ''/''))])]"

definition parse_url :: "string \<Rightarrow> connection \<Rightarrow> connection result" where
  "parse_url request_url c =
     (case regex_search rtsp_url_regex request_url of
        Some m \<Rightarrow> Inr (c\<lparr>conn_url :=
          \<lparr>url_protocol = capture m 1, url_username = capture m 2, url_password = capture m 3,
           url_host = capture m 4, url_port = capture m 5, url_app = capture m 6, url_track = capture m 7\<rparr>\<rparr>)
      | None \<Rightarrow> Inl (Runtime_Error ''Parse DESCRIBE request url failed.''))"

definition transport_regex :: rx where
  "transport_regex = Seq
     [Text ''RTP/AVP;unicast;client_port='', Cap 1 (Plus Digit), Text ''-'', Cap 2 (Plus Digit)]"

text \<open>The client's RTP port, RTCP port and port range; -1 and the empty range without a match.\<close>

definition client_ports :: "string \<Rightarrow> (int \<times> int \<times> string) result" where
  "client_ports transport =
     (case regex_search transport_regex transport of
        None \<Rightarrow> Inr (-1, -1, '''')
      | Some m \<Rightarrow>
          bind_result (stoi (capture m 1)) (\<lambda>rtp.
          bind_result (stoi (capture m 2)) (\<lambda>rtcp.
            Inr (rtp, rtcp, capture m 1 @ ''-'' @ capture m 2))))"

definition generate_unique_session_id :: "nat \<Rightarrow> nat \<Rightarrow> string" where
  "generate_unique_session_id seconds_since_epoch random_number =
     pad_left 10 (nat_to_string seconds_since_epoch) @ pad_left 6 (nat_to_string random_number)"

section \<open>The handlers\<close>

definition update_response :: "(rtsp_message \<Rightarrow> rtsp_message) \<Rightarrow> conn_state \<Rightarrow> conn_state" where
  "update_response f st = st\<lparr>response := f (response st)\<rparr>"

definition handle_options :: "rtsp_message \<Rightarrow> conn_state \<Rightarrow> conn_state \<times> unit outcome" where
  "handle_options request st =
     (update_response (\<lambda>r. set_headers ''Public'' ''OPTIONS, DESCRIBE, SETUP, PLAY, PAUSE, TEARDOWN''
       (set_cseq (get_cseq request) (set_status_code OK (set_protocol (get_protocol request) r)))) st, Done ())"

definition session_sdp :: "env \<Rightarrow> string \<Rightarrow> media_source \<Rightarrow> media_track list \<Rightarrow> string" where
  "session_sdp env host source h =
     ''v=0'' @ crlf @ ''o=- '' @ nat_to_string (env_seconds env) @ '' 1 IN IP4 '' @ host @ crlf @
     ''t=0 0'' @ crlf @ ''a=control:*'' @ crlf @ source_media_sdp h source"

definition handle_describe :: "env \<Rightarrow> rtsp_message \<Rightarrow> conn_state \<Rightarrow> conn_state \<times> unit outcome" where
  "handle_describe env request st =
     (case parse_url (uri request) (conn st) of
        Inl e \<Rightarrow> (st, Fail e)
      | Inr c \<Rightarrow>
          let st1 = st\<lparr>conn := c\<rparr>; l = lib (the_world st1) in
          if get_header_value ''Accept'' request \<noteq> ''application/sdp'' then
            (update_response (\<lambda>r. set_cseq (get_cseq request) (set_status_code NotAcceptable r)) st1, Done ())
          else case get_media_source (url_app (conn_url c)) l of
              None \<Rightarrow>
                (update_response (\<lambda>r. set_headers ''Content-Length'' ''0'' (set_cseq (get_cseq request)
                  (set_status_code NotFound (set_protocol (get_protocol request) r)))) st1, Done ())
            | Some media_source \<Rightarrow>
                let sdp = session_sdp env (url_host (conn_url c)) media_source (heap l) in
                (update_response (\<lambda>r. set_body sdp (set_headers ''Content-Length'' (nat_to_string (length sdp))
                  (set_headers ''Content-Type'' ''application/sdp'' (set_cseq (get_cseq request)
                  (set_status_code OK (set_protocol (get_protocol request) r)))))) st1, Done ()))"

definition not_found :: "rtsp_message \<Rightarrow> rtsp_message \<Rightarrow> rtsp_message" where
  "not_found request r = set_cseq (get_cseq request) (set_status_code NotFound (set_protocol (get_protocol request) r))"

definition ok_response :: "rtsp_message \<Rightarrow> rtsp_message \<Rightarrow> rtsp_message" where
  "ok_response request r = set_cseq (get_cseq request) (set_status_code OK (set_protocol (get_protocol request) r))"

text \<open>
  The session to which SETUP adds the track: an existing one, or a new one under that
  identifier.
\<close>

definition setup_session :: "env \<Rightarrow> string \<Rightarrow> string \<Rightarrow> nat \<Rightarrow> int \<Rightarrow> string \<Rightarrow> int \<Rightarrow> int \<Rightarrow> world \<Rightarrow> (world \<times> unit outcome)" where
  "setup_session env sid track a server_port ip0 client_rtp_port client_rtcp_port w =
     (case (if \<not> session_exists sid w then create_session (env_inet env) sid w else Done (w, [])) of
        Fail e \<Rightarrow> (w, Fail e)
      | Wait \<Rightarrow> (w, Wait)
      | Done (w1, ds) \<Rightarrow>
          (case get_session sid w1 of
             None \<Rightarrow> (w1, Fail (Undefined ''null pointer''))
           | Some s \<Rightarrow>
               let ((h, s1), r) = session_add_media_track (env_sys env) (env_ssrc env) (env_rtp_buf env) track a
                     server_port (server_port + 1) ip0 client_rtp_port client_rtcp_port (heap (lib w1), s) in
               (set_heap h (w1\<lparr>sessions := umap_put sid s1 (sessions w1)\<rparr>), r)))"

definition handle_setup :: "env \<Rightarrow> rtsp_message \<Rightarrow> conn_state \<Rightarrow> conn_state \<times> unit outcome" where
  "handle_setup env request st =
     (case parse_url (uri request) (conn st) of
        Inl e \<Rightarrow> (st, Fail e)
      | Inr c \<Rightarrow>
          (case client_ports (get_header_value ''Transport'' request) of
             Inl e \<Rightarrow> (st\<lparr>conn := c\<rparr>, Fail e)
           | Inr (client_rtp_port, client_rtcp_port, client_port_range) \<Rightarrow>
               let (server_port, pool) = allocate_port_pair (ports (the_world st));
                   server_port_range = to_string server_port @ ''-'' @ to_string (server_port + 1);
                   sid0 = get_header_value ''Session'' request;
                   sid = (if sid0 = [] then generate_unique_session_id (env_seconds env) (env_random env) else sid0);
                   c1 = (if sid0 = [] then c\<lparr>conn_session_id := sid\<rparr> else c);
                   w1 = (the_world st)\<lparr>ports := pool\<rparr>;
                   st1 = st\<lparr>conn := c1, the_world := w1\<rparr> in
               case get_media_source (url_app (conn_url c1)) (lib w1) of
                 None \<Rightarrow> (update_response (not_found request) st1, Done ())
               | Some media_source \<Rightarrow>
                   (case get_media_track (url_track (conn_url c1)) media_source of
                      None \<Rightarrow> (update_response (not_found request) st1, Done ())
                    | Some a \<Rightarrow>
                        (case setup_session env sid (url_track (conn_url c1)) a server_port (client_ip c1)
                                client_rtp_port client_rtcp_port w1 of
                           (w2, Done _) \<Rightarrow>
                             (update_response (\<lambda>r. set_headers ''Session'' sid (set_headers ''Transport''
                                (''RTP/AVP;unicast;client_port='' @ client_port_range @ '';server_port='' @ server_port_range)
                                (ok_response request r))) (st1\<lparr>the_world := w2\<rparr>), Done ())
                         | (w2, Wait) \<Rightarrow> (st1\<lparr>the_world := w2\<rparr>, Wait)
                         | (w2, Fail e) \<Rightarrow> (st1\<lparr>the_world := w2\<rparr>, Fail e)))))"

text \<open>In PLAY, PAUSE and TEARDOWN the protocol is set before anything can fail.\<close>

definition handle_play :: "env \<Rightarrow> rtsp_message \<Rightarrow> conn_state \<Rightarrow> conn_state \<times> unit outcome" where
  "handle_play env request st =
     (let sid = get_header_value ''Session'' request;
          st1 = update_response (set_protocol (get_protocol request)) st;
          w = the_world st1 in
      case get_session sid w of
        None \<Rightarrow> (update_response (\<lambda>r. set_cseq (get_cseq request) (set_status_code NotFound r)) st1, Done ())
      | Some s \<Rightarrow>
          let ((h, s1), r) = session_start (env_files env) (heap (lib w), s);
              st2 = st1\<lparr>the_world := set_heap h (w\<lparr>sessions := umap_put sid s1 (sessions w)\<rparr>)\<rparr> in
          (case r of
             Done _ \<Rightarrow>
               (update_response (\<lambda>r. set_headers ''RTP-Info'' (''url='' @ uri request @ '';seq=1;rtptime=0'')
                  (set_headers ''Range'' (get_header_value ''Range'' request)
                  (set_headers ''Session'' sid (set_cseq (get_cseq request) (set_status_code OK r))))) st2, Done ())
           | _ \<Rightarrow> (st2, r)))"

definition handle_pause :: "rtsp_message \<Rightarrow> conn_state \<Rightarrow> conn_state \<times> unit outcome" where
  "handle_pause request st =
     (let sid = get_header_value ''Session'' request;
          st1 = update_response (set_protocol (get_protocol request)) st;
          w = the_world st1 in
      case get_session sid w of
        None \<Rightarrow> (update_response (\<lambda>r. set_cseq (get_cseq request) (set_status_code NotFound r)) st1, Done ())
      | Some s \<Rightarrow>
          (update_response (\<lambda>r. set_headers ''Session'' sid (set_cseq (get_cseq request) (set_status_code OK r)))
             (st1\<lparr>the_world := w\<lparr>sessions := umap_put sid (session_pause s) (sessions w)\<rparr>\<rparr>), Done ()))"

definition handle_teardown :: "env \<Rightarrow> rtsp_message \<Rightarrow> conn_state \<Rightarrow> conn_state \<times> unit outcome" where
  "handle_teardown env request st =
     (let sid = get_header_value ''Session'' request;
          st1 = update_response (set_protocol (get_protocol request)) st in
      if \<not> session_exists sid (the_world st1) then
        (update_response (\<lambda>r. set_cseq (get_cseq request) (set_status_code NotFound r)) st1, Done ())
      else case terminate_session (env_inet env) sid (the_world st1) of
          Done (w, ds) \<Rightarrow>
            (update_response (\<lambda>r. set_headers ''Session'' sid (set_cseq (get_cseq request) (set_status_code OK r)))
               (st1\<lparr>the_world := w, sent_datagrams := sent_datagrams st1 @ ds\<rparr>), Done ())
        | Wait \<Rightarrow> (st1, Wait)
        | Fail e \<Rightarrow> (st1, Fail e))"

section \<open>The loop\<close>

text \<open>
  \<open>recv\<close> into 4095 bytes of a buffer, which is then read as a C string, up to its first NUL. An
  empty text stands for a closed connection, \<open>None\<close> for an error.
\<close>

definition receive_rtsp_message :: "string option \<Rightarrow> string result" where
  "receive_rtsp_message incoming =
     (case incoming of
        None \<Rightarrow> Inl (Runtime_Error ''Failed to receive RTSP message'')
      | Some s \<Rightarrow>
          if s = [] then Inl (Runtime_Error ''Failed to receive RTSP message'')
          else Inr (takeWhile (\<lambda>c. c \<noteq> CHR 0x00) (take 4095 s)))"

text \<open>\<open>bytes_sent\<close> is what \<open>send\<close> returns.\<close>

definition send_rtsp_message :: "int \<Rightarrow> string \<Rightarrow> unit result" where
  "send_rtsp_message bytes_sent message =
     (if bytes_sent < 0 then Inl (Runtime_Error ''Failed to send RTSP message'')
      else if bytes_sent \<noteq> int (length message) then Inl (Runtime_Error ''Incomplete RTSP message sent'')
      else Inr ())"

definition handle_request :: "env \<Rightarrow> rtsp_message \<Rightarrow> conn_state \<Rightarrow> conn_state \<times> unit outcome" where
  "handle_request env request st0 =
     (let st = st0\<lparr>response := set_cseq (get_cseq request) rtsp_message_new\<rparr> in
      case get_method request of
        OPTIONS \<Rightarrow> handle_options request st
      | DESCRIBE \<Rightarrow> handle_describe env request st
      | SETUP \<Rightarrow> handle_setup env request st
      | PLAY \<Rightarrow> handle_play env request st
      | PAUSE \<Rightarrow> handle_pause request st
      | TEARDOWN \<Rightarrow> handle_teardown env request st
      | _ \<Rightarrow> (update_response (set_status_code MethodNotAllowed) st, Done ()))"

text \<open>
  How the loop of \<open>process\<close> ends: it left it (after a TEARDOWN, or because the message could not be
  parsed), it caught an exception, or the program ended, or it waits for ever; \<open>Open\<close> when
  the given input is used up.
\<close>

datatype ending = Left | Caught cpp_error | Crashed cpp_error | Blocked | Open

fun thrown :: "cpp_error \<Rightarrow> ending" where
  "thrown Terminate = Crashed Terminate"
| "thrown (Undefined what) = Crashed (Undefined what)"
| "thrown e = Caught e"

text \<open>The input of one iteration: the environment, what \<open>recv\<close> delivers, and what \<open>send\<close> returns.\<close>

fun process :: "(env \<times> string option \<times> int) list \<Rightarrow> conn_state \<Rightarrow> string list \<times> conn_state \<times> ending" where
  "process [] st = ([], st, Open)"
| "process ((env, incoming, bytes_sent) # inputs) st =
     (case receive_rtsp_message incoming of
        Inl e \<Rightarrow> ([], st, thrown e)
      | Inr received_data \<Rightarrow>
          (case parse rtsp_message_new received_data of
             Inl e \<Rightarrow> ([], st, thrown e)
           | Inr (False, _) \<Rightarrow> ([], st, Left)
           | Inr (True, request) \<Rightarrow>
               (case handle_request env request st of
                  (st1, Fail e) \<Rightarrow> ([], st1, thrown e)
                | (st1, Wait) \<Rightarrow> ([], st1, Blocked)
                | (st1, Done _) \<Rightarrow>
                    let response_str = create_response (response st1) in
                    (case send_rtsp_message bytes_sent response_str of
                       Inl e \<Rightarrow> ([response_str], st1, thrown e)
                     | Inr _ \<Rightarrow>
                         if get_method request = TEARDOWN then ([response_str], st1, Left)
                         else let (rs, st2, e) = process inputs st1 in (response_str # rs, st2, e)))))"

text \<open>The destructor.\<close>

definition connection_destroy :: "env \<Rightarrow> conn_state \<Rightarrow> conn_state outcome" where
  "connection_destroy env st =
     (if conn_session_id (conn st) \<noteq> [] then
        (case terminate_session (env_inet env) (conn_session_id (conn st)) (the_world st) of
           Done (w, ds) \<Rightarrow> Done (st\<lparr>the_world := w, sent_datagrams := sent_datagrams st @ ds\<rparr>)
         | Wait \<Rightarrow> Wait
         | Fail e \<Rightarrow> Fail e)
      else Done st)"

section \<open>Session identifiers\<close>

text \<open>
  A session identifier is 16 decimal digits for the whole range of the generator, as
  long as the clock has at most ten digits, and two of them are the same only for the same
  second and the same random number.
\<close>

lemma session_ids_unique:
  assumes "t1 < 10 ^ 10" and "r1 < 10 ^ 6" and "t2 < 10 ^ 10" and "r2 < 10 ^ 6"
  shows "length (generate_unique_session_id t1 r1) = 16
    \<and> list_all is_digit (generate_unique_session_id t1 r1)
    \<and> (generate_unique_session_id t1 r1 = generate_unique_session_id t2 r2 \<longleftrightarrow> t1 = t2 \<and> r1 = r2)"
proof -
  have len: "length (pad_left 10 (nat_to_string t)) = 10" if "t < 10 ^ 10" for t
    using that by (intro length_pad_left length_nat_to_string_le) auto
  have len6: "length (pad_left 6 (nat_to_string r)) = 6" if "r < 10 ^ 6" for r
    using that by (intro length_pad_left length_nat_to_string_le) auto
  have "list_all is_digit (pad_left n (nat_to_string k))" for n k
    using nat_to_string_digits [of k] by (auto simp: pad_left_def is_digit_def list_all_iff less_eq_char_def)
  moreover have "generate_unique_session_id t1 r1 = generate_unique_session_id t2 r2 \<longleftrightarrow>
      pad_left 10 (nat_to_string t1) = pad_left 10 (nat_to_string t2) \<and>
      pad_left 6 (nat_to_string r1) = pad_left 6 (nat_to_string r2)"
    using len assms by (simp add: generate_unique_session_id_def)
  ultimately show ?thesis
    using len [OF assms(1)] len6 [OF assms(2)] pad_left_nat_inj
    by (auto simp: generate_unique_session_id_def)
qed

section \<open>URLs\<close>

lemma in_set_appendI: "c \<notin> set a \<Longrightarrow> c \<notin> set b \<Longrightarrow> c \<notin> set (a @ b)"
  by simp

lemma hd_not_in_class:
  "hd ('':'' @ s) \<in> set cs \<Longrightarrow> '':'' @ s = [] \<or> \<not> in_class (Not_In cs) (hd ('':'' @ s))"
  by simp

text \<open>The part of the expression from the host on.\<close>

definition location_rx :: "rx list" where
  "location_rx =
     [Cap 4 (Star (Not_In '':'')), Text '':'', Cap 5 (Plus Digit), Text ''/'', Cap 6 (Star (Not_In ''/'')),
      Opt (Seq [Text ''/'', Cap 7 (Star (Not_In ''/''))])]"

lemma location_match:
  assumes "CHR '':'' \<notin> set host" and "port \<noteq> []" and "list_all is_digit port" and "CHR ''/'' \<notin> set app"
    and "tail = [] \<and> extra = [] \<or> tail = ''/'' @ track \<and> CHR ''/'' \<notin> set track \<and> extra = [(7, track)]"
  shows "first_match_seq location_rx (host @ '':'' @ port @ ''/'' @ app @ tail) caps []
    (extra @ [(6, app), (5, port), (4, host)] @ caps)"
proof -
  have 4: "first_match (Cap 4 (Star (Not_In '':''))) (host @ '':'' @ port @ ''/'' @ app @ tail) caps
      ('':'' @ port @ ''/'' @ app @ tail) ((4, host) # caps)"
    by (intro first_Cap first_Star) (use assms(1) in auto)
  have 5: "first_match (Cap 5 (Plus Digit)) (port @ ''/'' @ app @ tail) ((4, host) # caps)
      (''/'' @ app @ tail) ((5, port) # (4, host) # caps)"
    by (intro first_Cap first_Plus) (use assms(2,3) in \<open>auto simp: list_all_iff is_digit_def less_eq_char_def\<close>)
  have 6: "first_match (Cap 6 (Star (Not_In ''/''))) (app @ tail) ((5, port) # (4, host) # caps)
      tail ((6, app) # (5, port) # (4, host) # caps)"
    by (intro first_Cap first_Star) (use assms(4,5) in auto)
  have 7: "first_match (Opt (Seq [Text ''/'', Cap 7 (Star (Not_In ''/''))])) tail ((6, app) # (5, port) # (4, host) # caps)
      [] (extra @ (6, app) # (5, port) # (4, host) # caps)"
    using assms(5)
  proof
    assume "tail = [] \<and> extra = []"
    then show ?thesis by (auto intro: first_Opt_none)
  next
    assume t: "tail = ''/'' @ track \<and> CHR ''/'' \<notin> set track \<and> extra = [(7, track)]"
    have "first_match (Cap 7 (Star (Not_In ''/''))) (track @ []) ((6, app) # (5, port) # (4, host) # caps)
        [] ((7, track) # (6, app) # (5, port) # (4, host) # caps)"
      by (intro first_Cap first_Star) (use t in auto)
    then have "first_match_seq [Text ''/'', Cap 7 (Star (Not_In ''/''))] (''/'' @ track) ((6, app) # (5, port) # (4, host) # caps)
        [] ((7, track) # (6, app) # (5, port) # (4, host) # caps)"
      by (intro first_seq_Cons [OF first_Text first_seq_Cons [OF _ first_seq_Nil]]) simp
    with t show ?thesis by (auto intro!: first_Opt first_Seq)
  qed
  show ?thesis unfolding location_rx_def
    using first_seq_Cons [OF 4 first_seq_Cons [OF first_Text first_seq_Cons [OF 5 first_seq_Cons [OF first_Text
        first_seq_Cons [OF 6 first_seq_Cons [OF 7 first_seq_Nil]]]]]] by simp
qed

lemma rtsp_url_regex_parts:
  "rtsp_url_regex = Seq (Cap 1 (Text ''rtsp'') # Text ''://'' #
     Opt (Seq ([Cap 2 (Star (Not_In '':'')), Text '':'', Cap 3 (Star (Not_In ''@''))] @ Text ''@'' # [])) # location_rx)"
  by (simp add: rtsp_url_regex_def location_rx_def)

lemma url_match_plain:
  assumes "first_match_seq location_rx location [(1, ''rtsp'')] [] caps" and "CHR ''@'' \<notin> set location"
  shows "regex_search rtsp_url_regex (''rtsp'' @ ''://'' @ location) = Some caps"
proof (rule search_first)
  have "matches (Seq ([Cap 2 (Star (Not_In '':'')), Text '':'', Cap 3 (Star (Not_In ''@''))] @ Text ''@'' # [])) location [(1, ''rtsp'')] = []"
    by (simp only: matches.simps) (rule seq_needs_char [OF assms(2)], simp)
  note opt = first_Opt_none [OF this]
  show "first_match rtsp_url_regex (''rtsp'' @ ''://'' @ location) [] [] caps"
    unfolding rtsp_url_regex_parts
    by (intro first_Seq first_seq_Cons [OF first_Cap [OF first_Text]] first_seq_Cons [OF first_Text]
        first_seq_Cons [OF opt] assms(1))
qed

lemma url_match_user:
  assumes "first_match_seq location_rx location [(3, password), (2, user), (1, ''rtsp'')] [] caps"
    and "CHR '':'' \<notin> set user" and "CHR ''@'' \<notin> set password" and "CHR ''@'' \<notin> set location"
  shows "regex_search rtsp_url_regex (''rtsp'' @ ''://'' @ user @ '':'' @ password @ ''@'' @ location) = Some caps"
proof (rule search_first)
  have 2: "first_match (Cap 2 (Star (Not_In '':''))) (user @ '':'' @ password @ ''@'' @ location) [(1, ''rtsp'')]
      ('':'' @ password @ ''@'' @ location) [(2, user), (1, ''rtsp'')]"
    by (intro first_Cap first_Star) (use assms(2) in auto)
  have 3: "first_match (Cap 3 (Star (Not_In ''@''))) (password @ ''@'' @ location) [(2, user), (1, ''rtsp'')]
      (''@'' @ location) [(3, password), (2, user), (1, ''rtsp'')]"
    by (intro first_Cap first_Star) (use assms(3) in auto)
  have opt: "first_match (Opt (Seq ([Cap 2 (Star (Not_In '':'')), Text '':'', Cap 3 (Star (Not_In ''@''))] @ Text ''@'' # [])))
      (user @ '':'' @ password @ ''@'' @ location) [(1, ''rtsp'')] location [(3, password), (2, user), (1, ''rtsp'')]"
    unfolding append_Cons append_Nil
    using first_Opt [OF first_Seq [OF first_seq_Cons [OF 2 first_seq_Cons [OF first_Text
      first_seq_Cons [OF 3 first_seq_Cons [OF first_Text first_seq_Nil]]]]]] by simp
  show "first_match rtsp_url_regex (''rtsp'' @ ''://'' @ user @ '':'' @ password @ ''@'' @ location) [] [] caps"
    unfolding rtsp_url_regex_parts
    by (intro first_Seq first_seq_Cons [OF first_Cap [OF first_Text]] first_seq_Cons [OF first_Text]
        first_seq_Cons [OF opt] assms(1))
qed

lemma url_no_match:
  assumes "CHR '':'' \<notin> set location"
  shows "regex_search rtsp_url_regex (''rtsp'' @ ''://'' @ location) = None"
proof -
  have colon: "CHR '':'' \<in> set '':''" by simp
  obtain rest where parts: "location_rx = [Cap 4 (Star (Not_In '':''))] @ Text '':'' # rest"
    by (simp add: location_rx_def)
  have loc: "matches_seq location_rx location caps = []" for caps
    unfolding parts by (rule seq_needs_char [OF assms colon])
  have "[Cap 2 (Star (Not_In '':'')), Text '':'', Cap 3 (Star (Not_In ''@''))] @ Text ''@'' # [] =
      [Cap 2 (Star (Not_In '':''))] @ Text '':'' # [Cap 3 (Star (Not_In ''@'')), Text ''@'']" by simp
  then have user: "matches (Seq ([Cap 2 (Star (Not_In '':'')), Text '':'', Cap 3 (Star (Not_In ''@''))] @ Text ''@'' # [])) location caps = []" for caps
    using seq_needs_char [OF assms colon, of "[Cap 2 (Star (Not_In '':''))]"] by (simp only: matches.simps)
  have "matches rtsp_url_regex (''rtsp'' @ ''://'' @ location) [] = []"
    unfolding rtsp_url_regex_parts by (simp add: loc user [unfolded append_Cons append_Nil, simplified])
  moreover have "regex_search rtsp_url_regex location = None"
    using search_needs_char [OF assms, of "''://''" "[Cap 1 (Text ''rtsp'')]"] by (simp add: rtsp_url_regex_parts)
  moreover have "matches rtsp_url_regex s [] = []" if "take (length ''rtsp'') s \<noteq> ''rtsp''" for s
    using that by (simp add: rtsp_url_regex_parts)
  ultimately show ?thesis by simp
qed

definition url_of :: "string \<Rightarrow> string \<Rightarrow> string \<Rightarrow> string \<Rightarrow> string \<Rightarrow> string \<Rightarrow> rtsp_url" where
  "url_of user password host port app track =
     \<lparr>url_protocol = ''rtsp'', url_username = user, url_password = password, url_host = host, url_port = port,
      url_app = app, url_track = track\<rparr>"

text \<open>
  C31 (functional). The parts that \<open>parse_url\<close> finds in \<open>rtsp://\<close>host\<open>:\<close>port\<open>/\<close>app\<open>/\<close>track, with or without the
  track, when the host has no colon, the port is one or more digits, app and track have no
  slash, and there is no \<open>@\<close> in host, app and track: they are given back unchanged. With
  user\<open>:\<close>password\<open>@\<close> in front, the user without a colon and the password without an \<open>@\<close>, user and password are
  given back as well. Since a password may contain colons and slashes, an \<open>@\<close> in the path is misread:
  of \<open>rtsp://h:554/a@b:1/t\<close> the user is \<open>h\<close>, the password \<open>554/a\<close>, the host \<open>b\<close> and the app \<open>t\<close>.
  A URL without any colon behind the scheme, that is, one without a port, which RTSP allows, raises the exception
  that ends the connection.
\<close>

theorem url_parts:
  assumes "CHR '':'' \<notin> set host" and "port \<noteq> []" and "list_all is_digit port" and "CHR ''/'' \<notin> set app"
    and "CHR ''/'' \<notin> set track" and "CHR ''@'' \<notin> set (host @ app @ track)"
    and "CHR '':'' \<notin> set user" and "CHR ''@'' \<notin> set password" and "CHR '':'' \<notin> set without_port"
  shows "parse_url (''rtsp'' @ ''://'' @ host @ '':'' @ port @ ''/'' @ app @ ''/'' @ track) c =
      Inr (c\<lparr>conn_url := url_of '''' '''' host port app track\<rparr>)
    \<and> parse_url (''rtsp'' @ ''://'' @ host @ '':'' @ port @ ''/'' @ app @ '''') c =
      Inr (c\<lparr>conn_url := url_of '''' '''' host port app ''''\<rparr>)
    \<and> parse_url (''rtsp'' @ ''://'' @ user @ '':'' @ password @ ''@'' @ host @ '':'' @ port @ ''/'' @ app @ ''/'' @ track) c =
      Inr (c\<lparr>conn_url := url_of user password host port app track\<rparr>)
    \<and> parse_url (''rtsp'' @ ''://'' @ user @ '':'' @ password @ ''@'' @ host @ '':'' @ port @ ''/'' @ app @ '''') c =
      Inr (c\<lparr>conn_url := url_of user password host port app ''''\<rparr>)
    \<and> parse_url (''rtsp'' @ ''://'' @ without_port) c =
      Inl (Runtime_Error ''Parse DESCRIBE request url failed.'')"
proof (intro conjI)
  have digits: "CHR ''@'' \<notin> set port" using assms(3) by (auto simp: list_all_iff is_digit_def less_eq_char_def)
  have t: "''/'' @ track = [] \<and> [(7, track)] = [] \<or> ''/'' @ track = ''/'' @ track \<and> CHR ''/'' \<notin> set track \<and> [(7, track)] = [(7, track)]"
    using assms(5) by simp
  have t0: "'''' = [] \<and> [] = [] \<or> '''' = ''/'' @ [] \<and> CHR ''/'' \<notin> set [] \<and> [] = [(7, [])]" by simp
  note loc = location_match [OF assms(1-4) t] and loc0 = location_match [OF assms(1-4) t0]
  have at: "CHR ''@'' \<notin> set (host @ '':'' @ port @ ''/'' @ app @ ''/'' @ track)" using assms(6) digits by simp
  have at0: "CHR ''@'' \<notin> set (host @ '':'' @ port @ ''/'' @ app @ '''')" using assms(6) digits by simp
  show "parse_url (''rtsp'' @ ''://'' @ host @ '':'' @ port @ ''/'' @ app @ ''/'' @ track) c =
      Inr (c\<lparr>conn_url := url_of '''' '''' host port app track\<rparr>)"
    unfolding parse_url_def url_match_plain [OF loc at] by (simp add: capture_def url_of_def)
  show "parse_url (''rtsp'' @ ''://'' @ host @ '':'' @ port @ ''/'' @ app @ '''') c =
      Inr (c\<lparr>conn_url := url_of '''' '''' host port app ''''\<rparr>)"
    unfolding parse_url_def url_match_plain [OF loc0 at0] by (simp add: capture_def url_of_def)
  show "parse_url (''rtsp'' @ ''://'' @ user @ '':'' @ password @ ''@'' @ host @ '':'' @ port @ ''/'' @ app @ ''/'' @ track) c =
      Inr (c\<lparr>conn_url := url_of user password host port app track\<rparr>)"
  proof -
    have "first_match_seq location_rx (host @ '':'' @ port @ ''/'' @ app @ ''/'' @ track)
        [(3, password), (2, user), (1, ''rtsp'')] []
        ([(7, track)] @ [(6, app), (5, port), (4, host)] @ [(3, password), (2, user), (1, ''rtsp'')])"
      by (rule loc)
    from url_match_user [OF this assms(7,8) at] show ?thesis
      unfolding parse_url_def by (simp only:) (simp add: capture_def url_of_def)
  qed
  show "parse_url (''rtsp'' @ ''://'' @ user @ '':'' @ password @ ''@'' @ host @ '':'' @ port @ ''/'' @ app @ '''') c =
      Inr (c\<lparr>conn_url := url_of user password host port app ''''\<rparr>)"
  proof -
    have "first_match_seq location_rx (host @ '':'' @ port @ ''/'' @ app @ '''')
        [(3, password), (2, user), (1, ''rtsp'')] []
        ([] @ [(6, app), (5, port), (4, host)] @ [(3, password), (2, user), (1, ''rtsp'')])"
      by (rule loc0)
    from url_match_user [OF this assms(7,8) at0] show ?thesis
      unfolding parse_url_def by (simp only:) (simp add: capture_def url_of_def)
  qed
  show "parse_url (''rtsp'' @ ''://'' @ without_port) c = Inl (Runtime_Error ''Parse DESCRIBE request url failed.'')"
    unfolding parse_url_def url_no_match [OF assms(9)] by simp
qed

section \<open>Responses\<close>

text \<open>A response that answers the request: what every path of every handler establishes.\<close>

definition answers :: "rtsp_message \<Rightarrow> rtsp_message \<Rightarrow> bool" where
  "answers request r \<longleftrightarrow> msg_cseq r = get_cseq request \<and> sorted_keys (msg_headers r)
     \<and> map_of (msg_headers r) ''CSeq'' = None"

lemma answers_new: "answers request (set_cseq (get_cseq request) rtsp_message_new)"
  by (simp add: answers_def set_cseq_def rtsp_message_new_def)

lemma answers_set [simp]:
  "answers request r \<Longrightarrow> answers request (set_status_code s r)"
  "answers request r \<Longrightarrow> answers request (set_protocol p r)"
  "answers request r \<Longrightarrow> answers request (set_body b r)"
  "answers request r \<Longrightarrow> answers request (set_cseq (get_cseq request) r)"
  "answers request r \<Longrightarrow> key \<noteq> ''CSeq'' \<Longrightarrow> answers request (set_headers key val r)"
  by (auto simp: answers_def set_status_code_def set_protocol_def set_body_def set_cseq_def set_headers_def
      map_of_map_put intro: sorted_keys_map_put)

lemma status_set [simp]:
  "msg_status_code (set_status_code s r) = s"
  "msg_status_code (set_protocol p r) = msg_status_code r"
  "msg_status_code (set_body b r) = msg_status_code r"
  "msg_status_code (set_cseq n r) = msg_status_code r"
  "msg_status_code (set_headers key val r) = msg_status_code r"
  by (simp_all add: set_status_code_def set_protocol_def set_body_def set_cseq_def set_headers_def)

definition well_answered :: "rtsp_message \<Rightarrow> conn_state \<times> unit outcome \<Rightarrow> bool" where
  "well_answered request res \<longleftrightarrow>
     (\<forall>u. snd res = Done u \<longrightarrow> answers request (response (fst res)) \<and> msg_status_code (response (fst res)) \<noteq> Unset)"

lemma response_frame [simp]:
  "response (st\<lparr>conn := c\<rparr>) = response st" "response (st\<lparr>the_world := w\<rparr>) = response st"
  "response (st\<lparr>sent_datagrams := ds\<rparr>) = response st" "response (update_response f st) = f (response st)"
  by (simp_all add: update_response_def)

lemma handlers_answer:
  assumes "answers request (response st)"
  shows "well_answered request (handle_options request st)" "well_answered request (handle_describe env request st)"
    "well_answered request (handle_setup env request st)" "well_answered request (handle_play env request st)"
    "well_answered request (handle_pause request st)" "well_answered request (handle_teardown env request st)"
  using assms
  by (auto simp: well_answered_def handle_options_def handle_describe_def handle_setup_def handle_play_def
      handle_pause_def handle_teardown_def not_found_def ok_response_def Let_def
      split: sum.splits option.splits outcome.splits prod.splits if_splits)

text \<open>
  No response carries the CSeq header that RTSP requires: whatever the request, when its
  handler returns, the headers written by \<open>create_response\<close> contain no CSeq, although the number
  has been set, and the text sent does not depend on it. The headers are a well-formed map, and
  a status code is always set, so it is a response that is written.
\<close>

lemma responses_lack_cseq:
  assumes "handle_request env request st = (st', Done u)"
  shows "map_of (msg_headers (response st')) ''CSeq'' = None
    \<and> msg_cseq (response st') = get_cseq request
    \<and> create_response ((response st')\<lparr>msg_cseq := n\<rparr>) = create_response (response st')
    \<and> sorted_keys (msg_headers (response st')) \<and> msg_status_code (response st') \<noteq> Unset"
proof -
  let ?st = "st\<lparr>response := set_cseq (get_cseq request) rtsp_message_new\<rparr>"
  have "answers request (response ?st)" using answers_new by simp
  note h = handlers_answer [OF this]
  have other: "well_answered request (update_response (set_status_code MethodNotAllowed) ?st, Done ())"
    using answers_new by (simp add: well_answered_def)
  have "well_answered request (handle_request env request st)"
    unfolding handle_request_def Let_def using h other by (cases "get_method request") (simp_all only: rtsp_method.simps)
  with assms show ?thesis by (simp add: well_answered_def answers_def create_response_def)
qed

text \<open>
  C32 (functional). DESCRIBE of a URL that parses always answers and changes nothing but the URL of the
  connection: 406 unless the client accepts SDP, 404 with an empty body for an unknown stream,
  and otherwise the session description of the stream, whose length is the one announced.
\<close>

theorem describe_answers:
  assumes "get_method request = DESCRIBE" and "parse_url (uri request) (conn st) = Inr c"
  shows "\<exists>r. handle_request env request st = (st\<lparr>conn := c, response := r\<rparr>, Done ())
    \<and> (get_header_value ''Accept'' request \<noteq> ''application/sdp'' \<longrightarrow>
        msg_status_code r = NotAcceptable \<and> msg_headers r = [] \<and> msg_body r = [])
    \<and> (get_header_value ''Accept'' request = ''application/sdp'' \<and> get_media_source (url_app (conn_url c)) (lib (the_world st)) = None \<longrightarrow>
        msg_status_code r = NotFound \<and> msg_headers r = [(''Content-Length'', ''0'')] \<and> msg_body r = [])
    \<and> (\<forall>source. get_header_value ''Accept'' request = ''application/sdp''
          \<and> get_media_source (url_app (conn_url c)) (lib (the_world st)) = Some source \<longrightarrow>
        create_response r = get_protocol request @ '' 200 OK'' @ crlf
          @ ''Content-Length: '' @ nat_to_string (length (msg_body r)) @ crlf
          @ ''Content-Type: application/sdp'' @ crlf @ crlf @ msg_body r
        \<and> msg_body r = session_sdp env (url_host (conn_url c)) source (heap (lib (the_world st))))"
proof -
  let ?a = "get_header_value ''Accept'' request = ''application/sdp''"
  let ?g = "get_media_source (url_app (conn_url c)) (lib (the_world st))"
  let ?r = "set_cseq (get_cseq request) rtsp_message_new"
  have less: "''Content-Length'' < ''Content-Type''" by (simp add: less_char_def)
  have ok: "to_string 200 = ''200''" by code_simp
  note step = handle_request_def handle_describe_def update_response_def assms Let_def
  consider "\<not> ?a" | "?a" "?g = None" | source where "?a" "?g = Some source"
    by (cases ?g) auto
  then show ?thesis
  proof cases
    case 1
    then have "handle_request env request st = (st\<lparr>conn := c, response := set_cseq (get_cseq request) (set_status_code NotAcceptable ?r)\<rparr>, Done ())"
      by (simp add: step)
    with 1 show ?thesis by (intro exI conjI) (assumption, simp_all add: message_defs rtsp_message_new_def)
  next
    case 2
    then have "handle_request env request st = (st\<lparr>conn := c, response := set_headers ''Content-Length'' ''0'' (not_found request ?r)\<rparr>, Done ())"
      by (simp add: step not_found_def)
    with 2 show ?thesis by (intro exI conjI) (assumption, simp_all add: not_found_def message_defs rtsp_message_new_def)
  next
    case (3 source)
    let ?sdp = "session_sdp env (url_host (conn_url c)) source (heap (lib (the_world st)))"
    have "handle_request env request st = (st\<lparr>conn := c, response := set_body ?sdp (set_headers ''Content-Length'' (nat_to_string (length ?sdp))
        (set_headers ''Content-Type'' ''application/sdp'' (ok_response request ?r)))\<rparr>, Done ())"
      using 3 by (simp add: step ok_response_def)
    with 3 less ok show ?thesis
      by (intro exI conjI) (assumption, simp_all add: ok_response_def message_defs rtsp_message_new_def create_response_def)
  qed
qed

section \<open>Witnesses\<close>

definition demo_env :: env where
  "demo_env = \<lparr>env_files = (\<lambda>_. Some [0, 0, 1, 9, 9]), env_sys = (\<lambda>_. True), env_inet = (\<lambda>_. True),
     env_ssrc = 0x1234, env_rtp_buf = replicate rtp_buf_size 0, env_seconds = 1680000000, env_random = 42\<rparr>"

definition demo_conn :: conn_state where
  "demo_conn = \<lparr>conn = new_connection ''10.0.0.2'', response = rtsp_message_new, the_world = demo_world,
     sent_datagrams = []\<rparr>"

definition demo_request :: "rtsp_method \<Rightarrow> (string \<times> string) list \<Rightarrow> rtsp_message" where
  "demo_request m headers = rtsp_message_new\<lparr>msg_method := m, msg_request_uri := ''rtsp://h:554/fire/track0'',
     msg_protocol := ''RTSP/1.0'', msg_cseq := 7, msg_headers := headers\<rparr>"

lemma demo_url:
  "parse_url ''rtsp://h:554/fire/track0'' c = Inr (c\<lparr>conn_url := url_of '''' '''' ''h'' ''554'' ''fire'' ''track0''\<rparr>)"
proof -
  have t: "''/track0'' = [] \<and> [(7, ''track0'')] = [] \<or>
      ''/track0'' = ''/'' @ ''track0'' \<and> CHR ''/'' \<notin> set ''track0'' \<and> [(7, ''track0'')] = [(7, ''track0'')]" by simp
  have m: "first_match_seq location_rx (''h'' @ '':'' @ ''554'' @ ''/'' @ ''fire'' @ ''/track0'') [(1, ''rtsp'')] []
      ([(7, ''track0'')] @ [(6, ''fire''), (5, ''554''), (4, ''h'')] @ [(1, ''rtsp'')])"
    by (rule location_match [OF _ _ _ _ t]) (simp_all add: is_digit_def less_eq_char_def)
  have "CHR ''@'' \<notin> set (''h'' @ '':'' @ ''554'' @ ''/'' @ ''fire'' @ ''/track0'')" by simp
  from url_match_plain [OF m this] show ?thesis by (simp add: parse_url_def capture_def url_of_def)
qed

lemma session_ids_unique_witness:
  "generate_unique_session_id 1680000000 42 \<noteq> generate_unique_session_id 1680000000 43"
  using session_ids_unique [of 1680000000 42 1680000000 43] by simp

theorem url_parts_witness:
  "parse_url (''rtsp'' @ ''://'' @ ''example.org'' @ '':'' @ ''554'' @ ''/'' @ ''fire'' @ ''/'' @ ''track0'') (new_connection ''10.0.0.2'') =
     Inr ((new_connection ''10.0.0.2'')\<lparr>conn_url := url_of '''' '''' ''example.org'' ''554'' ''fire'' ''track0''\<rparr>)
   \<and> parse_url (''rtsp'' @ ''://'' @ ''example.org/fire'') (new_connection ''10.0.0.2'') =
       Inl (Runtime_Error ''Parse DESCRIBE request url failed.'')
   \<and> parse_url (''rtsp'' @ ''://'' @ ''h'' @ '':'' @ ''554/a'' @ ''@'' @ ''b'' @ '':'' @ ''1'' @ ''/'' @ ''t'' @ '''') (new_connection ''10.0.0.2'') =
       Inr ((new_connection ''10.0.0.2'')\<lparr>conn_url := url_of ''h'' ''554/a'' ''b'' ''1'' ''t'' ''''\<rparr>)"
  using url_parts [of "''example.org''" "''554''" "''fire''" "''track0''" "''user''" "''secret''" "''example.org/fire''"
    "new_connection ''10.0.0.2''"]
    url_parts [of "''b''" "''1''" "''t''" "''''" "''h''" "''554/a''" "''''" "new_connection ''10.0.0.2''"]
  by (simp add: is_digit_def less_eq_char_def)

lemma responses_lack_cseq_witness:
  "\<exists>st'. handle_request demo_env (demo_request OPTIONS []) demo_conn = (st', Done ())
     \<and> map_of (msg_headers (response st')) ''CSeq'' = None \<and> msg_cseq (response st') = 7"
proof -
  obtain st' where st': "handle_request demo_env (demo_request OPTIONS []) demo_conn = (st', Done ())"
    by (auto simp: handle_request_def demo_request_def handle_options_def get_method_def)
  from responses_lack_cseq [OF this] st' show ?thesis
    by (auto simp: demo_request_def get_cseq_def)
qed

theorem describe_answers_witness:
  "\<exists>r. handle_request demo_env (demo_request DESCRIBE [(''Accept'', ''application/sdp'')]) demo_conn =
       (demo_conn\<lparr>conn := (new_connection ''10.0.0.2'')\<lparr>conn_url := url_of '''' '''' ''h'' ''554'' ''fire'' ''track0''\<rparr>,
          response := r\<rparr>, Done ())
     \<and> msg_status_code r = NotFound"
proof -
  let ?r = "demo_request DESCRIBE [(''Accept'', ''application/sdp'')]"
  have req: "get_method ?r = DESCRIBE" "uri ?r = ''rtsp://h:554/fire/track0''"
    "get_header_value ''Accept'' ?r = ''application/sdp''"
    by (simp_all add: demo_request_def message_defs)
  have world: "conn demo_conn = new_connection ''10.0.0.2''" "get_media_source name (lib (the_world demo_conn)) = None" for name
    by (simp_all add: demo_conn_def demo_world_def get_media_source_def)
  have "parse_url (uri ?r) (conn demo_conn) =
      Inr ((new_connection ''10.0.0.2'')\<lparr>conn_url := url_of '''' '''' ''h'' ''554'' ''fire'' ''track0''\<rparr>)"
    by (simp only: req world demo_url)
  from describe_answers [OF req(1) this, of demo_env] req(3) world(2) show ?thesis by blast
qed

end
