(* ===== verification/HeapRelation.thy ===== *)
theory HeapRelation
  imports Session
begin

text \<open>
  What the operations of Session.cpp can do to the tracks: a relation between tracks that is
  reflexive and transitive and holds across every call of a track (\<open>MediaTrack.track_exec\<close>) made
  in the name of a session that \<open>acts\<close>, with the files of a \<open>disk\<close>, also holds, track by track,
  across every operation of such a session. The locale \<open>track_relation\<close> proves it once.
  WorldInvariant interprets it with ``the track keeps its name'', FilePosition with ``the track has
  seen only calls of other sessions'' and with ``the track still reads its file''.
\<close>

section \<open>The contract\<close>

fun call_of :: "track_call \<Rightarrow> string option" where
  "call_of (Register sid) = Some sid"
| "call_of (Unregister sid) = Some sid"
| "call_of (Get sid) = Some sid"
| "call_of c = None"

definition evolves :: "(media_track \<Rightarrow> media_track \<Rightarrow> bool) \<Rightarrow> media_track list \<Rightarrow> media_track list \<Rightarrow> bool" where
  "evolves R h h' \<longleftrightarrow> list_all track_ok h' \<and> list_all2 R h h'"

lemma evolves_ok: "evolves R h h' \<Longrightarrow> list_all track_ok h'"
  by (simp add: evolves_def)

lemma evolves_length: "evolves R h h' \<Longrightarrow> length h' = length h"
  by (auto simp: evolves_def list_all2_lengthD)

lemma evolves_at: "evolves R h h' \<Longrightarrow> a < length h \<Longrightarrow> R (h ! a) (h' ! a)"
  by (auto simp: evolves_def list_all2_conv_all_nth)

lemma evolves_sessions: "evolves R h h' \<Longrightarrow> session_ok h' s = session_ok h s"
  by (simp add: session_ok_def evolves_length)

lemma track_at: "list_all track_ok h \<Longrightarrow> a < length h \<Longrightarrow> track_ok (h ! a)"
  by (simp add: list_all_length)

lemma track_get_ok:
  assumes "track_ok t"
  shows "track_ok (fst (track_get_next_frame sid t))"
proof -
  have "cq_wf (frame_queue t)" using assms by (simp add: track_ok_def)
  with assms cq_wf_consume [OF this, of None sid] consume_frame [OF this, of None sid] show ?thesis
    by (simp add: track_get_simp track_ok_def)
qed

lemma track_register_ok: "track_ok t \<Longrightarrow> track_ok (track_register_session sid t)"
  by (auto simp: track_register_simp track_ok_def register_consumer_def
      intro: cq_wf_register [unfolded register_consumer_def])

locale track_relation =
  fixes acts :: "string \<Rightarrow> bool" and disk :: "(string \<Rightarrow> byte list option) \<Rightarrow> bool"
    and related :: "media_track \<Rightarrow> media_track \<Rightarrow> bool"
  assumes related_refl: "related t t"
    and related_trans: "related t t1 \<Longrightarrow> related t1 t2 \<Longrightarrow> related t t2"
    and related_exec: "track_ok t \<Longrightarrow> track_exec files c t = Done (f, t') \<Longrightarrow>
      (\<And>sid. call_of c = Some sid \<Longrightarrow> acts sid) \<Longrightarrow> (c = Start \<Longrightarrow> disk files) \<Longrightarrow> related t t'"
begin

section \<open>The calls\<close>

lemma related_start:
  assumes "disk files" and "track_ok t"
  shows "related t (fst (track_start files t))"
proof -
  obtain t' r where t': "track_start files t = (t', r)" by (metis prod.exhaust)
  with track_start_ok [OF assms(2), of files] have "track_exec files Start t = Done (None, t')"
    by (auto simp: track_exec_def)
  from related_exec [OF assms(2) this] assms(1) t' show ?thesis by simp
qed

lemma related_register: "acts sid \<Longrightarrow> track_ok t \<Longrightarrow> related t (track_register_session sid t)"
  by (rule related_exec [of t "\<lambda>_. None" "Register sid" None]) (simp_all add: track_exec_def)

lemma related_unregister:
  "acts sid \<Longrightarrow> track_ok t \<Longrightarrow> track_unregister_session sid t = Done t' \<Longrightarrow> related t t'"
  by (rule related_exec [of t "\<lambda>_. None" "Unregister sid" None]) (simp_all add: track_exec_def)

lemma related_get:
  assumes "acts sid" and "track_ok t"
  shows "related t (fst (track_get_next_frame sid t))"
proof -
  obtain t' r where r: "track_get_next_frame sid t = (t', r)" by (metis prod.exhaust)
  have "cq_wf (frame_queue t)" using assms(2) by (simp add: track_ok_def)
  then have "r \<noteq> Fail e" for e using consume_never_fails [of "frame_queue t" None sid e] r by (auto simp: track_get_simp)
  then have "\<exists>f. track_exec (\<lambda>_. None) (Get sid) t = Done (f, t')"
    using r by (cases r) (auto simp: track_exec_def)
  then obtain f where "track_exec (\<lambda>_. None) (Get sid) t = Done (f, t')" by blast
  from related_exec [OF assms(2) this] assms(1) r show ?thesis by simp
qed

lemma related_step: "track_ok t \<Longrightarrow> track_producer_step t = Done t' \<Longrightarrow> related t t'"
  by (rule related_exec [of t "\<lambda>_. None" Producer_Step None]) (simp_all add: track_exec_def)

section \<open>The heap of tracks\<close>

lemma evolves_refl: "list_all track_ok h \<Longrightarrow> evolves related h h"
  by (simp add: evolves_def list_all2_refl related_refl)

lemma evolves_trans [trans]: "evolves related h h1 \<Longrightarrow> evolves related h1 h2 \<Longrightarrow> evolves related h h2"
  unfolding evolves_def using list_all2_trans [of related related related h h1 h2] related_trans by blast

lemma evolves_update:
  assumes "list_all track_ok h" and "track_ok t" and "a < length h \<Longrightarrow> related (h ! a) t"
  shows "evolves related h (h[a := t])"
proof (cases "a < length h")
  case True
  have "related (h ! i) (h[a := t] ! i)" if "i < length h" for i
    using assms(3) [OF True] related_refl that by (cases "i = a") auto
  then have "list_all2 related h (h[a := t])" by (simp add: list_all2_conv_all_nth)
  then show ?thesis using list_all_update [OF assms(1,2)] by (simp add: evolves_def)
qed (use assms(1) evolves_refl in \<open>simp add: list_update_beyond\<close>)

section \<open>The operations of a session\<close>

lemma add_media_track_evolves:
  assumes "acts (session_id s)" and "session_add_media_track sys r b track a p1 p2 ip0 p3 p4 (h, s) = ((h', s'), res)"
    and "list_all track_ok h" and "session_ok h s" and "a < length h"
  shows "evolves related h h' \<and> session_ok h' s' \<and> session_id s' = session_id s"
proof -
  let ?h = "h[a := track_register_session (session_id s) (h ! a)]"
  have h': "h' = ?h"
    using assms(2) by (auto simp: session_add_media_track_def Let_def split: sum.splits option.splits if_splits)
  note ok = track_at [OF assms(3,5)]
  have keep: "evolves related h ?h"
    by (rule evolves_update [OF assms(3) track_register_ok [OF ok] related_register [OF assms(1) ok]])
  have "s' = s \<or> (\<exists>v. s' = s\<lparr>session_handlers := umap_put track v (session_handlers s)\<rparr> \<and> handler_track v = a)"
    using assms(2) by (auto simp: session_add_media_track_def Let_def split: sum.splits option.splits if_splits)
  then have "session_ok ?h s' \<and> session_id s' = session_id s"
  proof
    assume "\<exists>v. s' = s\<lparr>session_handlers := umap_put track v (session_handlers s)\<rparr> \<and> handler_track v = a"
    then obtain v where v: "s' = s\<lparr>session_handlers := umap_put track v (session_handlers s)\<rparr>" "handler_track v = a" by blast
    have "\<forall>(k, v)\<in>insert (track, v) (set (session_handlers s)). handler_track v < length ?h"
      using assms(4,5) v(2) by (auto simp: session_ok_def)
    then show ?thesis using set_umap_put [of track v "session_handlers s"] v(1) by (auto simp: session_ok_def)
  qed (use assms(4) in \<open>simp add: session_ok_def\<close>)
  with keep h' show ?thesis by simp
qed

lemma start_handler_evolves:
  assumes "disk files" and "start_handler files (h, v) = ((h', v'), res)" and "list_all track_ok h"
    and "handler_track v < length h"
  shows "evolves related h h' \<and> handler_track v' = handler_track v"
proof -
  let ?a = "handler_track v"
  obtain t r where t: "track_start files (h ! ?a) = (t, r)" by (metis prod.exhaust)
  note ok = track_at [OF assms(3,4)]
  have "track_ok t" "related (h ! ?a) t" using track_start_ok [OF ok, of files] related_start [OF assms(1) ok] t by auto
  then have "evolves related h (h[?a := t])" by (intro evolves_update assms(3))
  moreover have "(h' = h \<or> h' = h[?a := t]) \<and> handler_track v' = ?a"
    using assms(2) t by (auto simp: start_handler_def Let_def split: if_splits outcome.splits sum.splits)
  ultimately show ?thesis using evolves_refl [OF assms(3)] by auto
qed

lemma start_handlers_evolves:
  assumes "disk files" and "start_handlers files m h = ((h', m'), res)" and "list_all track_ok h"
    and "\<forall>(k, v)\<in>set m. handler_track v < length h"
  shows "evolves related h h' \<and> (\<forall>(k, v)\<in>set m'. handler_track v < length h)"
  using assms
proof (induction files m h arbitrary: h' m' res rule: start_handlers.induct)
  case (2 files k v m h)
  obtain h1 v1 r where v1: "start_handler files (h, v) = ((h1, v1), r)" by (metis prod.exhaust)
  have v1_ok: "evolves related h h1" "handler_track v1 = handler_track v"
    using start_handler_evolves [OF "2.prems"(1) v1] "2.prems"(3,4) by auto
  show ?case
  proof (cases r)
    case (Done u)
    obtain h2 m2 r2 where m2: "start_handlers files m h1 = ((h2, m2), r2)" by (metis prod.exhaust)
    have "evolves related h1 h2 \<and> (\<forall>(k, v)\<in>set m2. handler_track v < length h1)"
      using "2.IH" [OF v1 [symmetric] refl Done "2.prems"(1) m2] "2.prems"(4) evolves_ok [OF v1_ok(1)] evolves_length [OF v1_ok(1)] by simp
    with v1_ok "2.prems" v1 Done m2 show ?thesis using evolves_length [OF v1_ok(1)] evolves_trans [OF v1_ok(1)] by auto
  qed (use v1_ok "2.prems" v1 in auto)
qed (auto simp: evolves_refl)

lemma session_start_evolves:
  assumes "disk files" and "session_start files (h, s) = ((h', s'), res)" and "list_all track_ok h" and "session_ok h s"
  shows "evolves related h h' \<and> session_ok h' s' \<and> session_id s' = session_id s"
proof -
  obtain m where m: "start_handlers files (session_handlers s) h = ((h', m), res)" "s' = s\<lparr>session_handlers := m\<rparr>"
    using assms(2) by (auto simp: session_start_def split: prod.splits)
  from start_handlers_evolves [OF assms(1) m(1) assms(3)] assms(4) m(2) show ?thesis
    by (auto simp: session_ok_def evolves_length)
qed

text \<open>A step of a sender that does not wait.\<close>

lemma sender_step_evolves:
  assumes "acts sid" and "sender_step inet_ok sid (h, v) = Done ((h', v'), ds)" and "list_all track_ok h"
    and "handler_track v < length h"
  shows "evolves related h h' \<and> handler_track v' = handler_track v"
proof -
  let ?a = "handler_track v"
  obtain t r where t: "track_get_next_frame sid (h ! ?a) = (t, r)" by (metis prod.exhaust)
  note ok = track_at [OF assms(3,4)]
  have "evolves related h (h[?a := t])"
    using track_get_ok [OF ok, of sid] related_get [OF assms(1) ok] t by (intro evolves_update assms(3)) simp_all
  moreover have "(h' = h \<or> h' = h[?a := t]) \<and> handler_track v' = ?a"
    using assms(2) t
    by (auto simp: sender_step_def split: option.splits sender.splits if_splits outcome.splits sum.splits cpp_error.splits)
  ultimately show ?thesis using evolves_refl [OF assms(3)] by auto
qed

lemma run_sender_evolves:
  assumes "acts sid"
  shows "run_sender inet_ok sid k (h, v) = Done ((h', v'), ds) \<Longrightarrow> list_all track_ok h \<Longrightarrow> handler_track v < length h \<Longrightarrow>
   evolves related h h' \<and> handler_track v' = handler_track v"
proof (induction k arbitrary: h v ds)
  case 0
  then show ?case using evolves_refl [OF "0.prems"(2)] by (subst (asm) run_sender.simps) (auto split: if_splits)
next
  case (Suc k)
  show ?case
  proof (cases "sender_thread v = Some Sender_Returned")
    case True
    with Suc.prems(1) have "h' = h" "v' = v" by (subst (asm) run_sender.simps, simp)+
    with Suc.prems(2) show ?thesis by (simp add: evolves_refl)
  next
    case False
    with Suc.prems(1) obtain h1 v1 ds1 ds2 where s: "sender_step inet_ok sid (h, v) = Done ((h1, v1), ds1)"
      "run_sender inet_ok sid k (h1, v1) = Done ((h', v'), ds2)"
      by (subst (asm) run_sender.simps) (auto split: outcome.splits prod.splits)
    note one = sender_step_evolves [OF assms s(1) Suc.prems(2,3)]
    then have "list_all track_ok h1" "handler_track v1 < length h1"
      using Suc.prems(3) evolves_length [of related h h1] evolves_ok [of related h h1] by auto
    from Suc.IH [OF s(2) this] one show ?thesis by (auto intro: evolves_trans)
  qed
qed

lemma stop_handler_evolves:
  assumes "acts sid" and "stop_handler inet_ok sid (h, v) = Done ((h', v'), ds)" and "list_all track_ok h"
    and "handler_track v < length h"
  shows "evolves related h h' \<and> handler_track v' = handler_track v"
proof (cases "sender_thread v = None")
  case True
  with assms(2,3) show ?thesis by (auto simp: stop_handler_def evolves_refl)
next
  case False
  with assms(2) obtain v2 where run: "run_sender inet_ok sid 2 (h, v\<lparr>handler_active := False\<rparr>) = Done ((h', v2), ds)"
    "v' = v2\<lparr>sender_thread := None\<rparr>"
    by (auto simp: stop_handler_def split: outcome.splits prod.splits)
  from run_sender_evolves [OF assms(1) run(1) assms(3)] assms(4) run(2) show ?thesis by simp
qed

lemma stop_handlers_evolves:
  assumes "acts sid"
  shows "stop_handlers inet_ok sid m h = Done ((h', m'), ds) \<Longrightarrow> list_all track_ok h \<Longrightarrow>
   \<forall>(k, v)\<in>set m. handler_track v < length h \<Longrightarrow>
   evolves related h h' \<and> (\<forall>(k, v)\<in>set m'. handler_track v < length h)"
proof (induction m arbitrary: h m' ds)
  case (Cons e m)
  obtain k v where e: "e = (k, v)" by (cases e)
  with Cons.prems(1) obtain h1 v1 ds1 m2 ds2 where s: "stop_handler inet_ok sid (h, v) = Done ((h1, v1), ds1)"
    "stop_handlers inet_ok sid m h1 = Done ((h', m2), ds2)" "m' = (k, v1) # m2"
    by (auto split: outcome.splits prod.splits)
  have one: "evolves related h h1" "handler_track v1 = handler_track v"
    using stop_handler_evolves [OF assms s(1) Cons.prems(2)] Cons.prems(3) e by auto
  have "\<forall>(k, v)\<in>set m. handler_track v < length h1" using Cons.prems(3) evolves_length [OF one(1)] by simp
  from Cons.IH [OF s(2) evolves_ok [OF one(1)] this] one Cons.prems(3) e s(3) show ?case
    using evolves_length [OF one(1)] by (auto intro: evolves_trans)
qed (auto simp: evolves_refl)

lemma session_stop_evolves:
  assumes "acts (session_id s)" and "session_stop inet_ok (h, s) = Done ((h', s'), ds)" and "list_all track_ok h"
    and "session_ok h s"
  shows "evolves related h h' \<and> session_ok h' s' \<and> session_id s' = session_id s"
proof -
  obtain m where m: "stop_handlers inet_ok (session_id s) (session_handlers s) h = Done ((h', m), ds)"
    "s' = s\<lparr>session_handlers := m\<rparr>"
    using assms(2) by (auto simp: session_stop_def split: outcome.splits prod.splits)
  from stop_handlers_evolves [OF assms(1) m(1) assms(3)] assms(4) m(2) show ?thesis
    by (auto simp: session_ok_def evolves_length)
qed

lemma release_handlers_evolves:
  assumes "acts sid"
  shows "release_handlers sid m h = Done h' \<Longrightarrow> list_all track_ok h \<Longrightarrow> \<forall>(k, v)\<in>set m. handler_track v < length h \<Longrightarrow>
    evolves related h h'"
proof (induction m arbitrary: h)
  case (Cons e m)
  obtain k v where e: "e = (k, v)" by (cases e)
  let ?a = "handler_track v"
  have a: "?a < length h" using Cons.prems(3) e by auto
  note ok = track_at [OF Cons.prems(2) a]
  obtain t where t: "track_unregister_session sid (h ! ?a) = Done t" "release_handlers sid m (h[?a := t]) = Done h'"
    using Cons.prems(1) e by (auto split: outcome.splits)
  have "track_ok t" using track_unregister_ok [OF ok, of sid] t(1) by auto
  then have one: "evolves related h (h[?a := t])"
    using related_unregister [OF assms ok t(1)] by (intro evolves_update Cons.prems(2))
  from Cons.IH [OF t(2) evolves_ok [OF one]] Cons.prems(3) e one show ?case by (auto intro: evolves_trans)
qed (simp add: evolves_refl)

lemma session_destroy_evolves:
  assumes "acts (session_id s)" and "session_destroy inet_ok (h, s) = Done (h', ds)" and "list_all track_ok h"
    and "session_ok h s"
  shows "evolves related h h'"
proof -
  obtain h1 s1 where s1: "session_stop inet_ok (h, s) = Done ((h1, s1), ds)"
    "release_handlers (session_id s1) (session_handlers s1) h1 = Done h'"
    using assms(2) by (auto simp: session_destroy_def split: outcome.splits prod.splits)
  note stop = session_stop_evolves [OF assms(1) s1(1) assms(3,4)]
  then have "\<forall>(k, v)\<in>set (session_handlers s1). handler_track v < length h1" by (simp add: session_ok_def)
  from release_handlers_evolves [OF _ s1(2) evolves_ok [of related h h1] this] stop assms(1) show ?thesis
    by (auto intro: evolves_trans)
qed

end

end
