(* ===== verification/WorldInvariant.thy ===== *)
theory WorldInvariant
  imports HeapRelation
begin

text \<open>
  Every operation of Session.cpp and SessionManager.cpp, and every step of a sender or of a
  producer, keeps the invariant \<open>world_ok\<close>. The operations only see the tracks through \<open>keeps\<close>: the
  heap holds well-formed tracks of the same names at the same addresses.
\<close>

section \<open>Calls on a track keep its name\<close>

lemma track_start_name: "track_name (fst (track_start files t)) = track_name t"
  by (auto simp: track_start_def h264_start_def aac_start_def h264_open_def aac_open_def reset_thread_def Let_def
      split: media_type.split option.split outcome.split prod.split)

lemma track_step_name: "track_producer_step t = Done t' \<Longrightarrow> track_name t' = track_name t"
  by (auto simp: track_producer_step_def h264_producer_step_def aac_producer_step_def
      split: media_type.splits option.splits producer.splits if_splits sum.splits prod.splits outcome.splits)

lemma track_exec_name:
  assumes "track_ok t" and "track_exec files c t = Done (f, t')"
  shows "track_name t' = track_name t"
proof (cases c)
  case Start
  with assms(2) track_start_name [of files t] show ?thesis
    by (auto simp: track_exec_def split: prod.splits outcome.splits cpp_error.splits)
next
  case (Unregister sid)
  with assms(2) track_unregister_ok [OF assms(1), of sid] show ?thesis by (auto simp: track_exec_def)
next
  case Producer_Step
  with assms(2) show ?thesis by (auto simp: track_exec_def track_step_name split: outcome.splits)
qed (use assms(2) in \<open>auto simp: track_exec_def track_register_simp track_get_simp split: outcome.splits\<close>)

section \<open>The heap of tracks\<close>

definition keeps :: "media_track list \<Rightarrow> media_track list \<Rightarrow> bool" where
  "keeps = evolves (\<lambda>t t'. track_name t' = track_name t)"

interpretation names: track_relation "\<lambda>_. True" "\<lambda>_. True" "\<lambda>t t'. track_name t' = track_name t"
  by unfold_locales (auto dest: track_exec_name)

lemmas keeps_refl = names.evolves_refl [folded keeps_def]
  and keeps_trans [trans] = names.evolves_trans [folded keeps_def]
  and keeps_update = names.evolves_update [folded keeps_def]
  and keeps_ok = evolves_ok [where R = "\<lambda>t t'. track_name t' = track_name t", folded keeps_def]
  and keeps_length = evolves_length [where R = "\<lambda>t t'. track_name t' = track_name t", folded keeps_def]
  and keeps_name = evolves_at [where R = "\<lambda>t t'. track_name t' = track_name t", folded keeps_def]
  and keeps_sessions = evolves_sessions [where R = "\<lambda>t t'. track_name t' = track_name t", folded keeps_def]

lemmas add_media_track_keeps = names.add_media_track_evolves [OF TrueI, folded keeps_def]
  and session_start_keeps = names.session_start_evolves [OF TrueI, folded keeps_def]
  and sender_step_keeps = names.sender_step_evolves [OF TrueI, folded keeps_def]
  and session_stop_keeps = names.session_stop_evolves [OF TrueI, folded keeps_def]
  and session_destroy_keeps = names.session_destroy_evolves [OF TrueI, folded keeps_def]

lemma session_pause_keeps: "session_ok h s \<Longrightarrow> session_ok h (session_pause s) \<and> session_id (session_pause s) = session_id s"
  by (auto simp: session_ok_def session_pause_def set_map_values)

section \<open>The world\<close>

lemma world_ok_heap: "world_ok w \<Longrightarrow> list_all track_ok (heap (lib w))"
  by (simp add: world_ok_def library_ok_def)

lemma world_ok_session:
  assumes "world_ok w" and "get_session sid w = Some s"
  shows "session_ok (heap (lib w)) s \<and> session_id s = sid"
  using assms map_of_SomeD [of "sessions w" sid s] by (auto simp: world_ok_def get_session_def)

text \<open>
  The one step that all operations come down to: new tracks in the heap, new sessions in the
  manager's map, which are old ones or fit the new heap.
\<close>

lemma world_ok_update:
  assumes "world_ok w" and "keeps (heap (lib w)) h" and "distinct_keys m"
    and "\<And>k s. (k, s) \<in> set m \<Longrightarrow> (k, s) \<in> set (sessions w) \<or> session_id s = k \<and> session_ok h s"
  shows "world_ok (set_heap h (w\<lparr>sessions := m\<rparr>))"
proof -
  have "library_ok ((lib w)\<lparr>heap := h\<rparr>)"
    using assms(1,2) keeps_name [OF assms(2)]
    by (intro library_ok_set_heap) (auto simp: world_ok_def keeps_length keeps_ok)
  moreover have "session_id s = k \<and> session_ok h s" if "(k, s) \<in> set m" for k s
    using assms(1) assms(4) [OF that] keeps_sessions [OF assms(2), of s] by (auto simp: world_ok_def)
  ultimately show ?thesis using assms(3) by (auto simp: world_ok_def set_heap_def)
qed

lemma world_ok_put:
  assumes "world_ok w" and "keeps (heap (lib w)) h" and "session_id s = sid" and "session_ok h s"
  shows "world_ok (set_heap h (w\<lparr>sessions := umap_put sid s (sessions w)\<rparr>))"
proof (rule world_ok_update [OF assms(1,2)])
  show "distinct_keys (umap_put sid s (sessions w))"
    using assms(1) by (intro distinct_keys_update) (simp add: world_ok_def)
qed (use assms(3,4) set_umap_put [of sid s "sessions w"] in auto)

lemma world_ok_erase:
  assumes "world_ok w" and "keeps (heap (lib w)) h"
  shows "world_ok (set_heap h (w\<lparr>sessions := umap_erase sid (sessions w)\<rparr>))"
proof (rule world_ok_update [OF assms])
  show "distinct_keys (umap_erase sid (sessions w))"
    using assms(1) by (intro distinct_keys_delete) (simp add: world_ok_def)
qed (use set_umap_erase [of sid "sessions w"] in auto)

lemma set_heap_id: "set_heap (heap (lib w)) w = w"
  by (simp add: set_heap_def)

section \<open>SessionManager\<close>

text \<open>
  A move of the world by sessions that act: the invariant holds again, sources and port order are
  kept, the tracks evolve, and the sessions that do not act are as they were.
\<close>

definition world_moves :: "(string \<Rightarrow> bool) \<Rightarrow> (media_track \<Rightarrow> media_track \<Rightarrow> bool) \<Rightarrow> world \<Rightarrow> world \<Rightarrow> bool" where
  "world_moves acts R w w' \<longleftrightarrow> world_ok w' \<and> media_sources (lib w') = media_sources (lib w)
     \<and> evolves R (heap (lib w)) (heap (lib w')) \<and> suffix (available_ports (ports w')) (available_ports (ports w))
     \<and> (\<forall>sid. \<not> acts sid \<longrightarrow> get_session sid w' = get_session sid w)"

lemma world_moves_ok: "world_moves acts R w w' \<Longrightarrow> world_ok w'"
  by (simp add: world_moves_def)

locale world_relation = track_relation +
  assumes related_name: "related t t' \<Longrightarrow> track_name t' = track_name t"
begin

abbreviation moves :: "world \<Rightarrow> world \<Rightarrow> bool" where
  "moves \<equiv> world_moves acts related"

lemma evolves_keeps: "evolves related h h' \<Longrightarrow> keeps h h'"
  unfolding keeps_def evolves_def by (auto intro: list_all2_mono related_name)

lemma moves_refl: "world_ok w \<Longrightarrow> moves w w"
  by (simp add: world_moves_def evolves_refl world_ok_heap)

lemma moves_trans [trans]: "moves w w1 \<Longrightarrow> moves w1 w2 \<Longrightarrow> moves w w2"
  unfolding world_moves_def using evolves_trans suffix_order.trans by metis

lemma moves_put:
  assumes "world_ok w" and "evolves related (heap (lib w)) h" and "session_id s = sid" and "session_ok h s" and "acts sid"
  shows "moves w (set_heap h (w\<lparr>sessions := umap_put sid s (sessions w)\<rparr>))"
  using world_ok_put [OF assms(1) evolves_keeps [OF assms(2)] assms(3,4)] assms(2,5)
  by (auto simp: world_moves_def set_heap_def get_session_def update_conv')

lemma moves_erase:
  assumes "world_ok w" and "evolves related (heap (lib w)) h" and "acts sid"
  shows "moves w (set_heap h (w\<lparr>sessions := umap_erase sid (sessions w)\<rparr>))"
  using world_ok_erase [OF assms(1) evolves_keeps [OF assms(2)], of sid] assms(2,3)
  by (auto simp: world_moves_def set_heap_def get_session_def delete_conv')

lemma moves_ports:
  assumes "world_ok w" and "suffix (available_ports pool) (available_ports (ports w))"
  shows "moves w (w\<lparr>ports := pool\<rparr>)"
  using assms world_ok_heap [OF assms(1)] by (simp add: world_moves_def world_ok_def evolves_refl get_session_def)

lemma create_session_moves:
  assumes "acts sid" and "create_session inet_ok sid w = Done (w', ds)" and "world_ok w"
  shows "moves w w'"
proof -
  have new: "session_id (new_session sid) = sid" "session_ok h (new_session sid)" for h
    by (simp_all add: new_session_def session_ok_def)
  show ?thesis
  proof (cases "map_of (sessions w) sid")
    case None
    with assms(2) have w': "w' = set_heap (heap (lib w)) (w\<lparr>sessions := umap_put sid (new_session sid) (sessions w)\<rparr>)"
      by (auto simp: create_session_def set_heap_id [of "w\<lparr>sessions := m\<rparr>" for m, simplified])
    show ?thesis unfolding w'
      by (rule moves_put [OF assms(3) evolves_refl [OF world_ok_heap [OF assms(3)]] new assms(1)])
  next
    case (Some old)
    with assms(2) obtain h where h: "session_destroy inet_ok (heap (lib w), old) = Done (h, ds)"
      "w' = set_heap h (w\<lparr>sessions := umap_put sid (new_session sid) (sessions w)\<rparr>)"
      by (auto simp: create_session_def split: outcome.splits prod.splits)
    have "session_ok (heap (lib w)) old" "acts (session_id old)"
      using world_ok_session [OF assms(3), of sid old] Some assms(1) by (simp_all add: get_session_def)
    note k = session_destroy_evolves [OF this(2) h(1) world_ok_heap [OF assms(3)] this(1)]
    show ?thesis unfolding h(2) by (rule moves_put [OF assms(3) k new assms(1)])
  qed
qed

lemma terminate_session_moves:
  assumes "acts sid" and "terminate_session inet_ok sid w = Done (w', ds)" and "world_ok w"
  shows "moves w w'"
proof (cases "map_of (sessions w) sid")
  case None
  with assms moves_refl [OF assms(3)] show ?thesis by (simp add: terminate_session_def)
next
  case (Some s)
  with assms(2) obtain h s1 ds1 h1 ds2 where t: "session_stop inet_ok (heap (lib w), s) = Done ((h, s1), ds1)"
    "session_destroy inet_ok (h, s1) = Done (h1, ds2)"
    "w' = set_heap h1 (w\<lparr>sessions := umap_erase sid (sessions w)\<rparr>)"
    by (auto simp: terminate_session_def split: outcome.splits prod.splits)
  have "session_ok (heap (lib w)) s" "acts (session_id s)"
    using world_ok_session [OF assms(3), of sid s] Some assms(1) by (simp_all add: get_session_def)
  note stop = session_stop_evolves [OF this(2) t(1) world_ok_heap [OF assms(3)] this(1)]
  then have "evolves related h h1" using \<open>acts (session_id s)\<close>
    by (intro session_destroy_evolves [OF _ t(2)]) (auto dest: evolves_ok)
  with stop have k: "evolves related (heap (lib w)) h1" by (blast intro: evolves_trans)
  show ?thesis unfolding t(3) by (rule moves_erase [OF assms(3) k assms(1)])
qed

end

interpretation named_world: world_relation "\<lambda>_. True" "\<lambda>_. True" "\<lambda>t t'. track_name t' = track_name t"
  by unfold_locales simp

definition world_kept :: "world \<Rightarrow> world \<Rightarrow> bool" where
  "world_kept = world_moves (\<lambda>_. True) (\<lambda>t t'. track_name t' = track_name t)"

lemma world_kept_iff:
  "world_kept w w' \<longleftrightarrow> world_ok w' \<and> media_sources (lib w') = media_sources (lib w)
     \<and> keeps (heap (lib w)) (heap (lib w')) \<and> suffix (available_ports (ports w')) (available_ports (ports w))"
  by (simp add: world_kept_def world_moves_def keeps_def)

lemmas world_kept_refl = named_world.moves_refl [folded world_kept_def]
  and world_kept_trans [trans] = named_world.moves_trans [folded world_kept_def]

end
