(* ===== verification/Requests.thy ===== *)
theory Requests
  imports ConnectionHandler WorldInvariant
begin

text \<open>
  What requests do to the world that all connections share: a request is made in the name of
  one session, and across every handler the world moves as that session may move it (the locale
  \<open>world_relation\<close>): the invariant, the media sources and the port pool's order are kept, and the
  other sessions are not touched.
\<close>

text \<open>The session in whose name a request acts; SETUP without one draws a new identifier.\<close>

definition request_session :: "env \<Rightarrow> rtsp_message \<Rightarrow> string" where
  "request_session env request =
     (let sid = get_header_value ''Session'' request in
      if get_method request = SETUP \<and> sid = [] then generate_unique_session_id (env_seconds env) (env_random env) else sid)"

text \<open>The request that is read from what \<open>recv\<close> delivers.\<close>

definition received_request :: "string option \<Rightarrow> rtsp_message option" where
  "received_request incoming =
     (case receive_rtsp_message incoming of
        Inl e \<Rightarrow> None
      | Inr received_data \<Rightarrow>
          (case parse rtsp_message_new received_data of Inr (True, request) \<Rightarrow> Some request | _ \<Rightarrow> None))"

lemma allocate_suffix: "suffix (available_ports (snd (allocate_port_pair pool))) (available_ports pool)"
  by (cases "available_ports pool") (auto simp: allocate_port_pair_def intro: suffix_ConsI)

lemma found_track_in_heap:
  assumes "world_ok w" and "get_media_source name (lib w) = Some source" and "get_media_track track source = Some a"
  shows "a < length (heap (lib w))"
proof -
  have "source_ok (heap (lib w)) source"
    using assms(1,2) library_ok_source by (auto simp: world_ok_def)
  then show ?thesis using assms(3) map_of_SomeD by (fastforce simp: source_ok_def get_media_track_def)
qed

section \<open>The handlers move the world\<close>

lemma the_world_frame [simp]:
  "the_world (update_response f st) = the_world st"
  by (simp add: update_response_def)

context world_relation begin

lemma setup_session_moves:
  assumes "acts sid" and "setup_session env sid track a sp ip0 p3 p4 w = (w', r)" and "world_ok w" and "a < length (heap (lib w))"
  shows "moves w w'"
proof -
  let ?create = "if \<not> session_exists sid w then create_session (env_inet env) sid w else Done (w, [])"
  show ?thesis
  proof (cases ?create)
    case (Done wd)
    then obtain w1 ds where w1: "?create = Done (w1, ds)" by (cases wd) simp
    have k1: "moves w w1"
      using w1 create_session_moves [OF assms(1) _ assms(3)] moves_refl [OF assms(3)] by (auto split: if_splits)
    then have ok1: "world_ok w1" and a: "a < length (heap (lib w1))"
      using assms(4) evolves_length [of related] by (auto simp: world_moves_def)
    show ?thesis
    proof (cases "get_session sid w1")
      case None
      with assms(2) w1 k1 show ?thesis by (simp add: setup_session_def)
    next
      case (Some s)
      obtain h s1 res where add: "session_add_media_track (env_sys env) (env_ssrc env) (env_rtp_buf env) track a
          sp (sp + 1) ip0 p3 p4 (heap (lib w1), s) = ((h, s1), res)" by (metis prod.exhaust)
      note s = world_ok_session [OF ok1 Some]
      from add_media_track_evolves [OF _ add world_ok_heap [OF ok1] _ a] s assms(1)
      have "evolves related (heap (lib w1)) h" "session_ok h s1" "session_id s1 = sid" by auto
      from moves_put [OF ok1 this(1,3,2) assms(1)] assms(2) w1 Some add
      have "moves w1 w'" by (simp add: setup_session_def)
      with k1 show ?thesis by (rule moves_trans)
    qed
  qed (use assms(2,3) moves_refl in \<open>auto simp: setup_session_def\<close>)
qed

lemma handle_setup_moves:
  assumes "acts (request_session env request)" and "get_method request = SETUP" and "world_ok (the_world st)"
  shows "moves (the_world st) (the_world (fst (handle_setup env request st)))"
proof -
  let ?w = "the_world st" and ?pool = "snd (allocate_port_pair (ports (the_world st)))"
  have k: "moves ?w (?w\<lparr>ports := ?pool\<rparr>)"
    by (rule moves_ports [OF assms(3) allocate_suffix])
  have ok: "world_ok (?w\<lparr>ports := ?pool\<rparr>)" using k by (simp add: world_moves_def)
  have acts: "get_header_value ''Session'' request = [] \<Longrightarrow> acts (generate_unique_session_id (env_seconds env) (env_random env))"
    "get_header_value ''Session'' request \<noteq> [] \<Longrightarrow> acts (get_header_value ''Session'' request)"
    using assms(1,2) by (simp_all add: request_session_def)
  have added: "moves ?w w'"
    if "setup_session env sid (url_track u) a sp ip0 p3 p4 (?w\<lparr>ports := ?pool\<rparr>) = (w', r)" and "acts sid"
      and "get_media_source name (lib ?w) = Some source" and "get_media_track (url_track u) source = Some a"
    for sid u a sp ip0 p3 p4 w' r name source
    using setup_session_moves [OF that(2,1) ok] found_track_in_heap [OF assms(3) that(3,4)] k
    by (auto intro: moves_trans)
  obtain sp pool where a: "allocate_port_pair (ports ?w) = (sp, pool)" by (metis prod.exhaust)
  show ?thesis
    using moves_refl [OF assms(3)] k added acts unfolding a
    by (auto simp: handle_setup_def Let_def a split: sum.split option.split outcome.split prod.split)
qed

lemma handle_play_moves:
  assumes "acts (get_header_value ''Session'' request)" and "world_ok (the_world st)" and "disk (env_files env)"
  shows "moves (the_world st) (the_world (fst (handle_play env request st)))"
proof (cases "get_session (get_header_value ''Session'' request) (the_world st)")
  case None
  with moves_refl [OF assms(2)] show ?thesis by (simp add: handle_play_def)
next
  case (Some s)
  obtain h s1 r where start: "session_start (env_files env) (heap (lib (the_world st)), s) = ((h, s1), r)"
    by (metis prod.exhaust)
  note s = world_ok_session [OF assms(2) Some]
  from session_start_evolves [OF assms(3) start world_ok_heap [OF assms(2)]] s
  have k: "evolves related (heap (lib (the_world st))) h" "session_id s1 = get_header_value ''Session'' request" "session_ok h s1"
    by auto
  from moves_put [OF assms(2) k assms(1)] start Some show ?thesis
    by (cases r) (simp_all add: handle_play_def Let_def)
qed

lemma handle_pause_moves:
  assumes "acts (get_header_value ''Session'' request)" and "world_ok (the_world st)"
  shows "moves (the_world st) (the_world (fst (handle_pause request st)))"
proof (cases "get_session (get_header_value ''Session'' request) (the_world st)")
  case None
  with moves_refl [OF assms(2)] show ?thesis by (simp add: handle_pause_def)
next
  case (Some s)
  let ?w = "the_world st"
  have s1: "session_id (session_pause s) = get_header_value ''Session'' request" "session_ok (heap (lib ?w)) (session_pause s)"
    using world_ok_session [OF assms(2) Some] session_pause_keeps [of "heap (lib ?w)" s] by simp_all
  have "set_heap (heap (lib ?w)) (?w\<lparr>sessions := m\<rparr>) = ?w\<lparr>sessions := m\<rparr>" for m by (simp add: set_heap_def)
  with moves_put [OF assms(2) evolves_refl [OF world_ok_heap [OF assms(2)]] s1 assms(1)] Some show ?thesis
    by (simp add: handle_pause_def Let_def)
qed

lemma handle_teardown_moves:
  assumes "acts (get_header_value ''Session'' request)" and "world_ok (the_world st)"
  shows "moves (the_world st) (the_world (fst (handle_teardown env request st)))"
  using moves_refl [OF assms(2)] terminate_session_moves [OF assms(1) _ assms(2)]
  by (auto simp: handle_teardown_def Let_def split: outcome.split)

lemma handle_request_moves:
  assumes "acts (request_session env request)" and "world_ok (the_world st)" and "disk (env_files env)"
  shows "moves (the_world st) (the_world (fst (handle_request env request st)))"
proof -
  let ?st = "st\<lparr>response := set_cseq (get_cseq request) rtsp_message_new\<rparr>"
  have ok: "world_ok (the_world ?st)" using assms(2) by simp
  have "moves (the_world ?st) (the_world (fst (handle_options request ?st)))"
    "moves (the_world ?st) (the_world (fst (handle_describe env request ?st)))"
    using moves_refl [OF assms(2)]
    by (auto simp: handle_options_def handle_describe_def Let_def split: sum.split option.split)
  moreover have "get_method request \<noteq> SETUP \<Longrightarrow> acts (get_header_value ''Session'' request)"
    using assms(1) by (simp add: request_session_def)
  ultimately show ?thesis
    using handle_setup_moves [OF assms(1) _ ok] handle_play_moves [OF _ ok assms(3)] handle_pause_moves [OF _ ok]
      handle_teardown_moves [OF _ ok] moves_refl [OF assms(2)]
    by (cases "get_method request") (simp_all add: handle_request_def)
qed

lemma process_moves:
  "\<forall>(env, incoming, n)\<in>set inputs. disk (env_files env) \<and>
     (\<forall>request. received_request incoming = Some request \<longrightarrow> acts (request_session env request)) \<Longrightarrow>
   world_ok (the_world st) \<Longrightarrow> moves (the_world st) (the_world (fst (snd (process inputs st))))"
proof (induction inputs st rule: process.induct)
  case (2 env incoming bytes_sent inputs st)
  note here = moves_refl [OF "2.prems"(2)]
  show ?case
  proof (cases "receive_rtsp_message incoming")
    case (Inl e)
    with here show ?thesis by simp
  next
    case data: (Inr received_data)
    show ?thesis
    proof (cases "parse rtsp_message_new received_data")
      case (Inl e)
      with data here show ?thesis by simp
    next
      case parsed: (Inr okr)
      obtain ok request where okr: "okr = (ok, request)" by (cases okr)
      obtain st1 r where h: "handle_request env request st = (st1, r)" by (metis prod.exhaust)
      have acts: "ok \<Longrightarrow> acts (request_session env request)"
        using "2.prems"(1) data parsed okr by (simp add: received_request_def)
      then have k: "ok \<Longrightarrow> moves (the_world st) (the_world st1)"
        using handle_request_moves [OF _ "2.prems"(2), of env request] "2.prems"(1) h by simp
      show ?thesis
      proof (cases "ok \<and> (\<exists>u. r = Done u) \<and> (\<exists>u. send_rtsp_message bytes_sent (create_response (response st1)) = Inr u)
          \<and> get_method request \<noteq> TEARDOWN")
        case True
        then obtain u u' where t: "ok" "r = Done u" "send_rtsp_message bytes_sent (create_response (response st1)) = Inr u'"
          "get_method request \<noteq> TEARDOWN" by blast
        have ok1: "world_ok (the_world st1)" using k [OF t(1)] by (simp add: world_moves_def)
        have rest: "\<forall>(env, incoming, n)\<in>set inputs. disk (env_files env) \<and>
            (\<forall>request. received_request incoming = Some request \<longrightarrow> acts (request_session env request))"
          using "2.prems"(1) by simp
        have "moves (the_world st1) (the_world (fst (snd (process inputs st1))))"
          using "2.IH" [OF data parsed okr [symmetric] _ h [symmetric] t(2) refl t(3,4) rest ok1] t(1) by simp
        with k t data parsed okr h show ?thesis
          by (auto simp: case_prod_unfold Let_def intro: moves_trans)
      next
        case False
        with k here data parsed okr h show ?thesis
          by (cases ok; cases r) (auto simp: Let_def split: sum.split)
      qed
    qed
  qed
qed (simp add: moves_refl)

lemma connection_destroy_moves:
  assumes "conn_session_id (conn st) \<noteq> [] \<Longrightarrow> acts (conn_session_id (conn st))"
    and "connection_destroy env st = Done st'" and "world_ok (the_world st)"
  shows "moves (the_world st) (the_world st')"
  using assms terminate_session_moves moves_refl
  by (auto simp: connection_destroy_def split: if_splits outcome.splits prod.splits)

end

lemmas terminate_session_kept = named_world.terminate_session_moves [OF TrueI, folded world_kept_def]
  and setup_session_kept = named_world.setup_session_moves [OF TrueI, folded world_kept_def]

end
