(* ===== verification/SetupRequests.thy ===== *)
theory SetupRequests
  imports Requests
begin

text \<open>
  SETUP of a new session, from the request to the response: parsing of the Transport header,
  the server's ports, the session and its handler, the registration with the track's queue;
  and what is left behind when a socket cannot be created.
\<close>

section \<open>The Transport header\<close>

definition transport_spec :: string where
  "transport_spec = ''RTP/AVP;unicast;client_port=''"

lemma transport_match:
  assumes "p1 \<noteq> []" and "list_all is_digit p1" and "p2 \<noteq> []" and "list_all is_digit p2"
    and "rest = [] \<or> \<not> is_digit (hd rest)"
  shows "regex_search transport_regex (transport_spec @ p1 @ ''-'' @ p2 @ rest) = Some [(2, p2), (1, p1)]"
proof (rule search_first)
  have digits: "\<forall>c\<in>set p. in_class Digit c" if "list_all is_digit p" for p
    using that by (auto simp: list_all_iff)
  have 1: "first_match (Cap 1 (Plus Digit)) (p1 @ ''-'' @ p2 @ rest) [] (''-'' @ p2 @ rest) [(1, p1)]"
    by (intro first_Cap first_Plus assms(1) digits [OF assms(2)]) (simp add: is_digit_def less_eq_char_def)
  have 2: "first_match (Cap 2 (Plus Digit)) (p2 @ rest) [(1, p1)] rest [(2, p2), (1, p1)]"
    by (intro first_Cap first_Plus assms(3) digits [OF assms(4)]) (use assms(5) in auto)
  show "first_match transport_regex (transport_spec @ p1 @ ''-'' @ p2 @ rest) [] rest [(2, p2), (1, p1)]"
    unfolding transport_regex_def transport_spec_def
    by (intro first_Seq first_seq_Cons [OF first_Text] first_seq_Cons [OF 1] first_seq_Cons [OF 2] first_seq_Nil)
qed

lemma client_ports_of:
  assumes "n1 < 2 ^ 31" and "n2 < 2 ^ 31" and "rest = [] \<or> \<not> is_digit (hd rest)"
  shows "client_ports (transport_spec @ nat_to_string n1 @ ''-'' @ nat_to_string n2 @ rest) =
    Inr (int n1, int n2, nat_to_string n1 @ ''-'' @ nat_to_string n2)"
proof -
  note m = transport_match [OF nat_to_string_nonempty nat_to_string_digits nat_to_string_nonempty nat_to_string_digits assms(3)]
  show ?thesis unfolding client_ports_def m
    by (simp add: capture_def stoi_nat_to_string [OF assms(1)] stoi_nat_to_string [OF assms(2)])
qed

section \<open>A new session\<close>

text \<open>The handler that a successful SETUP leaves in the session.\<close>

definition setup_handler :: "env \<Rightarrow> string \<Rightarrow> nat \<Rightarrow> string \<Rightarrow> int \<Rightarrow> int \<Rightarrow> 32 word \<Rightarrow> session_handler" where
  "setup_handler env track a ip0 p3 p4 increment =
     \<lparr>handler_active = False, handler_track_name = track, sender_thread = None, handler_track = a,
      handler_rtp = \<lparr>ip = ip0, rtp_port = p3, rtcp_port = p4, client_addr = None, ssrc = env_ssrc env,
        rtp_sequence_number = 0, timestamp = 0, timestamp_increment = increment, rtp_buf = env_rtp_buf env,
        is_running = True, rtcp_send_thread = False, rtcp_receive_thread = False, rtcp_report_blocks = [],
        total_payload_size = 0, total_rtp_packet_sent = 0\<rparr>\<rparr>"

definition registered :: "string \<Rightarrow> nat \<Rightarrow> media_track list \<Rightarrow> media_track list" where
  "registered sid a h = h[a := track_register_session sid (h ! a)]"

lemma setup_session_new:
  assumes "\<not> session_exists sid w"
  shows "setup_session env sid track a sp ip0 p3 p4 w =
    (let h = registered sid a (heap (lib w)) in
     case first_failure (env_sys env) (handler_calls sp (sp + 1)) of
       Some c \<Rightarrow> (set_heap h (w\<lparr>sessions := umap_put sid (new_session sid) (sessions w)\<rparr>), Fail (Runtime_Error (sys_error c)))
     | None \<Rightarrow> (set_heap h (w\<lparr>sessions := umap_put sid
         \<lparr>session_id = sid, session_handlers = [(track, setup_handler env track a ip0 p3 p4
            (track_timestamp_increment (heap (lib w) ! a)))]\<rparr> (sessions w)\<rparr>), Done ()))"
proof -
  have put: "umap_put sid s1 (umap_put sid s0 m) = umap_put sid s1 m" for s0 s1 :: session and m
    by (induction m) auto
  show ?thesis using assms
    by (simp add: setup_session_def create_session_def session_exists_def get_session_def update_conv' new_session_def
        session_add_media_track_def rtp_rtcp_handler_def registered_def setup_handler_def put Let_def
        split: option.split)
qed

text \<open>
  A SETUP request for track \<open>a\<close>, whose URL parses to \<open>c\<close>, without a Session header, with the client's
  ports \<open>n1\<close> and \<open>n2\<close>.
\<close>

definition setup_request :: "rtsp_message \<Rightarrow> conn_state \<Rightarrow> connection \<Rightarrow> nat \<Rightarrow> nat \<Rightarrow> nat \<Rightarrow> bool" where
  "setup_request request st c a n1 n2 \<longleftrightarrow>
     get_method request = SETUP \<and> parse_url (uri request) (conn st) = Inr c
     \<and> get_header_value ''Transport'' request = transport_spec @ nat_to_string n1 @ ''-'' @ nat_to_string n2
     \<and> get_header_value ''Session'' request = '''' \<and> n1 < 2 ^ 31 \<and> n2 < 2 ^ 31
     \<and> find_track (url_app (conn_url c)) (url_track (conn_url c)) (lib (the_world st)) = Some a"

lemma handle_setup_request:
  assumes "setup_request request st c a n1 n2" and "allocate_port_pair (ports (the_world st)) = (sp, pool)"
    and "sid = generate_unique_session_id (env_seconds env) (env_random env)"
    and "setup_session env sid (url_track (conn_url c)) a sp (client_ip c) (int n1) (int n2)
      ((the_world st)\<lparr>ports := pool\<rparr>) = (w', r)"
  shows "handle_request env request st =
    (case r of
       Done _ \<Rightarrow> (st\<lparr>conn := c\<lparr>conn_session_id := sid\<rparr>, the_world := w',
           response := set_headers ''Session'' sid (set_headers ''Transport''
             (transport_spec @ (nat_to_string n1 @ ''-'' @ nat_to_string n2) @ '';server_port='' @ to_string sp @ ''-'' @ to_string (sp + 1))
             (ok_response request (set_cseq (get_cseq request) rtsp_message_new)))\<rparr>, Done ())
     | _ \<Rightarrow> (st\<lparr>conn := c\<lparr>conn_session_id := sid\<rparr>, the_world := w',
           response := set_cseq (get_cseq request) rtsp_message_new\<rparr>, r))"
proof -
  note s = assms(1) [unfolded setup_request_def]
  have ports: "client_ports (get_header_value ''Transport'' request) =
      Inr (int n1, int n2, nat_to_string n1 @ ''-'' @ nat_to_string n2)"
    using client_ports_of [of n1 n2 "[]"] s by simp
  obtain source where source: "get_media_source (url_app (conn_url c)) (lib (the_world st)) = Some source"
    "get_media_track (url_track (conn_url c)) source = Some a"
    using s by (auto simp: find_track_def split: option.splits)
  have sid0: "get_header_value ''Session'' request = []" and url: "parse_url (uri request) (conn st) = Inr c"
    using s by simp_all
  have "handle_request env request st = handle_setup env request (st\<lparr>response := set_cseq (get_cseq request) rtsp_message_new\<rparr>)"
    using s by (simp add: handle_request_def)
  also have "\<dots> = (case r of
       Done _ \<Rightarrow> (st\<lparr>conn := c\<lparr>conn_session_id := sid\<rparr>, the_world := w',
           response := set_headers ''Session'' sid (set_headers ''Transport''
             (transport_spec @ (nat_to_string n1 @ ''-'' @ nat_to_string n2) @ '';server_port='' @ to_string sp @ ''-'' @ to_string (sp + 1))
             (ok_response request (set_cseq (get_cseq request) rtsp_message_new)))\<rparr>, Done ())
     | _ \<Rightarrow> (st\<lparr>conn := c\<lparr>conn_session_id := sid\<rparr>, the_world := w',
           response := set_cseq (get_cseq request) rtsp_message_new\<rparr>, r))"
    using source assms(3,4) url
    by (cases r) (simp_all add: handle_setup_def ports sid0 assms(2) update_response_def transport_spec_def Let_def)
  finally show ?thesis .
qed

section \<open>What SETUP does\<close>

text \<open>The state of the track's queue after a registration.\<close>

lemma registered_pending:
  assumes "list_all track_ok h" and "a < length h"
  shows "pending (frame_queue (registered sid a h ! a)) = (pending (frame_queue (h ! a)))(sid \<mapsto> [])
    \<and> buffer (frame_queue (registered sid a h ! a)) = buffer (frame_queue (h ! a))
    \<and> cq_wf (frame_queue (registered sid a h ! a))"
proof -
  have "cq_wf (frame_queue (h ! a))" using track_at [OF assms] by (simp add: track_ok_def)
  then show ?thesis
    using assms(2) cq_wf_register [of "frame_queue (h ! a)" sid] pending_register [of "frame_queue (h ! a)" sid]
    by (simp add: registered_def track_register_simp register_consumer_def)
qed

lemma registered_reader:
  assumes "b < length h"
  shows "map_of (consumer_positions (frame_queue (registered sid a h ! b))) sid' = None \<longleftrightarrow>
    (a \<noteq> b \<or> sid' \<noteq> sid) \<and> map_of (consumer_positions (frame_queue (h ! b))) sid' = None"
  using assms by (cases "a = b") (simp_all add: registered_def track_register_simp register_consumer_def map_of_map_put)

lemma found_track_bound:
  assumes "world_ok w" and "find_track name track (lib w) = Some a"
  shows "a < length (heap (lib w))"
  using assms(2) found_track_in_heap [OF assms(1)] by (auto simp: find_track_def split: option.splits)

lemma allocate_first: "available_ports pool = p # ps \<Longrightarrow> allocate_port_pair pool = (p, \<lparr>available_ports = ps\<rparr>)"
  by (simp add: allocate_port_pair_def)

lemma first_failure_none: "first_failure sys cs = None \<longleftrightarrow> (\<forall>c\<in>set cs. sys c)"
  by (induction cs) auto

text \<open>The state after a SETUP that succeeds.\<close>

definition after_setup :: "env \<Rightarrow> rtsp_message \<Rightarrow> conn_state \<Rightarrow> connection \<Rightarrow> nat \<Rightarrow> nat \<Rightarrow> nat \<Rightarrow> int \<Rightarrow> int list \<Rightarrow> string \<Rightarrow> conn_state" where
  "after_setup env request st c a n1 n2 p ps sid =
     (let w = (the_world st)\<lparr>ports := \<lparr>available_ports = ps\<rparr>\<rparr>; h = heap (lib (the_world st));
          v = setup_handler env (url_track (conn_url c)) a (client_ip c) (int n1) (int n2) (track_timestamp_increment (h ! a)) in
      st\<lparr>conn := c\<lparr>conn_session_id := sid\<rparr>,
        the_world := set_heap (registered sid a h) (w\<lparr>sessions := umap_put sid
          \<lparr>session_id = sid, session_handlers = [(url_track (conn_url c), v)]\<rparr> (sessions w)\<rparr>),
        response := set_headers ''Session'' sid (set_headers ''Transport''
          (transport_spec @ (nat_to_string n1 @ ''-'' @ nat_to_string n2) @ '';server_port='' @ to_string p @ ''-'' @ to_string (p + 1))
          (ok_response request (set_cseq (get_cseq request) rtsp_message_new)))\<rparr>)"

lemma setup_succeeds:
  assumes "setup_request request st c a n1 n2" and "available_ports (ports (the_world st)) = p # ps"
    and "sid = generate_unique_session_id (env_seconds env) (env_random env)" and "\<not> session_exists sid (the_world st)"
    and "\<forall>call\<in>set (handler_calls p (p + 1)). env_sys env call"
  shows "handle_request env request st = (after_setup env request st c a n1 n2 p ps sid, Done ())"
proof -
  let ?w = "(the_world st)\<lparr>ports := \<lparr>available_ports = ps\<rparr>\<rparr>"
  have succeeds: "first_failure (env_sys env) (handler_calls p (p + 1)) = None"
    using assms(5) by (simp only: first_failure_none)
  have "\<not> session_exists sid ?w" using assms(4) by (simp add: session_exists_def)
  note new = setup_session_new [OF this, of env "url_track (conn_url c)" a p "client_ip c" "int n1" "int n2",
      unfolded succeeds Let_def option.case]
  from handle_setup_request [OF assms(1) allocate_first [OF assms(2)] assms(3) new] show ?thesis
    by (simp add: after_setup_def Let_def)
qed

lemma session_id_nonempty: "generate_unique_session_id t r \<noteq> []"
  by (simp add: generate_unique_session_id_def pad_left_def)

text \<open>The world after it.\<close>

lemma setup_state:
  assumes "world_ok (the_world st)" and "setup_request request st c a n1 n2"
    and "handle_request env request st = (st', Done ())" and "st' = after_setup env request st c a n1 n2 p ps sid"
  shows "world_ok (the_world st') \<and> available_ports (ports (the_world st')) = ps
    \<and> (\<exists>v. get_session sid (the_world st') = Some \<lparr>session_id = sid, session_handlers = [(url_track (conn_url c), v)]\<rparr>
        \<and> fresh_handler v \<and> handler_track v = a \<and> ip (handler_rtp v) = client_ip c \<and> rtp_port (handler_rtp v) = int n1)
    \<and> a < length (heap (lib (the_world st'))) \<and> heap (lib (the_world st')) = registered sid a (heap (lib (the_world st)))
    \<and> (\<forall>other. other \<noteq> sid \<longrightarrow> get_session other (the_world st') = get_session other (the_world st))
    \<and> conn_session_id (conn st') = sid"
proof -
  have "distinct_keys (sessions (the_world st))" using assms(1) by (simp add: world_ok_def)
  moreover have "world_ok (the_world st')"
    using named_world.handle_request_moves [OF TrueI assms(1) TrueI, of env request] assms(3) by (simp add: world_moves_def)
  moreover have "a < length (heap (lib (the_world st)))"
    using assms(2) found_track_bound [OF assms(1)] by (auto simp: setup_request_def)
  ultimately show ?thesis
    by (auto simp: assms(4) after_setup_def Let_def set_heap_def get_session_def umap.lookup_put fresh_handler_def
        setup_handler_def registered_def)
qed

text \<open>
  C19 (functional). A SETUP of a stream and a track that exist, without a Session header and with
  exactly \<open>RTP/AVP;unicast;client_port=\<close>n1\<open>-\<close>n2 in the Transport header, when a
  port is left and the system calls succeed, is answered with 200, the new session's
  identifier, the client's ports and the server's, which are the first of the pool and the next
  number. Afterwards the session exists, with one handler that is ready to be played: it reads
  that track, on which the session is registered with nothing to read yet, and sends to the
  client's address and RTP port. Other sessions are untouched, and nothing is sent.
\<close>

theorem setup_answers:
  assumes "world_ok (the_world st)" and "setup_request request st c a n1 n2"
    and "available_ports (ports (the_world st)) = p # ps"
    and "sid = generate_unique_session_id (env_seconds env) (env_random env)" and "\<not> session_exists sid (the_world st)"
    and "\<forall>call\<in>set (handler_calls p (p + 1)). env_sys env call"
  shows "\<exists>st' v. handle_request env request st = (st', Done ())
    \<and> create_response (response st') = get_protocol request @ '' 200 OK'' @ crlf @ ''Session: '' @ sid @ crlf
        @ ''Transport: RTP/AVP;unicast;client_port='' @ nat_to_string n1 @ ''-'' @ nat_to_string n2
        @ '';server_port='' @ to_string p @ ''-'' @ to_string (p + 1) @ crlf @ crlf
    \<and> conn_session_id (conn st') = sid \<and> available_ports (ports (the_world st')) = ps
    \<and> get_session sid (the_world st') = Some \<lparr>session_id = sid, session_handlers = [(url_track (conn_url c), v)]\<rparr>
    \<and> fresh_handler v \<and> handler_track v = a \<and> ip (handler_rtp v) = client_ip c \<and> rtp_port (handler_rtp v) = int n1
    \<and> pending (frame_queue (heap (lib (the_world st')) ! a)) =
        (pending (frame_queue (heap (lib (the_world st)) ! a)))(sid \<mapsto> [])
    \<and> (\<forall>other. other \<noteq> sid \<longrightarrow> get_session other (the_world st') = get_session other (the_world st))
    \<and> sent_datagrams st' = sent_datagrams st"
proof -
  define st' where "st' = after_setup env request st c a n1 n2 p ps sid"
  have step: "handle_request env request st = (st', Done ())"
    unfolding st'_def by (rule setup_succeeds [OF assms(2-6)])
  have a: "a < length (heap (lib (the_world st)))"
    using assms(2) found_track_bound [OF assms(1)] by (auto simp: setup_request_def)
  have less: "''Session'' < ''Transport''" "\<not> ''Transport'' < ''Session''" by (simp_all add: less_char_def)
  have ok: "to_string 200 = ''200''" by code_simp
  have "create_response (response st') = get_protocol request @ '' 200 OK'' @ crlf @ ''Session: '' @ sid @ crlf
      @ ''Transport: RTP/AVP;unicast;client_port='' @ nat_to_string n1 @ ''-'' @ nat_to_string n2
      @ '';server_port='' @ to_string p @ ''-'' @ to_string (p + 1) @ crlf @ crlf" "sent_datagrams st' = sent_datagrams st"
    using less ok by (simp_all add: st'_def after_setup_def Let_def ok_response_def message_defs rtsp_message_new_def
        create_response_def transport_spec_def)
  with step setup_state [OF assms(1,2) step st'_def] registered_pending [OF world_ok_heap [OF assms(1)] a, of sid]
  show ?thesis by (elim conjE exE) (intro exI conjI, assumption+, simp_all)
qed

text \<open>A registered session that no one serves any more stops the producer of its track.\<close>

lemma absent_reader_stalls:
  assumes "cq_wf q" and "map_of (consumer_positions q) sid \<noteq> None"
    and "run_channel produce (consume None) register_consumer unregister_consumer ops (set_run q) = Some (q', log)"
    and "stays sid ops" and "Receive sid \<notin> set ops"
  shows "length (sent ops) \<le> length (buffer q) - 1"
proof -
  have run: "running (set_run q)" using assms(1) by (simp add: running_def cq_wf_set_run, simp add: set_run_def)
  obtain l where "pending (set_run q) sid = Some l" using assms(2) by (auto simp: pending_def set_run_def)
  from cq.silent_reader_bounds_sending [OF assms(3) run this assms(4,5)] show ?thesis by (simp add: set_run_def)
qed

text \<open>
  C34 (error). When a system call fails (say, the port is taken by another program), SETUP throws
  after the session has been registered with the track. The connection is closed, and its
  destructor removes the session, but not the registration, because the session has no handler:
  the port is lost, and from then on a reader that does not exist holds the track's queue. In
  any run in which that identifier neither receives nor leaves, whatever the other sessions do,
  the producer cannot get past the queue's capacity: every client of the track stalls.
\<close>

theorem failed_setup_leaves_reader:
  assumes "world_ok (the_world st)" and "setup_request request st c a n1 n2"
    and "available_ports (ports (the_world st)) = p # ps"
    and "sid = generate_unique_session_id (env_seconds env) (env_random env)" and "\<not> session_exists sid (the_world st)"
    and "first_failure (env_sys env) (handler_calls p (p + 1)) = Some call" and "sid \<noteq> []"
  shows "\<exists>st1 st2 q. handle_request env request st = (st1, Fail (Runtime_Error (sys_error call)))
    \<and> connection_destroy env' st1 = Done st2 \<and> \<not> session_exists sid (the_world st2)
    \<and> available_ports (ports (the_world st2)) = ps
    \<and> q = frame_queue (heap (lib (the_world st2)) ! a) \<and> pending q sid = Some []
    \<and> (\<forall>ops q' log. run_channel produce (consume None) register_consumer unregister_consumer ops (set_run q) = Some (q', log)
         \<and> stays sid ops \<and> Receive sid \<notin> set ops \<longrightarrow> length (sent ops) \<le> length (buffer q) - 1)"
proof -
  let ?w = "(the_world st)\<lparr>ports := \<lparr>available_ports = ps\<rparr>\<rparr>" and ?h = "heap (lib (the_world st))"
  define w1 where "w1 = set_heap (registered sid a ?h) (?w\<lparr>sessions := umap_put sid (new_session sid) (sessions ?w)\<rparr>)"
  define w2 where "w2 = w1\<lparr>sessions := umap_erase sid (sessions w1)\<rparr>"
  define st1 where "st1 = st\<lparr>conn := c\<lparr>conn_session_id := sid\<rparr>, the_world := w1,
    response := set_cseq (get_cseq request) rtsp_message_new\<rparr>"
  let ?q = "frame_queue (registered sid a ?h ! a)"
  have a: "a < length ?h"
    using assms(2) found_track_bound [OF assms(1)] by (auto simp: setup_request_def)
  have "\<not> session_exists sid ?w" using assms(5) by (simp add: session_exists_def)
  from setup_session_new [OF this, of env "url_track (conn_url c)" a p "client_ip c" "int n1" "int n2"]
  have "setup_session env sid (url_track (conn_url c)) a p (client_ip c) (int n1) (int n2) ?w =
      (w1, Fail (Runtime_Error (sys_error call)))"
    using assms(6) by (simp add: w1_def Let_def)
  from handle_setup_request [OF assms(2) allocate_first [OF assms(3)] assms(4) this]
  have request: "handle_request env request st = (st1, Fail (Runtime_Error (sys_error call)))"
    by (simp add: st1_def)
  have dist: "distinct_keys (sessions w1)"
    using assms(1) by (simp add: w1_def set_heap_def world_ok_def distinct_keys_update)
  have "map_of (sessions w1) sid = Some (new_session sid)"
    by (simp add: w1_def set_heap_def update_conv')
  then have "terminate_session (env_inet env') sid w1 = Done (w2, [])"
    by (simp add: terminate_session_def session_stop_def session_destroy_def new_session_def w2_def set_heap_def)
  then have destroyed: "connection_destroy env' st1 = Done (st1\<lparr>the_world := w2\<rparr>)"
    using assms(7) by (simp add: connection_destroy_def st1_def)
  have w2: "\<not> session_exists sid w2" "available_ports (ports w2) = ps" "heap (lib w2) = registered sid a ?h"
    using dist by (simp_all add: w2_def session_exists_def umap.lookup_erase) (simp_all add: w1_def set_heap_def)
  have reg: "cq_wf ?q" "pending ?q sid = Some []"
    using registered_pending [OF world_ok_heap [OF assms(1)] a, of sid] by simp_all
  then have "map_of (consumer_positions ?q) sid \<noteq> None" by (auto simp: pending_def)
  note stalls = absent_reader_stalls [OF reg(1) this]
  show ?thesis
    using request destroyed w2 reg(2) stalls
    by (intro exI [of _ st1] exI [of _ "st1\<lparr>the_world := w2\<rparr>"] exI [of _ ?q]) auto
qed

text \<open>
  C35 (error). The connection remembers one session only. When a client sets up two tracks
  without naming a session in the second request, each gets a session of its own, and when the
  connection ends, its destructor terminates the second one. The first is left: it still exists,
  with its handler, and is registered with its track, and nothing in the server will ever remove
  it. From then on, unless some client names that identifier, the track's producer cannot get
  past the queue's capacity, and every client of the track stalls.
\<close>

theorem second_setup_orphans_first:
  assumes "world_ok (the_world st)"
    and "setup_request request1 st c1 a n1 n2" and "available_ports (ports (the_world st)) = p1 # p2 # ps"
    and "sid1 = generate_unique_session_id (env_seconds env1) (env_random env1)" and "\<not> session_exists sid1 (the_world st)"
    and "\<forall>call\<in>set (handler_calls p1 (p1 + 1)). env_sys env1 call"
    and "st1 = after_setup env1 request1 st c1 a n1 n2 p1 (p2 # ps) sid1"
    and "setup_request request2 st1 c2 a2 m1 m2"
    and "sid2 = generate_unique_session_id (env_seconds env2) (env_random env2)" and "\<not> session_exists sid2 (the_world st1)"
    and "\<forall>call\<in>set (handler_calls p2 (p2 + 1)). env_sys env2 call"
  shows "\<exists>st2 st3 q. handle_request env1 request1 st = (st1, Done ()) \<and> handle_request env2 request2 st1 = (st2, Done ())
    \<and> connection_destroy env3 st2 = Done st3 \<and> \<not> session_exists sid2 (the_world st3)
    \<and> session_exists sid1 (the_world st3) \<and> get_session sid1 (the_world st3) = get_session sid1 (the_world st1)
    \<and> q = frame_queue (heap (lib (the_world st3)) ! a) \<and> map_of (consumer_positions q) sid1 \<noteq> None
    \<and> (\<forall>ops q' log. run_channel produce (consume None) register_consumer unregister_consumer ops (set_run q) = Some (q', log)
         \<and> stays sid1 ops \<and> Receive sid1 \<notin> set ops \<longrightarrow> length (sent ops) \<le> length (buffer q) - 1)"
proof -
  define st2 where "st2 = after_setup env2 request2 st1 c2 a2 m1 m2 p2 ps sid2"
  let ?w = "the_world st" and ?w1 = "the_world st1" and ?w2 = "the_world st2"
  from setup_succeeds [OF assms(2-6)] assms(7) have first: "handle_request env1 request1 st = (st1, Done ())" by simp
  note w1 = setup_state [OF assms(1,2) first assms(7)]
  from setup_succeeds [OF assms(8) _ assms(9-11), of ps] w1 have second: "handle_request env2 request2 st1 = (st2, Done ())"
    by (simp add: st2_def)
  note w2 = setup_state [OF conjunct1 [OF w1] assms(8) second st2_def]
  from w2 obtain s2 where s2: "get_session sid2 ?w2 = Some s2" "\<forall>(k, v)\<in>set (session_handlers s2). sender_thread v \<noteq> Some In_Get"
    by (auto simp: fresh_handler_def)
  from terminate_session_returns [OF conjunct1 [OF w2] s2, of "env_inet env3"] obtain h' where
    h': "terminate_session (env_inet env3) sid2 ?w2 = Done (set_heap h' (?w2\<lparr>sessions := umap_erase sid2 (sessions ?w2)\<rparr>), [])"
      "released sid2 (session_handlers s2) (heap (lib ?w2)) h'" by blast
  define st3 where "st3 = st2\<lparr>the_world := set_heap h' (?w2\<lparr>sessions := umap_erase sid2 (sessions ?w2)\<rparr>)\<rparr>"
  have destroyed: "connection_destroy env3 st2 = Done st3"
    using h'(1) w2 session_id_nonempty assms(9) by (simp add: connection_destroy_def st3_def)
  have differ: "sid2 \<noteq> sid1" using assms(10) w1 by (auto simp: session_exists_def get_session_def)
  have "distinct_keys (sessions ?w2)" using w2 by (simp add: world_ok_def)
  then have gone: "\<not> session_exists sid2 (the_world st3)" and kept: "get_session sid1 (the_world st3) = get_session sid1 ?w1"
    using differ w2 by (auto simp: st3_def set_heap_def session_exists_def get_session_def umap.lookup_erase)
  then have left: "session_exists sid1 (the_world st3)" using w1 by (auto simp: session_exists_def get_session_def)
  let ?q = "frame_queue (heap (lib (the_world st3)) ! a)"
  have heap3: "heap (lib (the_world st3)) = h'" by (simp add: st3_def set_heap_def)
  have a: "a < length (heap (lib ?w1))" "a < length h'" "track_ok (h' ! a)"
    using w1 w2 h'(2) by (auto simp: released_def registered_def list_all_length)
  have "a < length (heap (lib ?w))" using a(1) w1 by (simp add: registered_def)
  then have "map_of (consumer_positions (frame_queue (heap (lib ?w2) ! a))) sid1 \<noteq> None"
    using w1 w2 a(1) by (simp add: registered_reader)
  then have reg: "map_of (consumer_positions ?q) sid1 \<noteq> None" and wf: "cq_wf ?q"
    using a h'(2) differ by (simp_all add: heap3 released_def map_of_map_erase track_ok_def)
  note stalls = absent_reader_stalls [OF wf reg]
  show ?thesis using first second destroyed gone left kept reg stalls
    by (intro exI [of _ st2] exI [of _ st3] exI [of _ ?q]) simp
qed

section \<open>Witnesses\<close>

definition setup_world :: world where
  "setup_world = \<lparr>lib = \<lparr>heap = [demo_track], media_sources = [(''fire'', \<lparr>stream_name = ''fire'', media_tracks = [(''track0'', 0)]\<rparr>)]\<rparr>,
     sessions = [], ports = \<lparr>available_ports = [15000, 15002]\<rparr>\<rparr>"

definition setup_conn :: conn_state where
  "setup_conn = demo_conn\<lparr>the_world := setup_world\<rparr>"

definition setup_demo :: rtsp_message where
  "setup_demo = demo_request SETUP [(''Transport'', transport_spec @ nat_to_string 4000 @ ''-'' @ nat_to_string 4001)]"

lemma setup_world_ok: "world_ok (the_world setup_conn)"
  using new_track_ok [OF demo_frame_buf_length, of H264 "''track0''" "''v.h264''"]
  by (simp add: world_ok_def library_ok_def source_ok_def setup_conn_def setup_world_def demo_track_def distinct_keys_def
      new_track_def h264_media_track_def)

lemma setup_demo_request:
  "setup_request setup_demo setup_conn ((new_connection ''10.0.0.2'')\<lparr>conn_url := url_of '''' '''' ''h'' ''554'' ''fire'' ''track0''\<rparr>) 0 4000 4001"
proof -
  have "uri setup_demo = ''rtsp://h:554/fire/track0''" "conn setup_conn = new_connection ''10.0.0.2''"
    by (simp_all add: setup_demo_def demo_request_def uri_def setup_conn_def demo_conn_def)
  then have "parse_url (uri setup_demo) (conn setup_conn) =
      Inr ((new_connection ''10.0.0.2'')\<lparr>conn_url := url_of '''' '''' ''h'' ''554'' ''fire'' ''track0''\<rparr>)"
    by (simp only: demo_url)
  then show ?thesis
    by (simp add: setup_request_def setup_demo_def demo_request_def message_defs setup_conn_def setup_world_def find_track_def
        get_media_source_def get_media_track_def url_of_def)
qed

lemma setup_conn_facts:
  "available_ports (ports (the_world setup_conn)) = 15000 # [15002]" "\<not> session_exists sid (the_world setup_conn)"
  by (simp_all add: setup_conn_def setup_world_def session_exists_def)

theorem setup_answers_witness:
  "\<exists>st' v. handle_request demo_env setup_demo setup_conn = (st', Done ())
     \<and> get_session (generate_unique_session_id 1680000000 42) (the_world st') =
         Some \<lparr>session_id = generate_unique_session_id 1680000000 42, session_handlers = [(''track0'', v)]\<rparr>
     \<and> available_ports (ports (the_world st')) = [15002]"
proof -
  have "\<forall>call\<in>set (handler_calls 15000 (15000 + 1)). env_sys demo_env call" by (simp add: demo_env_def)
  moreover have "generate_unique_session_id 1680000000 42 = generate_unique_session_id (env_seconds demo_env) (env_random demo_env)"
    by (simp add: demo_env_def)
  ultimately show ?thesis
    using setup_answers [OF setup_world_ok setup_demo_request setup_conn_facts(1) _ setup_conn_facts(2)]
    by (fastforce simp: url_of_def)
qed

theorem failed_setup_leaves_reader_witness:
  "\<exists>st1 st2. handle_request (demo_env\<lparr>env_sys := (\<lambda>c. c \<noteq> Rtcp_Socket)\<rparr>) setup_demo setup_conn =
       (st1, Fail (Runtime_Error ''RtpRtcpHandler create server rtcp socket failed''))
     \<and> connection_destroy demo_env st1 = Done st2 \<and> available_ports (ports (the_world st2)) = [15002]
     \<and> pending (frame_queue (heap (lib (the_world st2)) ! 0)) (generate_unique_session_id 1680000000 42) = Some []"
proof -
  let ?env = "demo_env\<lparr>env_sys := (\<lambda>c. c \<noteq> Rtcp_Socket)\<rparr>"
  have fails: "first_failure (env_sys ?env) (handler_calls 15000 (15000 + 1)) = Some Rtcp_Socket"
    by (simp add: handler_calls_def)
  have "generate_unique_session_id 1680000000 42 = generate_unique_session_id (env_seconds ?env) (env_random ?env)"
    by (simp add: demo_env_def)
  from failed_setup_leaves_reader [OF setup_world_ok setup_demo_request setup_conn_facts(1) this setup_conn_facts(2) fails
      session_id_nonempty, of demo_env]
  show ?thesis by fastforce
qed

text \<open>The second SETUP of the same client, one random number later.\<close>

definition setup_conn1 :: conn_state where
  "setup_conn1 = after_setup demo_env setup_demo setup_conn
     ((new_connection ''10.0.0.2'')\<lparr>conn_url := url_of '''' '''' ''h'' ''554'' ''fire'' ''track0''\<rparr>) 0 4000 4001 15000 [15002]
     (generate_unique_session_id 1680000000 42)"

lemma setup_demo_again:
  "setup_request setup_demo setup_conn1 ((conn setup_conn1)\<lparr>conn_url := url_of '''' '''' ''h'' ''554'' ''fire'' ''track0''\<rparr>) 0 4000 4001"
proof -
  have "uri setup_demo = ''rtsp://h:554/fire/track0''" by (simp add: setup_demo_def demo_request_def uri_def)
  then have "parse_url (uri setup_demo) (conn setup_conn1) =
      Inr ((conn setup_conn1)\<lparr>conn_url := url_of '''' '''' ''h'' ''554'' ''fire'' ''track0''\<rparr>)"
    by (simp only: demo_url)
  moreover have "media_sources (lib (the_world setup_conn1)) = media_sources (lib (the_world setup_conn))"
    by (simp add: setup_conn1_def after_setup_def Let_def set_heap_def)
  then have "find_track name track (lib (the_world setup_conn1)) = find_track name track (lib (the_world setup_conn))" for name track
    by (simp add: find_track_def get_media_source_def)
  ultimately show ?thesis using setup_demo_request by (simp add: setup_request_def)
qed

theorem second_setup_orphans_first_witness:
  "\<exists>st2 st3. handle_request demo_env setup_demo setup_conn = (setup_conn1, Done ())
     \<and> handle_request (demo_env\<lparr>env_random := 43\<rparr>) setup_demo setup_conn1 = (st2, Done ())
     \<and> connection_destroy demo_env st2 = Done st3
     \<and> \<not> session_exists (generate_unique_session_id 1680000000 43) (the_world st3)
     \<and> session_exists (generate_unique_session_id 1680000000 42) (the_world st3)
     \<and> map_of (consumer_positions (frame_queue (heap (lib (the_world st3)) ! 0))) (generate_unique_session_id 1680000000 42) \<noteq> None"
proof -
  let ?env2 = "demo_env\<lparr>env_random := 43\<rparr>"
  let ?sid1 = "generate_unique_session_id 1680000000 42" and ?sid2 = "generate_unique_session_id 1680000000 43"
  have calls: "\<forall>call\<in>set (handler_calls p (p + 1)). env_sys demo_env call" "\<forall>call\<in>set (handler_calls p (p + 1)). env_sys ?env2 call"
    for p by (simp_all add: demo_env_def)
  have ids: "?sid1 = generate_unique_session_id (env_seconds demo_env) (env_random demo_env)"
    "?sid2 = generate_unique_session_id (env_seconds ?env2) (env_random ?env2)"
    by (simp_all add: demo_env_def)
  have "?sid1 \<noteq> ?sid2" using session_ids_unique [of 1680000000 42 1680000000 43] by simp
  then have new: "\<not> session_exists ?sid2 (the_world setup_conn1)"
    by (simp add: setup_conn1_def after_setup_def Let_def set_heap_def session_exists_def setup_conn_def setup_world_def)
  from second_setup_orphans_first [OF setup_world_ok setup_demo_request setup_conn_facts(1) ids(1) setup_conn_facts(2) calls(1)
      setup_conn1_def setup_demo_again ids(2) new calls(2), of demo_env]
  show ?thesis by (elim exE conjE) (intro exI conjI, assumption+, simp_all)
qed

end
