(* ===== verification/Streaming.thy ===== *)
theory Streaming
  imports Session
begin

text \<open>
  The path of a frame through the whole program: a file of the library, the track's reader and
  producer thread, its queue, the session's sender thread, the RTP packetizer, and the datagrams
  on the client's port. \<open>stream_run\<close> interleaves the sender's steps (\<open>Session.sender_step\<close>) with
  calls and producer steps on any track of the heap (\<open>MediaTrack.track_exec\<close>) and with \<open>pause\<close>,
  in any order; the datagrams are the sender's.
\<close>

section \<open>Steps\<close>

datatype stream_event =
    Sender_Step
  | Track_Call nat track_call   \<comment> \<open>the track's address, and what another thread does there\<close>
  | Pause_Session

definition stream_exec :: "(string \<Rightarrow> byte list option) \<Rightarrow> (string \<Rightarrow> bool) \<Rightarrow> string \<Rightarrow> stream_event \<Rightarrow>
    media_track list \<times> session_handler \<Rightarrow> ((media_track list \<times> session_handler) \<times> datagram list) outcome" where
  "stream_exec files inet_ok sid e hv =
     (case e of
        Sender_Step \<Rightarrow> (case sender_step inet_ok sid hv of Wait \<Rightarrow> Done (hv, []) | r \<Rightarrow> r)
      | Track_Call a c \<Rightarrow>
          (case track_exec files c (fst hv ! a) of
             Done (_, t) \<Rightarrow> Done (((fst hv)[a := t], snd hv), []) | Wait \<Rightarrow> Wait | Fail x \<Rightarrow> Fail x)
      | Pause_Session \<Rightarrow> Done ((fst hv, (snd hv)\<lparr>handler_active := False\<rparr>), []))"

fun stream_run :: "(string \<Rightarrow> byte list option) \<Rightarrow> (string \<Rightarrow> bool) \<Rightarrow> string \<Rightarrow> stream_event list \<Rightarrow>
    media_track list \<times> session_handler \<Rightarrow> ((media_track list \<times> session_handler) \<times> datagram list) outcome" where
  "stream_run files inet_ok sid [] hv = Done (hv, [])"
| "stream_run files inet_ok sid (e # es) hv =
     (case stream_exec files inet_ok sid e hv of
        Done (hv1, ds) \<Rightarrow>
          (case stream_run files inet_ok sid es hv1 of Done (hv2, ds') \<Rightarrow> Done (hv2, ds @ ds') | r \<Rightarrow> r)
      | Wait \<Rightarrow> Wait
      | Fail x \<Rightarrow> Fail x)"

lemma stream_run_append:
  "stream_run files inet_ok sid es hv = Done (hv1, ds) \<Longrightarrow> stream_run files inet_ok sid es' hv1 = Done (hv2, ds') \<Longrightarrow>
   stream_run files inet_ok sid (es @ es') hv = Done (hv2, ds @ ds')"
  by (induction es arbitrary: hv ds) (auto split: outcome.splits)

text \<open>
  What the other threads may do: anything but call the track at \<open>a\<close> in the name of this session.
\<close>

fun by_others :: "nat \<Rightarrow> nat \<Rightarrow> string \<Rightarrow> stream_event \<Rightarrow> bool" where
  "by_others tracks a sid (Track_Call b c) \<longleftrightarrow>
     b < tracks \<and> (b = a \<longrightarrow> c \<noteq> Register sid \<and> c \<noteq> Unregister sid \<and> c \<noteq> Get sid)"
| "by_others tracks a sid e \<longleftrightarrow> True"

section \<open>A frame on the wire\<close>

text \<open>The NAL unit behind the start code, and the payloads of the packets of a frame.\<close>

definition nal_unit :: "byte list \<Rightarrow> byte list" where
  "nal_unit f = (case start_code_length f of Inr (Some n) \<Rightarrow> drop n f | _ \<Rightarrow> f)"

lemma nal_unit_start_code [simp]: "sc \<in> start_codes \<Longrightarrow> nal_unit (sc @ nal) = nal"
  by (simp add: nal_unit_def start_code_length_ok)

definition wire :: "media_type \<Rightarrow> frame \<Rightarrow> byte list list" where
  "wire mt f = (case mt of H264 \<Rightarrow> nal_payloads (nal_unit f) | AAC \<Rightarrow> [au_header (length f) @ f])"

text \<open>The frames that the packetizer takes: a NAL unit behind a start code; a payload that fits.\<close>

definition sendable :: "media_type \<Rightarrow> frame \<Rightarrow> bool" where
  "sendable mt f \<longleftrightarrow>
     (case mt of
        H264 \<Rightarrow> \<exists>sc\<in>start_codes. \<exists>nal. nal \<noteq> [] \<and> f = sc @ nal
      | AAC \<Rightarrow> f \<noteq> [] \<and> length f \<le> 1018)"

definition rtp_payloads :: "datagram list \<Rightarrow> byte list list" where
  "rtp_payloads ds = map (\<lambda>d. f_payload (decode_rtp (snd d))) ds"

lemma rtp_payloads_append [simp]: "rtp_payloads (ds @ ds') = rtp_payloads ds @ rtp_payloads ds'"
  by (simp add: rtp_payloads_def)

lemma rtp_payloads_Nil [simp]: "rtp_payloads [] = []"
  by (simp add: rtp_payloads_def)

lemma send_frame_ok:
  assumes "sendable mt f" and "handler_ok inet_ok rtp" and "rtp_sequence_number rtp + int (length f) < 2 ^ 31"
  shows "\<exists>rtp' ds. send_rtp_packet inet_ok f mt rtp = Inr (rtp', ds) \<and> rtp_payloads ds = wire mt f
    \<and> handler_ok inet_ok rtp' \<and> rtp_sequence_number rtp' \<le> rtp_sequence_number rtp + int (length f)"
proof (cases mt)
  case H264
  then obtain sc nal where f: "f = sc @ nal" "sc \<in> start_codes" "nal \<noteq> []"
    using assms(1) by (auto simp: sendable_def)
  have "rtp_sequence_number rtp + int (length nal) < 2 ^ 31" using assms(3) f(1) by simp
  from send_h264_ok [OF f(2,3) assms(2) this] length_nal_payloads [OF f(3)] assms(2) H264 f show ?thesis
    by (auto simp: send_rtp_packet_def rtp_payloads_def wire_def payload_of_stamped handler_ok_def)
next
  case AAC
  then have f: "f \<noteq> []" "length f + sizeof_RTPHeader + 4 \<le> rtp_buf_size"
    using assms(1) by (auto simp: sendable_def rtp_sizes)
  then have "0 < length f" by simp
  with assms(3) have "rtp_sequence_number rtp < 2 ^ 31 - 1" by linarith
  from send_aac_ok [OF f(2) assms(2) this] AAC assms(2) \<open>0 < length f\<close> show ?thesis
    by (auto simp: send_rtp_packet_def rtp_payloads_def wire_def decode_sent handler_ok_def Suc_le_eq)
qed

section \<open>The pipeline\<close>

text \<open>
  The invariant of the pipeline: the track delivers the frames of the file to the session, which
  has got \<open>got\<close> so far, and the handler has wired exactly those, whole and in order.
\<close>

definition pipeline :: "media_type \<Rightarrow> reader \<Rightarrow> (string \<Rightarrow> bool) \<Rightarrow> string \<Rightarrow> frame list \<Rightarrow> datagram list \<Rightarrow>
    media_track list \<times> session_handler \<Rightarrow> bool" where
  "pipeline mt r0 inet_ok sid got wired hv \<longleftrightarrow>
     (let (h, v) = hv in
      list_all track_ok h \<and> handler_track v < length h \<and> delivering mt r0 sid got (h ! handler_track v)
      \<and> handler_ok inet_ok (handler_rtp v)
      \<and> rtp_sequence_number (handler_rtp v) \<le> int (length (concat got))
      \<and> rtp_payloads wired = concat (map (wire mt) got))"

text \<open>What the file promises: all its frames can be wired, and the sequence numbers stay below \<open>INT_MAX\<close>.\<close>

definition playable :: "media_type \<Rightarrow> reader \<Rightarrow> frame list \<Rightarrow> bool" where
  "playable mt r0 everything \<longleftrightarrow>
     (\<exists>k. read_frames (next_frame_of mt) frame_buf k r0 = Inr (everything, True))
     \<and> (\<forall>f\<in>set everything. sendable mt f) \<and> int (length (concat everything)) < 2 ^ 31"

lemma delivering_prefix:
  assumes "delivering mt r0 sid got t" and "playable mt r0 everything"
  shows "prefix got everything"
proof -
  from assms(1) obtain fs r where "reads_to (next_frame_of mt) frame_buf r0 fs r" "prefix got fs"
    by (auto simp: delivering_def)
  moreover from assms(2) obtain k where "read_frames (next_frame_of mt) frame_buf k r0 = Inr (everything, True)"
    by (auto simp: playable_def)
  ultimately show ?thesis using reads_to_prefix [of _ _ r0 fs r k everything] prefix_order.trans by blast
qed

text \<open>One frame: the session gets it, and its packets go out.\<close>

lemma pipeline_send:
  assumes "pipeline mt r0 inet_ok sid got wired (h, v)" and "playable mt r0 everything"
    and "delivering mt r0 sid (got @ [f]) t"
  shows "\<exists>rtp ds. send_rtp_packet inet_ok f mt (handler_rtp v) = Inr (rtp, ds)
    \<and> pipeline mt r0 inet_ok sid (got @ [f]) (wired @ ds)
        (h[handler_track v := t], v\<lparr>sender_thread := Some At_Test, handler_rtp := rtp\<rparr>)"
proof -
  obtain rest where "everything = got @ [f] @ rest"
    using delivering_prefix [OF assms(3,2)] by (auto simp: prefix_def)
  then have f: "sendable mt f" "int (length (concat got)) + int (length f) < 2 ^ 31"
    using assms(2) by (auto simp: playable_def)
  have p: "list_all track_ok h" "handler_track v < length h" "handler_ok inet_ok (handler_rtp v)"
    "rtp_sequence_number (handler_rtp v) \<le> int (length (concat got))"
    "rtp_payloads wired = concat (map (wire mt) got)"
    using assms(1) by (auto simp: pipeline_def)
  from send_frame_ok [OF f(1) p(3)] p(4) f(2) obtain rtp ds where
    "send_rtp_packet inet_ok f mt (handler_rtp v) = Inr (rtp, ds)" "rtp_payloads ds = wire mt f"
    "handler_ok inet_ok rtp" "rtp_sequence_number rtp \<le> int (length (concat got)) + int (length f)"
    by fastforce
  moreover have "track_ok t" using assms(3) by (simp add: delivering_def)
  ultimately show ?thesis using assms(3) p list_all_update by (auto simp: pipeline_def)
qed

lemma pipeline_sender:
  assumes "pipeline mt r0 inet_ok sid got wired (h, v)" and "playable mt r0 everything"
  shows "\<exists>h' v' ds got'. stream_exec files inet_ok sid Sender_Step (h, v) = Done ((h', v'), ds)
    \<and> pipeline mt r0 inet_ok sid got' (wired @ ds) (h', v') \<and> length h' = length h
    \<and> handler_track v' = handler_track v"
proof (cases "sender_thread v = Some In_Get")
  case False
  then consider "sender_step inet_ok sid (h, v) = Wait"
    | s where "sender_step inet_ok sid (h, v) = Done ((h, v\<lparr>sender_thread := s\<rparr>), [])"
    by (cases "sender_thread v"; cases "the (sender_thread v)") (auto simp: sender_step_def)
  then show ?thesis
    using assms(1) by cases (auto simp: stream_exec_def pipeline_def)
next
  case True
  let ?a = "handler_track v" let ?t = "h ! handler_track v"
  obtain q r where q: "consume None sid (frame_queue ?t) = (q, r)" by (cases "consume None sid (frame_queue ?t)")
  have d: "delivering mt r0 sid got ?t" "list_all track_ok h" "?a < length h" using assms(1) by (auto simp: pipeline_def)
  have t: "track_ok ?t" "kind ?t = mt" using d(1) by (auto simp: delivering_def)
  show ?thesis
  proof (cases r)
    case (Done f)
    let ?t' = "?t\<lparr>frame_queue := q\<rparr>"
    have d': "delivering mt r0 sid (got @ (case f of Some f \<Rightarrow> [f] | None \<Rightarrow> [])) ?t'"
      using delivering_get [OF d(1)] q Done by simp
    show ?thesis
    proof (cases f)
      case None
      have "pipeline mt r0 inet_ok sid got wired (h[?a := ?t'], v\<lparr>sender_thread := Some Sender_Returned\<rparr>)"
        using d' None assms(1) list_all_update [OF d(2)] by (auto simp: pipeline_def delivering_def)
      then show ?thesis using True q Done None
        by (auto simp: stream_exec_def sender_step_def track_get_simp)
    next
      case (Some g)
      with pipeline_send [OF assms, of g ?t'] d' show ?thesis using True q Done t(2)
        by (auto simp: stream_exec_def sender_step_def track_get_simp)
    qed
  next
    case Wait
    then show ?thesis using True q assms(1) by (auto simp: stream_exec_def sender_step_def track_get_simp)
  next
    case (Fail e)
    then show ?thesis using consume_never_fails [of "frame_queue ?t" None sid e] t(1) q by (simp add: track_ok_def)
  qed
qed

lemma pipeline_exec:
  assumes "pipeline mt r0 inet_ok sid got wired (h, v)" and "playable mt r0 everything" and "by_others (length h) (handler_track v) sid e"
  shows "\<exists>h' v' ds got'. stream_exec files inet_ok sid e (h, v) = Done ((h', v'), ds)
    \<and> pipeline mt r0 inet_ok sid got' (wired @ ds) (h', v') \<and> length h' = length h
    \<and> handler_track v' = handler_track v"
proof (cases e)
  case Sender_Step
  with pipeline_sender [OF assms(1,2), of files] show ?thesis by simp
next
  case (Track_Call a c)
  have p: "list_all track_ok h" "handler_track v < length h" "delivering mt r0 sid got (h ! handler_track v)"
    and c: "a < length h" "a = handler_track v \<Longrightarrow> c \<noteq> Register sid \<and> c \<noteq> Unregister sid \<and> c \<noteq> Get sid"
    using assms(1,3) Track_Call by (auto simp: pipeline_def)
  have "track_ok (h ! a)" using p(1) c(1) by (simp add: list_all_length)
  from track_exec_ok [OF this, of files c] obtain f t where
    t: "track_exec files c (h ! a) = Done (f, t)" "track_ok t" by blast
  have "delivering mt r0 sid got (h[a := t] ! handler_track v)"
    using p(2,3) c delivering_exec [of mt r0 sid got "h ! a" c files f t] t(1)
    by (cases "a = handler_track v") auto
  then have "pipeline mt r0 inet_ok sid got wired (h[a := t], v)"
    using assms(1) list_all_update [OF p(1) t(2)] by (auto simp: pipeline_def)
  then show ?thesis using Track_Call t(1) by (auto simp: stream_exec_def)
next
  case Pause_Session
  then show ?thesis using assms(1) by (auto simp: stream_exec_def pipeline_def)
qed

lemma pipeline_run:
  assumes "pipeline mt r0 inet_ok sid got wired (h, v)" and "playable mt r0 everything"
    and "\<forall>e\<in>set es. by_others (length h) (handler_track v) sid e"
  shows "\<exists>hv' ds got'. stream_run files inet_ok sid es (h, v) = Done (hv', ds)
    \<and> pipeline mt r0 inet_ok sid got' (wired @ ds) hv'"
  using assms(1,3)
proof (induction es arbitrary: h v got wired)
  case (Cons e es)
  obtain h1 v1 ds got1 where
    1: "stream_exec files inet_ok sid e (h, v) = Done ((h1, v1), ds)"
      "pipeline mt r0 inet_ok sid got1 (wired @ ds) (h1, v1)" "length h1 = length h"
      "handler_track v1 = handler_track v"
    using pipeline_exec [OF Cons.prems(1) assms(2), of e files] Cons.prems(2) by auto
  from Cons.IH [OF 1(2)] 1(3,4) Cons.prems(2) obtain hv2 ds' got2 where
    "stream_run files inet_ok sid es (h1, v1) = Done (hv2, ds')"
    "pipeline mt r0 inet_ok sid got2 (wired @ ds @ ds') hv2" by auto
  with 1(1) show ?case by fastforce
qed auto

section \<open>The start\<close>

text \<open>
  A track as \<open>add_media_track\<close> leaves it, its file just opened, or as the last session has left it,
  its file closed: whoever starts it next gets the file from its beginning.
\<close>

definition idle_track :: "media_type \<Rightarrow> (string \<Rightarrow> byte list option) \<Rightarrow> byte list \<Rightarrow> media_track \<Rightarrow> bool" where
  "idle_track mt files bs t \<longleftrightarrow> track_ok t \<and> kind t = mt \<and> \<not> is_active t
     \<and> (in_file (track_reader t) = open_file bs \<or> \<not> is_open (in_file (track_reader t)) \<and> files (url t) = Some bs)"

lemma idle_track_opened:
  assumes "length buf0 = MAX_FRAME_SIZE + 10" and "files path = Some bs"
  shows "idle_track mt files bs (fst (track_open files (new_track mt buf0 name path)))"
  using track_open_ok [OF assms(1), of files mt name path] assms(2)
  by (cases mt) (simp_all add: idle_track_def track_open_def h264_open_def aac_open_def new_track_simps)

text \<open>The last session leaves, and the track is idle again.\<close>

lemma idle_track_left:
  assumes "track_ok t" and "map_erase sid (consumer_positions (frame_queue t)) = []" and "files (url t) = Some bs"
    and "track_unregister_session sid t = Done t'"
  shows "idle_track (kind t) files bs t'"
  using track_unregister_ok [OF assms(1), of sid] assms(2-4) by (auto simp: idle_track_def)

lemma idle_track_starts:
  fixes sid :: string
  assumes "idle_track mt files bs t"
  defines "t1 \<equiv> (fst (track_start files (track_register_session sid t)))"
  shows "track_start files (track_register_session sid t) = (t1, Done ())"
    and "delivering mt (new_reader bs (frame_buf (track_reader t))) sid [] t1"
    and "track_reader t1 = new_reader bs (frame_buf (track_reader t))"
    and "pending (frame_queue t1) = (pending (frame_queue t))(sid \<mapsto> []) \<and> produce_thread t1 = Some Looping
      \<and> \<not> exit_flag (frame_queue t1) \<and> length (buffer (frame_queue t1)) = length (buffer (frame_queue t))"
proof -
  let ?r = "track_register_session sid t"
  have t: "track_ok t" "\<not> is_active t" "produce_thread t = None" "kind t = mt" and wf: "cq_wf (frame_queue t)"
    using assms(1) by (auto simp: idle_track_def track_ok_def)
  let ?bs = "if is_open (in_file (track_reader t)) then None else Some bs"
  have s: "track_start files ?r = ((started ?bs ?r)\<lparr>produce_thread := Some Looping\<rparr>, Done ())"
    using assms(1) t h264_track.start_closed [of ?r files bs] aac_track.start_closed [of ?r files bs]
      h264_track.start_open [of ?r files] aac_track.start_open [of ?r files]
    by (cases mt; cases "is_open (in_file (track_reader t))")
      (auto simp: track_start_def idle_track_def track_register_simp open_file_def)
  then have t1: "t1 = (started ?bs ?r)\<lparr>produce_thread := Some Looping\<rparr>" by (simp add: t1_def)
  show "track_start files ?r = (t1, Done ())" using s t1 by simp
  show idle: "pending (frame_queue t1) = (pending (frame_queue t))(sid \<mapsto> []) \<and> produce_thread t1 = Some Looping
      \<and> \<not> exit_flag (frame_queue t1) \<and> length (buffer (frame_queue t1)) = length (buffer (frame_queue t))"
    by (simp add: t1 started_def track_register_simp pending_register [OF wf] buffer_length)
  show reader: "track_reader t1 = new_reader bs (frame_buf (track_reader t))"
    using assms(1) by (auto simp: t1 started_def track_register_simp new_reader_def idle_track_def open_file_def)
  have "track_ok t1 \<and> kind t1 = mt \<and> is_active t1"
    using track_start_ok [of ?r files] s t t1 cq_wf_register [OF wf, of sid]
    by (auto simp: track_ok_def track_register_simp)
  then show "delivering mt (new_reader bs (frame_buf (track_reader t))) sid [] t1"
    using idle reader reads_to.none [of "next_frame_of mt" frame_buf "new_reader bs (frame_buf (track_reader t))"]
    by (auto simp: delivering_def in_flight_def)
qed

text \<open>SETUP of one track, then PLAY: the handler is new, and its first steps are those of the pipeline.\<close>

lemma set_up_and_play:
  assumes "list_all track_ok h" and "a < length h" and "idle_track mt files bs (h ! a)"
    and "session_add_media_track sys r buf0 track a p1 p2 ip0 p3 p4 (h, new_session sid) = ((h1, s1), Done ())"
    and "length buf0 = rtp_buf_size" and "inet_ok ip0"
  shows "\<exists>v. session_start files (h1, s1) =
      ((h[a := fst (track_start files (track_register_session sid (h ! a)))], s1\<lparr>session_handlers := [(track, v)]\<rparr>), Done ())
    \<and> pipeline mt (new_reader bs (frame_buf (track_reader (h ! a)))) inet_ok sid [] []
        (h[a := fst (track_start files (track_register_session sid (h ! a)))], v)
    \<and> handler_track v = a \<and> handler_active v \<and> sender_thread v = Some At_Test"
proof -
  let ?t = "track_register_session sid (h ! a)"
  note starts = idle_track_starts [OF assms(3), of sid]
  obtain v where h1: "h1 = h[a := ?t]" and s1: "session_handlers s1 = [(track, v)]"
    and v: "fresh_handler v" "handler_track v = a" "length (rtp_buf (handler_rtp v)) = rtp_buf_size"
      "ip (handler_rtp v) = ip0" "rtp_sequence_number (handler_rtp v) = 0"
    using assms(4,5) by (auto simp: session_add_media_track_def new_session_def rtp_rtcp_handler_def fresh_handler_def
        split: option.splits)
  define t1 where "t1 = fst (track_start files ?t)"
  have t1: "track_start files ?t = (t1, Done ())" using starts(1) by (simp add: t1_def)
  let ?h = "h[a := t1]"
  let ?v = "v\<lparr>handler_active := True, sender_thread := Some At_Test,
    handler_rtp := rtp_stop (handler_rtp v\<lparr>rtcp_send_thread := True, rtcp_receive_thread := True\<rparr>)\<rparr>"
  have "track_ok t1" using starts(2) by (simp add: delivering_def t1_def)
  then have "list_all track_ok ?h" by (rule list_all_update [OF assms(1)])
  then have "pipeline mt (new_reader bs (frame_buf (track_reader (h ! a)))) inet_ok sid [] [] (?h, ?v)"
    using starts(2) assms(2,6) v by (simp add: pipeline_def rtp_stop_def handler_ok_def t1_def)
  moreover have "start_handler files (h1, v) = ((?h, ?v), Done ())"
    using t1 v(1,2) assms(2) by (simp add: start_handler_def h1 fresh_handler_def rtp_start_def Let_def)
  ultimately show ?thesis
    by (intro exI [of _ ?v]) (simp add: session_start_def s1 v(2) t1_def [symmetric])
qed

lemma depacketize_wire:
  "\<forall>f\<in>set fs. plain_nal (nal_unit f) \<Longrightarrow> depacketize (concat (map (wire H264) fs)) [] = map nal_unit fs"
  by (induction fs) (simp_all add: wire_def depacketize_nal)

lemma set_delivered: "set (delivered nals) \<subseteq> set nals"
  using set_mono_prefix [OF prefix_delivered] .

lemma playable_h264:
  assumes "\<forall>f\<in>set nals. wf_nal f" and "int (length (concat nals)) < 2 ^ 31" and "length buf = MAX_FRAME_SIZE + 10"
  shows "playable H264 (new_reader (concat nals) buf) (delivered nals)"
proof -
  have "read_frames (next_frame_of H264) frame_buf (Suc (length nals)) (new_reader (concat nals) buf) = Inr (delivered nals, True)"
    using h264_read_frames [of "new_reader (concat nals) buf" nals "Suc (length nals)"] assms(1,3)
    by (simp add: next_frame_of_def del: read_frames.simps delivered.simps)
  moreover have "sendable H264 f" if "f \<in> set (delivered nals)" for f
    using that set_delivered assms(1) by (fastforce simp: sendable_def wf_nal_def)
  moreover obtain rest where "nals = delivered nals @ rest" using prefix_delivered by (auto simp: prefix_def)
  then have "length (concat nals) = length (concat (delivered nals)) + length (concat rest)"
    by (metis concat_append length_append)
  with assms(2) have "int (length (concat (delivered nals))) < 2 ^ 31" by linarith
  ultimately show ?thesis unfolding playable_def by blast
qed

lemma idle_track_buf: "idle_track mt files bs t \<Longrightarrow> length (frame_buf (track_reader t)) = MAX_FRAME_SIZE + 10"
  by (simp add: idle_track_def track_ok_def reader_ok_def)

text \<open>What is on the wire after any interleaving: the packets of a prefix of the frames.\<close>

lemma wire_gets_prefix:
  assumes "list_all track_ok h" and "a < length h" and "idle_track mt files bs (h ! a)"
    and "playable mt (new_reader bs (frame_buf (track_reader (h ! a)))) everything"
    and "session_add_media_track sys r buf0 track a p1 p2 ip0 p3 p4 (h, new_session sid) = ((h1, s1), Done ())"
    and "length buf0 = rtp_buf_size" and "inet_ok ip0" and "\<forall>e\<in>set es. by_others (length h) a sid e"
  shows "\<exists>h2 s2 v hv ds got. session_start files (h1, s1) = ((h2, s2), Done ()) \<and> session_handlers s2 = [(track, v)]
    \<and> stream_run files inet_ok sid es (h2, v) = Done (hv, ds)
    \<and> rtp_payloads ds = concat (map (wire mt) got) \<and> prefix got everything"
proof -
  let ?r0 = "new_reader bs (frame_buf (track_reader (h ! a)))"
  from set_up_and_play [OF assms(1-3,5,6), where inet_ok = inet_ok, OF assms(7)] obtain h2 v where
    start: "session_start files (h1, s1) = ((h2, s1\<lparr>session_handlers := [(track, v)]\<rparr>), Done ())"
    and p: "pipeline mt ?r0 inet_ok sid [] [] (h2, v)" "handler_track v = a" "length h2 = length h" by auto
  from pipeline_run [OF p(1) assms(4), of es files] p(2,3) assms(8) obtain hv ds got where
    run: "stream_run files inet_ok sid es (h2, v) = Done (hv, ds)" "pipeline mt ?r0 inet_ok sid got ds hv" by auto
  then have "delivering mt ?r0 sid got (fst hv ! handler_track (snd hv))"
    and wired: "rtp_payloads ds = concat (map (wire mt) got)" by (auto simp: pipeline_def)
  then have "prefix got everything" using delivering_prefix assms(4) by blast
  with start run(1) wired show ?thesis by fastforce
qed

text \<open>
  The whole path for H.264. A session sets up one track of the library with a new
  handler and plays it; then, in whatever order the sender, the producers, \<open>pause\<close> and the calls
  of other threads on any track of the library are run, nothing fails, and an RFC 6184
  receiver that puts the datagrams on the client's port together has got the NAL units of the
  file from the first on, in order, complete and unchanged (a prefix of those that the reader
  delivers). The file is smaller than 2 GiB, so that the sequence number does not overflow.
\<close>

lemma client_gets_nal_units:
  assumes "list_all track_ok h" and "a < length h" and "idle_track H264 files (concat nals) (h ! a)"
    and "\<forall>f\<in>set nals. wf_nal f \<and> plain_nal (nal_unit f)" and "int (length (concat nals)) < 2 ^ 31"
    and "session_add_media_track sys r buf0 track a p1 p2 ip0 p3 p4 (h, new_session sid) = ((h1, s1), Done ())"
    and "length buf0 = rtp_buf_size" and "inet_ok ip0" and "\<forall>e\<in>set es. by_others (length h) a sid e"
  shows "\<exists>h2 s2 v hv ds. session_start files (h1, s1) = ((h2, s2), Done ()) \<and> session_handlers s2 = [(track, v)]
    \<and> stream_run files inet_ok sid es (h2, v) = Done (hv, ds)
    \<and> prefix (depacketize (rtp_payloads ds) []) (map nal_unit (delivered nals))"
proof -
  have play: "playable H264 (new_reader (concat nals) (frame_buf (track_reader (h ! a)))) (delivered nals)"
    using assms(4,5) idle_track_buf [OF assms(3)] by (intro playable_h264) auto
  from wire_gets_prefix [OF assms(1-3) play assms(6,7), where inet_ok = inet_ok, OF assms(8,9)] obtain h2 s2 v hv ds got where
    start: "session_start files (h1, s1) = ((h2, s2), Done ())" "session_handlers s2 = [(track, v)]"
    "stream_run files inet_ok sid es (h2, v) = Done (hv, ds)"
    and wired: "rtp_payloads ds = concat (map (wire H264) got)" and pre: "prefix got (delivered nals)" by blast
  have "set got \<subseteq> set nals" using set_mono_prefix [OF pre] set_delivered by blast
  then have "depacketize (rtp_payloads ds) [] = map nal_unit got"
    unfolding wired using assms(4) by (intro depacketize_wire) auto
  with start pre show ?thesis by (auto simp: map_mono_prefix)
qed

lemma playable_aac:
  assumes "\<forall>(h, p)\<in>set fs. adts_frame h p \<and> length (drop 7 h @ p) \<le> 1018"
    and "int (length (concat (map (\<lambda>(h, p). h @ p) fs))) < 2 ^ 31" and "length buf = MAX_FRAME_SIZE + 10"
  shows "playable AAC (new_reader (concat (map (\<lambda>(h, p). h @ p) fs)) buf) (map unit_read fs)"
proof -
  have "read_frames (next_frame_of AAC) frame_buf (Suc (length fs)) (new_reader (concat (map (\<lambda>(h, p). h @ p) fs)) buf) =
      Inr (map unit_read fs, True)"
    using read_adts_file [of fs buf "Suc (length fs)"] assms(1,3)
    by (fastforce simp: next_frame_of_def simp del: read_frames.simps)
  moreover have "sendable AAC (unit_read e)" if "e \<in> set fs" for e
  proof -
    obtain h p where e: "e = (h, p)" by (cases e)
    with bspec [OF assms(1) that] have "adts_frame h p" "length (unit_read e) \<le> 1018" by (simp_all add: unit_read_def)
    then show ?thesis using e unfolding sendable_def adts_frame_def by (auto simp: unit_read_def)
  qed
  then have "\<forall>f\<in>set (map unit_read fs). sendable AAC f" by auto
  moreover have "length (concat (map unit_read fs)) \<le> length (concat (map (\<lambda>(h, p). h @ p) fs))"
    by (induction fs) (auto simp: unit_read_def)
  then have "int (length (concat (map unit_read fs))) < 2 ^ 31" using assms(2) by linarith
  ultimately show ?thesis unfolding playable_def by blast
qed

lemma access_units_wire: "map (drop 4) (concat (map (wire AAC) fs)) = fs"
  by (induction fs) (simp_all add: wire_def au_header_def)

text \<open>
  C7 (safety). The whole path for AAC, for a session that is set up on an idle track (its
  \<open>is_active_\<close> is not set), is played, and then stays registered, when nothing that the reader delivers is longer than
  1018 bytes and the file is smaller than 2 GiB. In every interleaving of the session's sender, the
  producer, and the other sessions' calls, the RTP payloads, without their AU headers, are what the
  file has behind the first seven bytes of each ADTS header, from the first frame on, in order and
  unchanged: the access units, when the frames have no CRC, and otherwise the access units with the
  CRC in front of them.
\<close>

theorem client_gets_access_units:
  assumes "list_all track_ok h" and "a < length h"
    and "idle_track AAC files (concat (map (\<lambda>(h, p). h @ p) fs)) (h ! a)"
    and "\<forall>(h, p)\<in>set fs. adts_frame h p \<and> length (drop 7 h @ p) \<le> 1018"
    and "int (length (concat (map (\<lambda>(h, p). h @ p) fs))) < 2 ^ 31"
    and "session_add_media_track sys r buf0 track a p1 p2 ip0 p3 p4 (h, new_session sid) = ((h1, s1), Done ())"
    and "length buf0 = rtp_buf_size" and "inet_ok ip0" and "\<forall>e\<in>set es. by_others (length h) a sid e"
  shows "\<exists>h2 s2 v hv ds. session_start files (h1, s1) = ((h2, s2), Done ()) \<and> session_handlers s2 = [(track, v)]
    \<and> stream_run files inet_ok sid es (h2, v) = Done (hv, ds)
    \<and> prefix (map (drop 4) (rtp_payloads ds)) (map (\<lambda>(h, p). drop 7 h @ p) fs)
    \<and> ((\<forall>(h, p)\<in>set fs. protection_absent h) \<longrightarrow> prefix (map (drop 4) (rtp_payloads ds)) (map snd fs))"
proof -
  have play: "playable AAC (new_reader (concat (map (\<lambda>(h, p). h @ p) fs)) (frame_buf (track_reader (h ! a)))) (map unit_read fs)"
    by (rule playable_aac [OF assms(4,5) idle_track_buf [OF assms(3)]])
  from wire_gets_prefix [OF assms(1-3) play assms(6,7), where inet_ok = inet_ok, OF assms(8,9)]
  obtain h2 s2 v hv ds where run: "session_start files (h1, s1) = ((h2, s2), Done ())" "session_handlers s2 = [(track, v)]"
    "stream_run files inet_ok sid es (h2, v) = Done (hv, ds)" "prefix (map (drop 4) (rtp_payloads ds)) (map unit_read fs)"
    by (auto simp: access_units_wire)
  moreover have "map unit_read fs = map (\<lambda>(h, p). drop 7 h @ p) fs" by (simp add: unit_read_def [abs_def])
  moreover have "map unit_read fs = map snd fs" if "\<forall>(h, p)\<in>set fs. protection_absent h"
    using assms(4) that by (intro units_read_plain) auto
  ultimately show ?thesis by metis
qed

section \<open>The threads in turns\<close>

text \<open>
  Two steps of the producer, two of the sender: with the session alone on the track, that moves
  one frame from the file to the wire.
\<close>

definition one_turn :: "nat \<Rightarrow> stream_event list" where
  "one_turn a = [Track_Call a Producer_Step, Track_Call a Producer_Step, Sender_Step, Sender_Step]"

definition turns :: "nat \<Rightarrow> nat \<Rightarrow> stream_event list" where
  "turns k a = concat (replicate k (one_turn a))"

text \<open>A turn in which every step is one: two of the producer, then two of the sender.\<close>

definition takes_turn :: "(string \<Rightarrow> bool) \<Rightarrow> string \<Rightarrow> media_track list \<times> session_handler \<Rightarrow>
    media_track list \<times> session_handler \<Rightarrow> datagram list \<Rightarrow> bool" where
  "takes_turn inet_ok sid hv hv' ds \<longleftrightarrow>
     (let (h, v) = hv; a = handler_track v in
      \<exists>t1 t2 v1. track_producer_step (h ! a) = Done t1 \<and> track_producer_step t1 = Done t2
        \<and> sender_step inet_ok sid (h[a := t2], v) = Done ((h[a := t2], v1), [])
        \<and> sender_step inet_ok sid (h[a := t2], v1) = Done (hv', ds))"

lemma takes_turn_stream:
  assumes "takes_turn inet_ok sid (h, v) hv' ds" and "handler_track v < length h"
  shows "stream_run files inet_ok sid (one_turn (handler_track v)) (h, v) = Done (hv', ds)"
  using assms by (auto simp: takes_turn_def one_turn_def stream_exec_def track_exec_def Let_def)

inductive takes_turns :: "(string \<Rightarrow> bool) \<Rightarrow> string \<Rightarrow> nat \<Rightarrow> media_track list \<times> session_handler \<Rightarrow>
    media_track list \<times> session_handler \<Rightarrow> datagram list \<Rightarrow> bool" for inet_ok sid where
  no_turn: "takes_turns inet_ok sid 0 hv hv []"
| next_turn: "handler_track v < length h \<Longrightarrow> takes_turn inet_ok sid (h, v) (h1, v1) ds \<Longrightarrow> handler_track v1 = handler_track v \<Longrightarrow>
    takes_turns inet_ok sid k (h1, v1) hv ds' \<Longrightarrow> takes_turns inet_ok sid (Suc k) (h, v) hv (ds @ ds')"

lemma takes_turns_stream:
  "takes_turns inet_ok sid k hv hv' ds \<Longrightarrow> stream_run files inet_ok sid (turns k (handler_track (snd hv))) hv = Done (hv', ds)"
proof (induction rule: takes_turns.induct)
  case (next_turn v h h1 v1 ds k hv ds')
  have "turns (Suc k) (handler_track v) = one_turn (handler_track v) @ turns k (handler_track v)" by (simp add: turns_def)
  then show ?case
    using stream_run_append [OF takes_turn_stream [OF next_turn.hyps(2,1)] next_turn.IH] next_turn.hyps(3) by simp
qed (simp add: turns_def)

lemma takes_turns_append:
  "takes_turns inet_ok sid k hv hv1 ds \<Longrightarrow> takes_turns inet_ok sid k' hv1 hv2 ds' \<Longrightarrow>
   takes_turns inet_ok sid (k + k') hv hv2 (ds @ ds')"
  by (induction rule: takes_turns.induct) (auto intro: takes_turns.intros)

lemma queue_relay:
  assumes "running q" and "pending q = [sid \<mapsto> []]" and "1 < length (buffer q)"
  shows "\<exists>q1 q2. produce x q = (q1, Done ()) \<and> consume t0 sid q1 = (q2, Done x)
    \<and> running q2 \<and> pending q2 = [sid \<mapsto> []] \<and> length (buffer q2) = length (buffer q)"
proof -
  have "\<nexists>s l. pending q s = Some l \<and> length l = length (buffer q) - 1" using assms(2,3) by (auto split: if_splits)
  then obtain q1 where q1: "produce x q = (q1, Done ())"
    using produce_running(1) [OF assms(1), of x] by (cases "produce x q") auto
  have run1: "running q1" using running_produce [OF assms(1), of x] q1 by simp
  have p1: "pending q1 = [sid \<mapsto> [x]]" using produce_running(2) [OF assms(1) q1] assms(2) by (auto simp: fun_eq_iff)
  obtain q2 where q2: "consume t0 sid q1 = (q2, Done x)" and "pending q2 sid = Some []"
    using consume_running [OF run1, of sid "[x]" t0] p1 by (cases "consume t0 sid q1") auto
  moreover have "pending q2 s = pending q1 s" if "s \<noteq> sid" for s
    using consume_frame [of q1 t0 sid s] run1 that q2 by (simp add: running_def)
  ultimately have "pending q2 = [sid \<mapsto> []]" using p1 by (auto simp: fun_eq_iff)
  moreover have "running q2" using running_consume [OF run1, of t0 sid] q2 by simp
  moreover have "length (buffer q2) = length (buffer q)"
    using buffer_length(1) [of x q] buffer_length(2) [of t0 sid q1] q1 q2 by simp
  ultimately show ?thesis using q1 q2 by blast
qed

text \<open>Between two turns: the producer at its test, the queue empty, the session its only consumer.\<close>

definition between_turns :: "string \<Rightarrow> media_track list \<times> session_handler \<Rightarrow> bool" where
  "between_turns sid hv \<longleftrightarrow>
     (let (h, v) = hv; t = h ! handler_track v in
      produce_thread t = Some Looping \<and> is_active t \<and> running (frame_queue t)
      \<and> pending (frame_queue t) = [sid \<mapsto> []] \<and> 1 < length (buffer (frame_queue t))
      \<and> handler_active v \<and> sender_thread v = Some At_Test)"

text \<open>The end: producer and sender have returned.\<close>

definition streamed :: "media_track list \<times> session_handler \<Rightarrow> bool" where
  "streamed hv \<longleftrightarrow> produce_thread (fst hv ! handler_track (snd hv)) = Some Finished
     \<and> sender_thread (snd hv) = Some Sender_Returned"

lemma turns_after_end: "streamed hv \<Longrightarrow> stream_run files inet_ok sid (turns k (handler_track (snd hv))) hv = Done (hv, [])"
proof (induction k)
  case (Suc k)
  have "stream_run files inet_ok sid (one_turn (handler_track (snd hv))) hv = Done (hv, [])"
    using Suc.prems by (cases hv)
      (simp add: one_turn_def stream_exec_def track_exec_def streamed_def track_step_end(2) sender_step_def)
  from stream_run_append [OF this Suc.IH [OF Suc.prems]] show ?case by (simp add: turns_def)
qed (simp add: turns_def)

lemma delivering_producer_step:
  assumes "delivering mt r0 sid got t" and "track_producer_step t = Done t'"
  shows "delivering mt r0 sid got t'"
  using delivering_exec [OF assms(1), of Producer_Step "\<lambda>_. None" None t'] assms(2) by (simp add: track_exec_def)

text \<open>A turn that reads a frame.\<close>

lemma turn_frame:
  assumes "pipeline mt r0 inet_ok sid got wired (h, v)" and "playable mt r0 everything" and "between_turns sid (h, v)"
    and "next_frame_of mt (track_reader (h ! handler_track v)) = Inr (n, r)" and "0 < n"
  shows "\<exists>h' v' ds. takes_turn inet_ok sid (h, v) (h', v') ds
    \<and> pipeline mt r0 inet_ok sid (got @ [take (nat n) (frame_buf r)]) (wired @ ds) (h', v') \<and> between_turns sid (h', v')
    \<and> handler_track v' = handler_track v \<and> track_reader (h' ! handler_track v) = r \<and> length h' = length h
    \<and> length (buffer (frame_queue (h' ! handler_track v))) = length (buffer (frame_queue (h ! handler_track v)))"
proof -
  let ?a = "handler_track v" let ?f = "take (nat n) (frame_buf r)"
  define t where "t = h ! ?a"
  have a: "?a < length h" and d: "delivering mt r0 sid got t" using assms(1) by (auto simp: pipeline_def t_def)
  have t: "track_ok t" "kind t = mt" "produce_thread t = Some Looping" "is_active t" "running (frame_queue t)"
    "pending (frame_queue t) = [sid \<mapsto> []]" "1 < length (buffer (frame_queue t))"
    using d assms(3) by (auto simp: delivering_def between_turns_def Let_def t_def)
  obtain q1 q2 where q: "produce (Some ?f) (frame_queue t) = (q1, Done ())" "consume None sid q1 = (q2, Done (Some ?f))"
    "running q2" "pending q2 = [sid \<mapsto> []]" "length (buffer q2) = length (buffer (frame_queue t))"
    using queue_relay [OF t(5-7)] by blast
  define t1 where "t1 = t\<lparr>track_reader := r, produce_thread := Some (Producing ?f)\<rparr>"
  define t2 where "t2 = t1\<lparr>frame_queue := q1, produce_thread := Some Looping\<rparr>"
  define t3 where "t3 = t2\<lparr>frame_queue := q2\<rparr>"
  have s1: "track_producer_step t = Done t1"
    using track_step_read [OF t(3,4,1)] assms(4,5) t(2) by (simp add: t1_def t_def)
  have s2: "track_producer_step t1 = Done t2"
    using track_step_produce [of t1 ?f] q(1) by (simp add: t1_def t2_def)
  have "delivering mt r0 sid got t2" by (rule delivering_producer_step [OF delivering_producer_step [OF d s1] s2])
  from delivering_get [OF this, of q2 "Some ?f"] q(2) have "delivering mt r0 sid (got @ [?f]) t3"
    by (simp add: t2_def t3_def)
  from pipeline_send [OF assms(1,2) this] obtain rtp ds where
    rtp: "send_rtp_packet inet_ok ?f mt (handler_rtp v) = Inr (rtp, ds)"
    and p: "pipeline mt r0 inet_ok sid (got @ [?f]) (wired @ ds)
      (h[?a := t3], v\<lparr>sender_thread := Some At_Test, handler_rtp := rtp\<rparr>)" by blast
  have "track_get_next_frame sid t2 = (t3, Done (Some ?f))" "kind t2 = mt"
    using q(2) t(2) by (simp_all add: track_get_simp t2_def t3_def t1_def)
  then have "takes_turn inet_ok sid (h, v) (h[?a := t3], v\<lparr>sender_thread := Some At_Test, handler_rtp := rtp\<rparr>) ds"
    using assms(3) a rtp s1 s2
    by (simp add: takes_turn_def between_turns_def Let_def sender_step_def t_def [symmetric])
  moreover have "between_turns sid (h[?a := t3], v\<lparr>sender_thread := Some At_Test, handler_rtp := rtp\<rparr>)"
    using assms(3) q(3-5) t a by (simp add: between_turns_def Let_def t1_def t2_def t3_def)
  moreover have "track_reader (h[?a := t3] ! ?a) = r"
    "length (buffer (frame_queue (h[?a := t3] ! ?a))) = length (buffer (frame_queue (h ! ?a)))"
    using a q(5) by (simp_all add: t1_def t2_def t3_def t_def)
  ultimately show ?thesis using p
    by (intro exI [of _ "h[?a := t3]"] exI [of _ "v\<lparr>sender_thread := Some At_Test, handler_rtp := rtp\<rparr>"] exI [of _ ds]) simp
qed

text \<open>The turn that finds the end of the file.\<close>

lemma turn_end:
  assumes "pipeline mt r0 inet_ok sid got wired (h, v)" and "between_turns sid (h, v)"
    and "next_frame_of mt (track_reader (h ! handler_track v)) = Inr (n, r)" and "n \<le> 0"
  shows "\<exists>hv'. takes_turn inet_ok sid (h, v) hv' [] \<and> streamed hv' \<and> handler_track (snd hv') = handler_track v"
proof -
  let ?a = "handler_track v"
  define t where "t = h ! ?a"
  have a: "?a < length h" and d: "delivering mt r0 sid got t" using assms(1) by (auto simp: pipeline_def t_def)
  have t: "track_ok t" "kind t = mt" "produce_thread t = Some Looping" "is_active t"
    using d assms(2) by (auto simp: delivering_def between_turns_def Let_def t_def)
  define t1 where "t1 = t\<lparr>track_reader := r, produce_thread := Some Exiting\<rparr>"
  define t2 where "t2 = t1\<lparr>frame_queue := set_exit (frame_queue t1), produce_thread := Some Finished\<rparr>"
  have s: "track_producer_step t = Done t1" "track_producer_step t1 = Done t2"
    using track_step_read [OF t(3,4,1)] assms(3,4) t(2) track_step_end(1) [of t1] by (simp_all add: t1_def t2_def t_def)
  define t3 where "t3 = t2\<lparr>frame_queue := fst (consume None sid (frame_queue t2))\<rparr>"
  have "track_get_next_frame sid t2 = (t3, Done None)"
    using consume_exit [of "frame_queue t2" None sid] by (simp add: track_get_simp t2_def t3_def set_exit_def)
  then have "takes_turn inet_ok sid (h, v) (h[?a := t3], v\<lparr>sender_thread := Some Sender_Returned\<rparr>) []"
    using assms(2) a s
    by (simp add: takes_turn_def between_turns_def Let_def sender_step_def t_def [symmetric])
  then show ?thesis using a
    by (intro exI [of _ "(h[?a := t3], v\<lparr>sender_thread := Some Sender_Returned\<rparr>)"]) (simp add: streamed_def t2_def t3_def)
qed

text \<open>Turns that read a part of the file.\<close>

lemma turns_part:
  "reads_to (next_frame_of mt) frame_buf r fs r1 \<Longrightarrow> pipeline mt r0 inet_ok sid got wired (h, v) \<Longrightarrow>
   playable mt r0 everything \<Longrightarrow> between_turns sid (h, v) \<Longrightarrow> track_reader (h ! handler_track v) = r \<Longrightarrow>
   \<exists>h' v' ds. takes_turns inet_ok sid (length fs) (h, v) (h', v') ds
     \<and> pipeline mt r0 inet_ok sid (got @ fs) (wired @ ds) (h', v') \<and> between_turns sid (h', v')
     \<and> handler_track v' = handler_track v \<and> track_reader (h' ! handler_track v) = r1 \<and> length h' = length h
     \<and> length (buffer (frame_queue (h' ! handler_track v))) = length (buffer (frame_queue (h ! handler_track v)))"
proof (induction arbitrary: got wired h v rule: reads_to.induct)
  case (none r)
  have "takes_turns inet_ok sid (length []) (h, v) (h, v) []" by (simp add: takes_turns.no_turn)
  with none show ?case by (intro exI [of _ h] exI [of _ v] exI [of _ "[]"]) simp
next
  case (one r n r' fs r1)
  let ?a = "handler_track v"
  have "next_frame_of mt (track_reader (h ! ?a)) = Inr (n, r')" using one.hyps(1) one.prems(4) by simp
  from turn_frame [OF one.prems(1-3) this one.hyps(2)] obtain h1 v1 ds where
    1: "takes_turn inet_ok sid (h, v) (h1, v1) ds"
    "pipeline mt r0 inet_ok sid (got @ [take (nat n) (frame_buf r')]) (wired @ ds) (h1, v1)" "between_turns sid (h1, v1)"
    "handler_track v1 = ?a" "track_reader (h1 ! ?a) = r'" "length h1 = length h"
    "length (buffer (frame_queue (h1 ! ?a))) = length (buffer (frame_queue (h ! ?a)))" by blast
  from one.IH [OF 1(2) one.prems(2) 1(3)] 1(4,5) obtain h2 v2 ds' where
    2: "takes_turns inet_ok sid (length fs) (h1, v1) (h2, v2) ds'"
    "pipeline mt r0 inet_ok sid ((got @ [take (nat n) (frame_buf r')]) @ fs) ((wired @ ds) @ ds') (h2, v2)"
    "between_turns sid (h2, v2)" "handler_track v2 = ?a" "track_reader (h2 ! ?a) = r1" "length h2 = length h1"
    "length (buffer (frame_queue (h2 ! ?a))) = length (buffer (frame_queue (h1 ! ?a)))" by auto
  have "?a < length h" using one.prems(1) by (simp add: pipeline_def)
  from takes_turns.next_turn [OF this 1(1,4) 2(1)] 1 2 show ?case by auto
qed

lemma read_frames_reads:
  "read_frames next_frame buf k r = Inr (fs, True) \<Longrightarrow>
   length fs < k \<and> (\<exists>r1 n r2. reads_to next_frame buf r fs r1 \<and> next_frame r1 = Inr (n, r2) \<and> n \<le> 0)"
proof (induction k arbitrary: r fs)
  case (Suc k)
  from Suc.prems obtain n r1 where r1: "next_frame r = Inr (n, r1)" by (auto simp: bind_result_Inr_iff)
  show ?case
  proof (cases "0 < n")
    case True
    with Suc.prems r1 obtain fs' where fs': "fs = take (nat n) (buf r1) # fs'" "n \<le> int (length (buf r1))"
      "read_frames next_frame buf k r1 = Inr (fs', True)"
      by (auto simp: frame_data_def bind_result_Inr_iff nat_le_iff split: if_splits)
    from Suc.IH [OF fs'(3)] obtain r2 n' r3 where
      "length fs' < k" "reads_to next_frame buf r1 fs' r2" "next_frame r2 = Inr (n', r3)" "n' \<le> 0" by blast
    moreover from this(2) have "reads_to next_frame buf r fs r2"
      unfolding fs'(1) using r1 True fs'(2) by (intro reads_to.one)
    ultimately show ?thesis using fs'(1) by auto
  next
    case False
    with Suc.prems r1 reads_to.none [of next_frame buf r] show ?thesis by auto
  qed
qed simp

text \<open>With one turn more than there are frames, all are sent, and both threads have come to their end.\<close>

lemma turns_all:
  assumes "pipeline mt r0 inet_ok sid got wired (h, v)" and "playable mt r0 everything" and "between_turns sid (h, v)"
    and "read_frames (next_frame_of mt) frame_buf k (track_reader (h ! handler_track v)) = Inr (rest, True)"
  shows "\<exists>hv' ds. takes_turns inet_ok sid (Suc (length rest)) (h, v) hv' ds
    \<and> streamed hv' \<and> handler_track (snd hv') = handler_track v \<and> rtp_payloads (wired @ ds) = concat (map (wire mt) (got @ rest))"
proof -
  let ?a = "handler_track v"
  from read_frames_reads [OF assms(4)] obtain r1 n r2 where
    r: "reads_to (next_frame_of mt) frame_buf (track_reader (h ! ?a)) rest r1" "next_frame_of mt r1 = Inr (n, r2)" "n \<le> 0" by blast
  from turns_part [OF r(1) assms(1-3) refl] obtain h' v' ds where
    1: "takes_turns inet_ok sid (length rest) (h, v) (h', v') ds" "pipeline mt r0 inet_ok sid (got @ rest) (wired @ ds) (h', v')"
    "between_turns sid (h', v')" "handler_track v' = ?a" "track_reader (h' ! ?a) = r1" by blast
  obtain hv' where 2: "takes_turn inet_ok sid (h', v') hv' []" "streamed hv'" "handler_track (snd hv') = ?a"
    using turn_end [OF 1(2,3), of n r2] r(2,3) 1(4,5) by auto
  have "handler_track v' < length h'" using 1(2) by (simp add: pipeline_def)
  moreover obtain h2 v2 where "hv' = (h2, v2)" by (cases hv')
  ultimately have "takes_turns inet_ok sid (Suc 0) (h', v') hv' ([] @ [])"
    using 2(1,3) 1(4) takes_turns.next_turn [OF _ _ _ takes_turns.no_turn, of v' h' inet_ok sid h2 v2 "[]"] by simp
  from takes_turns_append [OF 1(1) this] have "takes_turns inet_ok sid (Suc (length rest)) (h, v) hv' ds" by simp
  moreover have "rtp_payloads (wired @ ds) = concat (map (wire mt) (got @ rest))" using 1(2) by (simp add: pipeline_def)
  ultimately show ?thesis using 2(2,3) by blast
qed

lemma turns_stream:
  assumes "pipeline mt r0 inet_ok sid got wired (h, v)" and "playable mt r0 everything" and "between_turns sid (h, v)"
    and "read_frames (next_frame_of mt) frame_buf k (track_reader (h ! handler_track v)) = Inr (rest, True)"
  shows "\<exists>hv' ds. stream_run files inet_ok sid (turns k (handler_track v)) (h, v) = Done (hv', ds)
    \<and> streamed hv' \<and> rtp_payloads (wired @ ds) = concat (map (wire mt) (got @ rest))"
proof -
  from turns_all [OF assms] obtain hv' ds where
    1: "takes_turns inet_ok sid (Suc (length rest)) (h, v) hv' ds" "streamed hv'" "handler_track (snd hv') = handler_track v"
    "rtp_payloads (wired @ ds) = concat (map (wire mt) (got @ rest))" by blast
  obtain j where "k = Suc (length rest) + j" using read_frames_reads [OF assms(4)] by (metis Suc_leI le_Suc_ex)
  then have "turns k a = turns (Suc (length rest)) a @ turns j a" for a by (simp add: turns_def replicate_add)
  with stream_run_append [OF takes_turns_stream [OF 1(1)] turns_after_end [OF 1(2), unfolded 1(3)]] 1(2,4)
  show ?thesis by fastforce
qed

text \<open>The session is alone on the track, whose queue has at least two cells (25 and 43 in the code).\<close>

definition unused_track :: "media_track \<Rightarrow> bool" where
  "unused_track t \<longleftrightarrow> consumer_positions (frame_queue t) = [] \<and> 1 < length (buffer (frame_queue t))"

lemma unused_new_track: "unused_track (new_track mt buf0 name path)"
  by (simp add: unused_track_def new_track_simps circular_queue_def split: media_type.split)

lemma set_up_between_turns:
  assumes "idle_track mt files bs (h ! a)" and "unused_track (h ! a)" and "a < length h"
    and "handler_track v = a" and "handler_active v" and "sender_thread v = Some At_Test"
  shows "between_turns sid (h[a := fst (track_start files (track_register_session sid (h ! a)))], v)
    \<and> track_reader (h[a := fst (track_start files (track_register_session sid (h ! a)))] ! a) =
      new_reader bs (frame_buf (track_reader (h ! a)))"
proof -
  note starts = idle_track_starts [OF assms(1), of sid]
  define t1 where "t1 = fst (track_start files (track_register_session sid (h ! a)))"
  have d: "delivering mt (new_reader bs (frame_buf (track_reader (h ! a)))) sid [] t1"
    using starts(2) by (simp add: t1_def)
  have s: "pending (frame_queue t1) = (pending (frame_queue (h ! a)))(sid \<mapsto> [])" "produce_thread t1 = Some Looping"
    "\<not> exit_flag (frame_queue t1)" "length (buffer (frame_queue t1)) = length (buffer (frame_queue (h ! a)))"
    using starts(4) by (simp_all add: t1_def)
  have "pending (frame_queue (h ! a)) = Map.empty" using assms(2) by (simp add: unused_track_def pending_def fun_eq_iff)
  moreover have "track_ok t1" "is_active t1" using d by (simp_all add: delivering_def)
  ultimately have "between_turns sid (h[a := t1], v)"
    using s assms by (simp add: between_turns_def Let_def running_def track_ok_def unused_track_def)
  moreover have "track_reader t1 = new_reader bs (frame_buf (track_reader (h ! a)))"
    using starts(3) by (simp add: t1_def)
  ultimately show ?thesis using assms(3) by (simp add: t1_def)
qed
text \<open>With the threads in turns everything that the reader delivers goes out.\<close>

lemma wire_gets_everything:
  assumes "list_all track_ok h" and "a < length h" and "idle_track mt files bs (h ! a)" and "unused_track (h ! a)"
    and "playable mt (new_reader bs (frame_buf (track_reader (h ! a)))) everything"
    and "read_frames (next_frame_of mt) frame_buf k (new_reader bs (frame_buf (track_reader (h ! a)))) = Inr (everything, True)"
    and "session_add_media_track sys r buf0 track a p1 p2 ip0 p3 p4 (h, new_session sid) = ((h1, s1), Done ())"
    and "length buf0 = rtp_buf_size" and "inet_ok ip0"
  shows "\<exists>h2 s2 v hv ds. session_start files (h1, s1) = ((h2, s2), Done ()) \<and> session_handlers s2 = [(track, v)]
    \<and> stream_run files inet_ok sid (turns k a) (h2, v) = Done (hv, ds)
    \<and> streamed hv \<and> rtp_payloads ds = concat (map (wire mt) everything)"
proof -
  let ?r0 = "new_reader bs (frame_buf (track_reader (h ! a)))"
  from set_up_and_play [OF assms(1-3,7,8), where inet_ok = inet_ok, OF assms(9)] obtain h2 v where
    h2: "h2 = h[a := fst (track_start files (track_register_session sid (h ! a)))]"
    and start: "session_start files (h1, s1) = ((h2, s1\<lparr>session_handlers := [(track, v)]\<rparr>), Done ())"
    and p: "pipeline mt ?r0 inet_ok sid [] [] (h2, v)"
    and v: "handler_track v = a" "handler_active v" "sender_thread v = Some At_Test" by blast
  from set_up_between_turns [OF assms(3,4,2) v, of sid] have
    b: "between_turns sid (h2, v)" "track_reader (h2 ! handler_track v) = ?r0" by (simp_all add: h2 v(1))
  obtain hv ds where "stream_run files inet_ok sid (turns k a) (h2, v) = Done (hv, ds)" "streamed hv"
    "rtp_payloads ds = concat (map (wire mt) everything)"
    using turns_stream [OF p assms(5) b(1) assms(6) [folded b(2)], where files = files] by (auto simp: v(1))
  moreover have "session_handlers (s1\<lparr>session_handlers := [(track, v)]\<rparr>) = [(track, v)]" by simp
  ultimately show ?thesis using start by blast
qed

text \<open>
  The whole file reaches the client. A session that is alone on the track, with
  the producer and the sender taking turns, sends every NAL unit that the reader delivers:
  after more turns than the file has NAL units both threads have come to their end, and the
  receiver has exactly those NAL units, complete and in order.
\<close>

lemma client_gets_whole_file:
  assumes "list_all track_ok h" and "a < length h" and "idle_track H264 files (concat nals) (h ! a)"
    and "unused_track (h ! a)"
    and "\<forall>f\<in>set nals. wf_nal f \<and> plain_nal (nal_unit f)" and "int (length (concat nals)) < 2 ^ 31"
    and "session_add_media_track sys r buf0 track a p1 p2 ip0 p3 p4 (h, new_session sid) = ((h1, s1), Done ())"
    and "length buf0 = rtp_buf_size" and "inet_ok ip0" and "length nals < k"
  shows "\<exists>h2 s2 v hv ds. session_start files (h1, s1) = ((h2, s2), Done ()) \<and> session_handlers s2 = [(track, v)]
    \<and> stream_run files inet_ok sid (turns k a) (h2, v) = Done (hv, ds)
    \<and> streamed hv \<and> depacketize (rtp_payloads ds) [] = map nal_unit (delivered nals)"
proof -
  let ?r0 = "new_reader (concat nals) (frame_buf (track_reader (h ! a)))"
  note buf = idle_track_buf [OF assms(3)]
  have play: "playable H264 ?r0 (delivered nals)" using assms(5,6) buf by (intro playable_h264) auto
  have "read_frames (next_frame_of H264) frame_buf k ?r0 = Inr (delivered nals, True)"
    using h264_read_frames [of ?r0 nals k] assms(5,10) buf
    by (simp add: next_frame_of_def del: read_frames.simps delivered.simps)
  moreover have "\<forall>f\<in>set (delivered nals). plain_nal (nal_unit f)" using set_delivered assms(5) by blast
  ultimately obtain h2 s2 v hv ds where
    "session_start files (h1, s1) = ((h2, s2), Done ())" "session_handlers s2 = [(track, v)]"
    "stream_run files inet_ok sid (turns k a) (h2, v) = Done (hv, ds)" "streamed hv"
    and wired: "rtp_payloads ds = concat (map (wire H264) (delivered nals))"
    and plain: "\<forall>f\<in>set (delivered nals). plain_nal (nal_unit f)"
    using wire_gets_everything [OF assms(1-4) play _ assms(7,8), where inet_ok = inet_ok, OF _ assms(9)] by blast
  moreover note depacketize_wire [OF plain, folded wired]
  ultimately show ?thesis by blast
qed

section \<open>Witnesses\<close>

text \<open>The constructor's system calls all succeed, and so does the set-up.\<close>

lemma set_up_succeeds:
  "\<exists>h1 s1. session_add_media_track (\<lambda>_. True) r buf0 track a p1 p2 ip0 p3 p4 (h, new_session sid) = ((h1, s1), Done ())"
  by (simp add: session_add_media_track_def rtp_rtcp_handler_def handler_calls_def new_session_def Let_def)

definition demo_nal_units :: "byte list list" where
  "demo_nal_units = [[0, 0, 0, 1, 0x67, 1], [0, 0, 1, 0x65, 2], [0, 0, 1, 0x41, 3]]"

definition opened_track :: "media_type \<Rightarrow> byte list \<Rightarrow> media_track" where
  "opened_track mt bs = fst (track_open (\<lambda>_. Some bs) (new_track mt demo_frame_buf ''track0'' ''v''))"

lemma opened_track:
  "list_all track_ok [opened_track mt bs]" "idle_track mt (\<lambda>_. Some bs) bs ([opened_track mt bs] ! 0)"
  "unused_track ([opened_track mt bs] ! 0)"
proof -
  show "idle_track mt (\<lambda>_. Some bs) bs ([opened_track mt bs] ! 0)"
    using idle_track_opened [OF demo_frame_buf_length, of "\<lambda>_. Some bs" "''v''" bs mt "''track0''"] by (simp add: opened_track_def)
  then show "list_all track_ok [opened_track mt bs]" by (simp add: idle_track_def)
  show "unused_track ([opened_track mt bs] ! 0)"
    using unused_new_track [of mt demo_frame_buf "''track0''" "''v''"]
    by (simp add: opened_track_def unused_track_def track_open_def h264_open_def aac_open_def split: media_type.split)
qed

lemma demo_nal_units_ok: "\<forall>f\<in>set demo_nal_units. wf_nal f \<and> plain_nal (nal_unit f)"
proof -
  have "[0, 0, 0, 1] \<in> start_codes" "[0, 0, 1] \<in> start_codes" by (simp_all add: start_codes_def)
  from this [THEN nal_unit_start_code, of "[0x67, 1]"] this [THEN nal_unit_start_code, of "[0x65, 2]"]
    this [THEN nal_unit_start_code, of "[0x41, 3]"]
  show ?thesis using demo_nals by (simp add: demo_nal_units_def plain_nal_def)
qed

lemma client_gets_nal_units_witness:
  "\<exists>h1 s1 h2 s2 v hv ds.
     session_add_media_track (\<lambda>_. True) 7 (replicate rtp_buf_size 0) ''track0'' 0 6000 6001 ''10.0.0.2'' 5000 5001
       ([opened_track H264 (concat demo_nal_units)], new_session ''A'') = ((h1, s1), Done ())
     \<and> session_start (\<lambda>_. Some (concat demo_nal_units)) (h1, s1) = ((h2, s2), Done ()) \<and> session_handlers s2 = [(''track0'', v)]
     \<and> stream_run (\<lambda>_. Some (concat demo_nal_units)) (\<lambda>_. True) ''A''
         [Track_Call 0 Producer_Step, Sender_Step, Track_Call 0 (Register ''B''), Track_Call 0 Producer_Step, Sender_Step, Pause_Session]
         (h2, v) = Done (hv, ds)
     \<and> prefix (depacketize (rtp_payloads ds) []) (map nal_unit (delivered demo_nal_units))"
proof -
  let ?h = "[opened_track H264 (concat demo_nal_units)]"
  obtain h1 s1 where s: "session_add_media_track (\<lambda>_. True) 7 (replicate rtp_buf_size 0) ''track0'' 0 6000 6001 ''10.0.0.2''
      5000 5001 (?h, new_session ''A'') = ((h1, s1), Done ())"
    using set_up_succeeds by blast
  have "int (length (concat demo_nal_units)) < 2 ^ 31" by (simp add: demo_nal_units_def)
  from client_gets_nal_units [OF opened_track(1) _ opened_track(2) demo_nal_units_ok this s, where inet_ok = "\<lambda>_. True"
      and es = "[Track_Call 0 Producer_Step, Sender_Step, Track_Call 0 (Register ''B''), Track_Call 0 Producer_Step,
        Sender_Step, Pause_Session]"] s
  show ?thesis by fastforce
qed

lemma client_gets_whole_file_witness:
  "\<exists>h1 s1 h2 s2 v hv ds.
     session_add_media_track (\<lambda>_. True) 7 (replicate rtp_buf_size 0) ''track0'' 0 6000 6001 ''10.0.0.2'' 5000 5001
       ([opened_track H264 (concat demo_nal_units)], new_session ''A'') = ((h1, s1), Done ())
     \<and> session_start (\<lambda>_. Some (concat demo_nal_units)) (h1, s1) = ((h2, s2), Done ()) \<and> session_handlers s2 = [(''track0'', v)]
     \<and> stream_run (\<lambda>_. Some (concat demo_nal_units)) (\<lambda>_. True) ''A'' (turns 4 0) (h2, v) = Done (hv, ds)
     \<and> depacketize (rtp_payloads ds) [] = map nal_unit (delivered demo_nal_units)"
proof -
  let ?h = "[opened_track H264 (concat demo_nal_units)]"
  obtain h1 s1 where s: "session_add_media_track (\<lambda>_. True) 7 (replicate rtp_buf_size 0) ''track0'' 0 6000 6001 ''10.0.0.2''
      5000 5001 (?h, new_session ''A'') = ((h1, s1), Done ())"
    using set_up_succeeds by blast
  have "int (length (concat demo_nal_units)) < 2 ^ 31" "length demo_nal_units < 4" by (simp_all add: demo_nal_units_def)
  from client_gets_whole_file [OF opened_track(1) _ opened_track(2,3) demo_nal_units_ok this(1) s, where inet_ok = "\<lambda>_. True"
      and k = 4] this(2) s
  show ?thesis by fastforce
qed

theorem client_gets_access_units_witness:
  "\<exists>h1 s1 h2 s2 v hv ds. let au = ([0xFF, 0xF1, 0x50, 0x80, 1, 0x3F, 0xFC], [7, 8]); bs = concat (map (\<lambda>(h, p). h @ p) [au]) in
     session_add_media_track (\<lambda>_. True) 7 (replicate rtp_buf_size 0) ''track0'' 0 6000 6001 ''10.0.0.2'' 5000 5001
       ([opened_track AAC bs], new_session ''A'') = ((h1, s1), Done ())
     \<and> session_start (\<lambda>_. Some bs) (h1, s1) = ((h2, s2), Done ()) \<and> session_handlers s2 = [(''track0'', v)]
     \<and> stream_run (\<lambda>_. Some bs) (\<lambda>_. True) ''A'' (turns 2 0) (h2, v) = Done (hv, ds)
     \<and> prefix (map (drop 4) (rtp_payloads ds)) [[7, 8]]"
proof -
  let ?fs = "[([0xFF, 0xF1, 0x50, 0x80, 1, 0x3F, 0xFC], [7, 8 :: byte])]"
  let ?bs = "concat (map (\<lambda>(h, p). h @ p) ?fs)"
  obtain h1 s1 where s: "session_add_media_track (\<lambda>_. True) 7 (replicate rtp_buf_size 0) ''track0'' 0 6000 6001 ''10.0.0.2''
      5000 5001 ([opened_track AAC ?bs], new_session ''A'') = ((h1, s1), Done ())"
    using set_up_succeeds by blast
  have "\<forall>(h, p)\<in>set ?fs. adts_frame h p \<and> length (drop 7 h @ p) \<le> 1018" "int (length ?bs) < 2 ^ 31"
    by (simp_all add: adts_frame_def protection_absent_def)
  moreover have "\<forall>e\<in>set (turns 2 0). by_others (length [opened_track AAC ?bs]) 0 ''A'' e"
    by (simp add: turns_def one_turn_def)
  ultimately show ?thesis
    using client_gets_access_units [OF opened_track(1) _ opened_track(2) _ _ s, where inet_ok = "\<lambda>_. True"
      and es = "turns 2 0"] s unfolding Let_def by fastforce
qed

end
