(* ===== verification/ThreadPool.thy ===== *)
theory ThreadPool
  imports Prelude "HOL-Library.Multiset" "HOL-Library.Sublist"
begin

text \<open>
  ThreadPool.h/.cpp: the workers that run \<open>RtspServer::handle_client\<close>. The threads are
  interleaved by a step relation. The mutex and the condition variable are modelled down to the
  points where the code can be preempted: between the evaluation of the predicate of
  \<open>tasks_cv_.wait\<close> and the moment the worker is asleep it holds \<open>tasks_mutex_\<close>, and only a step
  that does not need the mutex can come in between. Setting \<open>stop_\<close> in the destructor is such a
  step. \<open>taken\<close> and \<open>enqueued\<close> are history: the tasks in the order the workers took them, and in
  the order they were pushed.
\<close>

datatype 'a worker =
    At_Loop      \<comment> \<open>about to test \<open>!stop_\<close>\<close>
  | Want_Lock    \<comment> \<open>constructing the \<open>unique_lock\<close>, or woken and taking the mutex again\<close>
  | Has_Lock     \<comment> \<open>holds the mutex, about to evaluate the predicate\<close>
  | Blocking     \<comment> \<open>holds the mutex, the predicate was false\<close>
  | Asleep       \<comment> \<open>in the condition variable's queue\<close>
  | Running 'a   \<comment> \<open>runs the task\<close>
  | Returned

datatype destructor = Alive | Stop_Set | Notified | Joined

record 'a thread_pool =
  workers :: "'a worker list"
  tasks :: "'a list"
  tasks_mutex :: "nat option"
  stop_flag :: bool
  notifying :: nat
  destructor :: destructor
  taken :: "'a list"
  enqueued :: "'a list"

text \<open>The constructor with \<open>num_threads\<close> workers, all at the beginning of \<open>worker\<close>.\<close>

definition new_thread_pool :: "nat \<Rightarrow> 'a thread_pool" where
  "new_thread_pool num_threads =
     \<lparr>workers = replicate num_threads At_Loop, tasks = [], tasks_mutex = None, stop_flag = False,
      notifying = 0, destructor = Alive, taken = [], enqueued = []\<rparr>"

text \<open>The critical section of \<open>enqueue\<close>; \<open>notify_one\<close> follows outside it.\<close>

definition push_task :: "'a \<Rightarrow> 'a thread_pool \<Rightarrow> 'a thread_pool" where
  "push_task t s = s\<lparr>tasks := tasks s @ [t], enqueued := enqueued s @ [t], notifying := notifying s + 1\<rparr>"

text \<open>\<open>while (!stop_)\<close>.\<close>

definition test_loop :: "nat \<Rightarrow> 'a thread_pool \<Rightarrow> 'a thread_pool" where
  "test_loop i s = s\<lparr>workers := (workers s)[i := if stop_flag s then Returned else Want_Lock]\<rparr>"

text \<open>
  What a worker that holds the mutex does: the predicate of the wait, then the early return,
  then the front of the queue.
\<close>

definition test_predicate :: "nat \<Rightarrow> 'a thread_pool \<Rightarrow> 'a thread_pool" where
  "test_predicate i s =
     (if tasks s = [] \<and> \<not> stop_flag s then s\<lparr>workers := (workers s)[i := Blocking]\<rparr>
      else if stop_flag s \<and> tasks s = [] then s\<lparr>workers := (workers s)[i := Returned], tasks_mutex := None\<rparr>
      else s\<lparr>workers := (workers s)[i := Running (hd (tasks s))], tasks := tl (tasks s),
             taken := taken s @ [hd (tasks s)], tasks_mutex := None\<rparr>)"

definition wake_all :: "'a worker list \<Rightarrow> 'a worker list" where
  "wake_all ws = map (\<lambda>w. case w of Asleep \<Rightarrow> Want_Lock | _ \<Rightarrow> w) ws"

text \<open>
  The steps of the workers, and the pending \<open>notify_one\<close> of an \<open>enqueue\<close>. That a task returns
  (\<open>finish\<close>) is a possible step, not one the pool can count on: the tasks are the loops of
  \<open>ConnectionHandler::process\<close>, which end when their clients disconnect.
\<close>

inductive worker_step :: "'a thread_pool \<Rightarrow> 'a thread_pool \<Rightarrow> bool" where
  notify_one: "0 < notifying s \<Longrightarrow> i < length (workers s) \<Longrightarrow> workers s ! i = Asleep \<Longrightarrow>
    worker_step s (s\<lparr>notifying := notifying s - 1, workers := (workers s)[i := Want_Lock]\<rparr>)"
| notify_nobody: "0 < notifying s \<Longrightarrow> Asleep \<notin> set (workers s) \<Longrightarrow>
    worker_step s (s\<lparr>notifying := notifying s - 1\<rparr>)"
| loop: "i < length (workers s) \<Longrightarrow> workers s ! i = At_Loop \<Longrightarrow> worker_step s (test_loop i s)"
| lock: "i < length (workers s) \<Longrightarrow> workers s ! i = Want_Lock \<Longrightarrow> tasks_mutex s = None \<Longrightarrow>
    worker_step s (s\<lparr>workers := (workers s)[i := Has_Lock], tasks_mutex := Some i\<rparr>)"
| predicate: "i < length (workers s) \<Longrightarrow> workers s ! i = Has_Lock \<Longrightarrow> worker_step s (test_predicate i s)"
| block: "i < length (workers s) \<Longrightarrow> workers s ! i = Blocking \<Longrightarrow>
    worker_step s (s\<lparr>workers := (workers s)[i := Asleep], tasks_mutex := None\<rparr>)"
| finish: "i < length (workers s) \<Longrightarrow> workers s ! i = Running t \<Longrightarrow>
    worker_step s (s\<lparr>workers := (workers s)[i := At_Loop]\<rparr>)"

text \<open>
  The steps of the pool's owner: \<open>enqueue\<close>, and the destructor's three statements. Nobody calls
  \<open>enqueue\<close> on an object that is being destroyed.
\<close>

inductive owner_step :: "'a thread_pool \<Rightarrow> 'a thread_pool \<Rightarrow> bool" where
  enqueue: "tasks_mutex s = None \<Longrightarrow> destructor s = Alive \<Longrightarrow> owner_step s (push_task t s)"
| set_stop: "destructor s = Alive \<Longrightarrow> owner_step s (s\<lparr>stop_flag := True, destructor := Stop_Set\<rparr>)"
| notify_all: "destructor s = Stop_Set \<Longrightarrow>
    owner_step s (s\<lparr>destructor := Notified, workers := wake_all (workers s)\<rparr>)"
| join: "destructor s = Notified \<Longrightarrow> set (workers s) \<subseteq> {Returned} \<Longrightarrow>
    owner_step s (s\<lparr>destructor := Joined\<rparr>)"

definition pool_step :: "'a thread_pool \<Rightarrow> 'a thread_pool \<Rightarrow> bool" where
  "pool_step s s' \<longleftrightarrow> worker_step s s' \<or> owner_step s s'"

text \<open>A condition variable may also wake a worker without a notification.\<close>

inductive spurious_step :: "'a thread_pool \<Rightarrow> 'a thread_pool \<Rightarrow> bool" where
  "i < length (workers s) \<Longrightarrow> workers s ! i = Asleep \<Longrightarrow>
    spurious_step s (s\<lparr>workers := (workers s)[i := Want_Lock]\<rparr>)"

inductive pool_reach :: "nat \<Rightarrow> 'a thread_pool \<Rightarrow> bool" for n where
  start: "pool_reach n (new_thread_pool n)"
| step: "pool_reach n s \<Longrightarrow> pool_step s s' \<Longrightarrow> pool_reach n s'"
| spurious: "pool_reach n s \<Longrightarrow> spurious_step s s' \<Longrightarrow> pool_reach n s'"

inductive_cases spurious_stepE: "spurious_step s s'"
inductive_cases worker_stepE: "worker_step s s'"
inductive_cases owner_stepE: "owner_step s s'"

section \<open>The invariant\<close>

fun holds_lock :: "'a worker \<Rightarrow> bool" where
  "holds_lock Has_Lock = True"
| "holds_lock Blocking = True"
| "holds_lock _ = False"

definition pool_ok :: "nat \<Rightarrow> 'a thread_pool \<Rightarrow> bool" where
  "pool_ok n s \<longleftrightarrow>
     length (workers s) = n \<and>
     (\<forall>i < n. holds_lock (workers s ! i) \<longleftrightarrow> tasks_mutex s = Some i) \<and>
     (\<forall>i. tasks_mutex s = Some i \<longrightarrow> i < n) \<and>
     (\<forall>i < n. workers s ! i = Blocking \<longrightarrow> tasks s = []) \<and>
     enqueued s = taken s @ tasks s \<and>
     (stop_flag s \<longleftrightarrow> destructor s \<noteq> Alive) \<and>
     (\<not> stop_flag s \<longrightarrow> (\<forall>i < n. workers s ! i \<noteq> Returned)) \<and>
     (tasks s \<noteq> [] \<longrightarrow> notifying s = 0 \<longrightarrow> \<not> stop_flag s \<longrightarrow> 0 < n \<longrightarrow> (\<exists>i < n. workers s ! i \<noteq> Asleep))"

lemma wake_all_nth [simp]:
  "i < length ws \<Longrightarrow> wake_all ws ! i = (if ws ! i = Asleep then Want_Lock else ws ! i)"
  by (simp add: wake_all_def split: worker.split)

lemma length_wake_all [simp]: "length (wake_all ws) = length ws"
  by (simp add: wake_all_def)

lemma pool_ok_init: "pool_ok n (new_thread_pool n)"
  by (simp add: pool_ok_def new_thread_pool_def)

text \<open>A worker that neither holds nor gets the mutex changes its phase.\<close>

lemma pool_ok_phase:
  assumes "pool_ok n s" and "i < n" and "\<not> holds_lock (workers s ! i)" and "\<not> holds_lock w"
    and "w = Returned \<Longrightarrow> stop_flag s" and "w \<noteq> Asleep"
  shows "pool_ok n (s\<lparr>workers := (workers s)[i := w]\<rparr>)"
  using assms unfolding pool_ok_def by (auto simp: nth_list_update)

text \<open>The holder of the mutex leaves it, or goes from one critical phase to the next.\<close>

lemma pool_ok_predicate:
  assumes "pool_ok n s" and "i < n" and "workers s ! i = Has_Lock"
  shows "pool_ok n (test_predicate i s)"
proof -
  have m: "tasks_mutex s = Some i" and others: "j < n \<Longrightarrow> j \<noteq> i \<Longrightarrow> \<not> holds_lock (workers s ! j)" for j
    using assms unfolding pool_ok_def by (metis holds_lock.simps(1), metis holds_lock.simps(1) option.inject)
  then have nb: "j < n \<Longrightarrow> workers s ! j \<noteq> Blocking" for j using assms(3) by (metis holds_lock.simps(2) worker.distinct(23))
  consider "tasks s = []" "\<not> stop_flag s" | "tasks s = []" "stop_flag s" | "tasks s \<noteq> []" by blast
  then show ?thesis
  proof cases
    case 3
    then show ?thesis using assms m others nb unfolding pool_ok_def test_predicate_def
      by (auto simp: nth_list_update)
  qed (use assms m others nb in \<open>auto simp: pool_ok_def test_predicate_def nth_list_update\<close>)
qed

lemma pool_ok_worker:
  assumes "worker_step s s'" and "pool_ok n s"
  shows "pool_ok n s'"
  using assms
proof (induction rule: worker_step.induct)
  case (notify_one s i)
  have "pool_ok n (s\<lparr>workers := (workers s)[i := Want_Lock]\<rparr>)"
    using notify_one by (intro pool_ok_phase) (auto simp: pool_ok_def)
  moreover have "\<exists>j<n. (workers s)[i := Want_Lock] ! j \<noteq> Asleep"
    using notify_one by (intro exI [of _ i]) (auto simp: pool_ok_def)
  ultimately show ?case by (auto simp: pool_ok_def)
next
  case (notify_nobody s)
  then have "\<forall>j<n. workers s ! j \<noteq> Asleep" by (auto simp: pool_ok_def in_set_conv_nth)
  with notify_nobody show ?case by (auto simp: pool_ok_def)
next
  case (loop i s)
  then show ?case unfolding test_loop_def
    by (intro pool_ok_phase) (auto simp: pool_ok_def)
next
  case (predicate i s)
  then show ?case by (intro pool_ok_predicate) (auto simp: pool_ok_def)
next
  case (finish i s t)
  then show ?case by (intro pool_ok_phase) (auto simp: pool_ok_def)
qed (auto simp: pool_ok_def nth_list_update)

lemma pool_ok_owner:
  assumes "owner_step s s'" and "pool_ok n s"
  shows "pool_ok n s'"
  using assms
proof (induction rule: owner_step.induct)
  case (enqueue s t)
  then have "\<forall>i<n. workers s ! i \<noteq> Blocking" by (auto simp: pool_ok_def dest: spec)
  with enqueue show ?case by (auto simp: pool_ok_def push_task_def)
qed (auto simp: pool_ok_def)

lemma pool_reach_ok: "pool_reach n s \<Longrightarrow> pool_ok n s"
proof (induction rule: pool_reach.induct)
  case (spurious s s')
  from spurious(2) obtain i where "i < length (workers s)" "workers s ! i = Asleep"
    "s' = s\<lparr>workers := (workers s)[i := Want_Lock]\<rparr>" by (rule spurious_stepE)
  with spurious(3) show ?case by (simp only:) (rule pool_ok_phase, auto simp: pool_ok_def)
qed (auto intro: pool_ok_init pool_ok_worker pool_ok_owner simp: pool_step_def)

section \<open>Progress\<close>

text \<open>
  How many steps of their own the workers can take before one of them takes a task, when there
  is one: \<open>work\<close> bounds it.
\<close>

fun phase_work :: "'a worker \<Rightarrow> nat" where
  "phase_work (Running t) = 4"
| "phase_work At_Loop = 3"
| "phase_work Want_Lock = 2"
| "phase_work Has_Lock = 1"
| "phase_work Blocking = 1"
| "phase_work Asleep = 0"
| "phase_work Returned = 0"

definition work :: "'a thread_pool \<Rightarrow> nat" where
  "work s = 3 * notifying s + sum_list (map phase_work (workers s))"

lemma sum_update:
  fixes f :: "'a \<Rightarrow> nat"
  shows "i < length ws \<Longrightarrow> sum_list (map f (ws[i := w])) + f (ws ! i) = sum_list (map f ws) + f w"
proof (induction ws arbitrary: i)
  case (Cons x ws)
  then show ?case by (cases i) auto
qed simp

lemmas work_phase = sum_update [where f = phase_work]

lemma worker_step_work:
  assumes "worker_step s s'" and "tasks s \<noteq> []" and "\<not> stop_flag s"
  shows "taken s' = taken s @ [hd (tasks s)] \<and> tasks s' = tl (tasks s)
    \<or> taken s' = taken s \<and> tasks s' = tasks s \<and> work s' < work s"
  using assms
proof (induction rule: worker_step.induct)
  case (notify_one s i)
  with work_phase [of i "workers s" Want_Lock] show ?case by (simp add: work_def)
next
  case (loop i s)
  with work_phase [of i "workers s" Want_Lock] show ?case by (simp add: work_def test_loop_def)
next
  case (lock i s)
  with work_phase [of i "workers s" Has_Lock] show ?case by (simp add: work_def)
next
  case (block i s)
  with work_phase [of i "workers s" Asleep] show ?case by (simp add: work_def)
next
  case (finish i s t)
  with work_phase [of i "workers s" At_Loop] show ?case by (simp add: work_def)
qed (auto simp: work_def test_predicate_def)

section \<open>Waiting tasks\<close>

text \<open>A worker inside a task; the pool's own steps are those that need no task to return.\<close>

fun busy :: "'a worker \<Rightarrow> bool" where
  "busy (Running t) = True"
| "busy _ = False"

definition all_busy :: "'a thread_pool \<Rightarrow> bool" where
  "all_busy s \<longleftrightarrow> list_all busy (workers s)"

definition own_step :: "'a thread_pool \<Rightarrow> 'a thread_pool \<Rightarrow> bool" where
  "own_step s s' \<longleftrightarrow> worker_step s s' \<and>
     \<not> (\<exists>i t. i < length (workers s) \<and> workers s ! i = Running t \<and> s' = s\<lparr>workers := (workers s)[i := At_Loop]\<rparr>)"

text \<open>A run in which no task is taken: \<open>k\<close> steps of the workers, \<open>e\<close> of enqueueing, \<open>w\<close> spurious ones.\<close>

inductive waiting_run :: "nat \<Rightarrow> nat \<Rightarrow> nat \<Rightarrow> 'a thread_pool \<Rightarrow> 'a thread_pool \<Rightarrow> bool" where
  no_step: "waiting_run 0 0 0 s s"
| worker: "waiting_run k e w s s' \<Longrightarrow> worker_step s' s'' \<Longrightarrow> taken s'' = taken s' \<Longrightarrow> waiting_run (Suc k) e w s s''"
| enqueued: "waiting_run k e w s s' \<Longrightarrow> tasks_mutex s' = None \<Longrightarrow> destructor s' = Alive \<Longrightarrow>
    waiting_run k (Suc e) w s (push_task t s')"
| woken: "waiting_run k e w s s' \<Longrightarrow> spurious_step s' s'' \<Longrightarrow> waiting_run k e (Suc w) s s''"

text \<open>A run in which no task returns.\<close>

inductive busy_run :: "'a thread_pool \<Rightarrow> 'a thread_pool \<Rightarrow> bool" where
  no_step: "busy_run s s"
| own: "busy_run s s' \<Longrightarrow> own_step s' s'' \<Longrightarrow> busy_run s s''"
| owner: "busy_run s s' \<Longrightarrow> owner_step s' s'' \<Longrightarrow> busy_run s s''"
| woken: "busy_run s s' \<Longrightarrow> spurious_step s' s'' \<Longrightarrow> busy_run s s''"

lemma waiting_run_bound:
  assumes "waiting_run k e w s s'" and "tasks s \<noteq> []" and "\<not> stop_flag s"
  shows "hd (tasks s') = hd (tasks s) \<and> taken s' = taken s \<and> k + work s' \<le> work s + 3 * e + 2 * w"
proof -
  have "tasks s' \<noteq> [] \<and> \<not> stop_flag s' \<and> hd (tasks s') = hd (tasks s) \<and> taken s' = taken s
    \<and> k + work s' \<le> work s + 3 * e + 2 * w"
    using assms
  proof (induction rule: waiting_run.induct)
    case (worker k e w s s' s'')
    then have "tasks s' \<noteq> []" "\<not> stop_flag s'" by simp_all
    from worker_step_work [OF worker.hyps(2) this] worker.hyps(3) have "tasks s'' = tasks s'" "work s'' < work s'" by auto
    moreover have "stop_flag s'' = stop_flag s'"
      using worker.hyps(2) by (auto simp: test_loop_def test_predicate_def elim!: worker_stepE split: if_splits)
    ultimately show ?case using worker.IH worker.prems worker.hyps(3) by auto
  next
    case (enqueued k e w s s' t)
    then show ?case by (auto simp: push_task_def work_def)
  next
    case (woken k e w s s' s'')
    then obtain i where i: "i < length (workers s')" "workers s' ! i = Asleep" "s'' = s'\<lparr>workers := (workers s')[i := Want_Lock]\<rparr>"
      by (auto elim: spurious_stepE)
    with work_phase [of i "workers s'" Want_Lock] woken.IH woken.prems show ?case by (simp add: work_def)
  qed simp
  then show ?thesis by simp
qed

lemma all_busy_own: "own_step s s' \<Longrightarrow> all_busy s \<Longrightarrow>
  all_busy s' \<and> taken s' = taken s \<and> tasks s' = tasks s"
  by (force simp: own_step_def all_busy_def list_all_length elim!: worker_stepE)

lemma busy_wake_all: "list_all busy ws \<Longrightarrow> list_all busy (wake_all ws)"
  by (auto simp: list_all_length)

lemma busy_run_waits:
  assumes "busy_run s s'" and "all_busy s"
  shows "all_busy s' \<and> taken s' = taken s \<and> prefix (tasks s) (tasks s')"
  using assms
proof (induction rule: busy_run.induct)
  case (own s s' s'')
  then show ?case using all_busy_own by metis
next
  case (owner s s' s'')
  then have "all_busy s' \<and> taken s' = taken s \<and> prefix (tasks s) (tasks s')" by simp
  with owner.hyps(2) show ?case
    by (auto simp: all_busy_def push_task_def busy_wake_all intro: prefix_prefix elim!: owner_stepE)
next
  case (woken s s' s'')
  then show ?case by (force simp: all_busy_def list_all_length elim!: spurious_stepE)
qed simp

text \<open>
  No notification is lost: with a worker asleep, every waiting task has a pending \<open>notify_one\<close> or a
  worker on its way to the queue.
\<close>

fun ready :: "'a worker \<Rightarrow> nat" where
  "ready At_Loop = 1"
| "ready Want_Lock = 1"
| "ready Has_Lock = 1"
| "ready _ = 0"

definition pool_wakes :: "'a thread_pool \<Rightarrow> bool" where
  "pool_wakes s \<longleftrightarrow>
     (\<not> stop_flag s \<longrightarrow> Asleep \<in> set (workers s) \<longrightarrow> length (tasks s) \<le> notifying s + sum_list (map ready (workers s)))"

lemmas ready_phase = sum_update [where f = ready]

lemma asleep_update: "w \<noteq> Asleep \<Longrightarrow> Asleep \<in> set (ws[i := w]) \<Longrightarrow> Asleep \<in> set ws"
  using set_update_subset_insert [of ws i w] by auto

lemma pool_wakes_phase:
  assumes "pool_wakes s" and "i < length (workers s)" and "ready (workers s ! i) \<le> ready w" and "w \<noteq> Asleep"
  shows "pool_wakes (s\<lparr>workers := (workers s)[i := w]\<rparr>)"
  using assms ready_phase [OF assms(2), of w] asleep_update [OF assms(4)] by (fastforce simp: pool_wakes_def)

lemma pool_wakes_worker:
  assumes "worker_step s s'" and "pool_ok n s" and "pool_wakes s"
  shows "pool_wakes s'"
  using assms
proof (induction rule: worker_step.induct)
  case (notify_one s i)
  with ready_phase [of i "workers s" Want_Lock] nth_mem [of i "workers s"] show ?case by (auto simp: pool_wakes_def)
next
  case (loop i s)
  show ?case
  proof (cases "stop_flag s")
    case False
    with loop show ?thesis unfolding test_loop_def by (simp add: pool_wakes_phase)
  qed (simp add: pool_wakes_def test_loop_def)
next
  case (lock i s)
  then have "pool_wakes (s\<lparr>workers := (workers s)[i := Has_Lock]\<rparr>)" by (intro pool_wakes_phase) simp_all
  then show ?case by (simp add: pool_wakes_def)
next
  case (predicate i s)
  from predicate(1,2) ready_phase [of i "workers s"] have
    "sum_list (map ready ((workers s)[i := w])) + 1 = sum_list (map ready (workers s)) + ready w" for w by simp
  from this [of "Running (hd (tasks s))"] predicate(4) show ?case
    by (auto simp: pool_wakes_def test_predicate_def dest!: asleep_update [rotated])
next
  case (block i s)
  then have "tasks s = []" by (auto simp: pool_ok_def)
  then show ?case by (simp add: pool_wakes_def)
next
  case (finish i s t)
  then show ?case by (intro pool_wakes_phase) simp_all
qed (simp add: pool_wakes_def)

lemma pool_reach_wakes: "pool_reach n s \<Longrightarrow> pool_wakes s"
proof (induction rule: pool_reach.induct)
  case start
  then show ?case by (simp add: pool_wakes_def new_thread_pool_def)
next
  case (step s s')
  have "owner_step s s' \<Longrightarrow> pool_wakes s'"
    using step.IH pool_reach_ok [OF step.hyps(1)]
    by (auto simp: pool_wakes_def push_task_def pool_ok_def elim!: owner_stepE)
  with step pool_wakes_worker pool_reach_ok [OF step.hyps(1)] show ?case by (auto simp: pool_step_def)
next
  case (spurious s s')
  then show ?case by (auto elim!: spurious_stepE intro: pool_wakes_phase)
qed

lemma worker_own_enabled:
  assumes "pool_ok n s" and "i < n" and "workers s ! i \<noteq> Asleep" and "workers s ! i \<noteq> Returned" and "\<not> busy (workers s ! i)"
  shows "\<exists>s'. own_step s s'"
proof -
  have len: "length (workers s) = n" using assms(1) by (simp add: pool_ok_def)
  have changes: "own_step s s'" if "worker_step s s'" "j < n" "\<not> busy (workers s ! j)" "workers s' ! j \<noteq> workers s ! j" for j s'
    using that len by (auto simp: own_step_def nth_list_update split: if_splits)
  have step: "\<exists>s'. own_step s s'"
    if "j < n" "workers s ! j \<noteq> Asleep" "workers s ! j \<noteq> Returned" "\<not> busy (workers s ! j)"
      "workers s ! j = Want_Lock \<Longrightarrow> tasks_mutex s = None" for j
  proof -
    have ch: "worker_step s s' \<Longrightarrow> workers s' ! j \<noteq> workers s ! j \<Longrightarrow> \<exists>s'. own_step s s'" for s'
      using changes that by blast
    show ?thesis
    proof (cases "workers s ! j")
      case At_Loop
      with that len show ?thesis by (intro ch [of "test_loop j s"] worker_step.loop) (simp_all add: test_loop_def)
    next
      case Want_Lock
      with that len show ?thesis by (intro ch [OF worker_step.lock [of j]]) simp_all
    next
      case Has_Lock
      with that len show ?thesis by (intro ch [of "test_predicate j s"] worker_step.predicate) (simp_all add: test_predicate_def)
    next
      case Blocking
      with that len show ?thesis by (intro ch [OF worker_step.block [of j]]) simp_all
    qed (use that in auto)
  qed
  show ?thesis
  proof (cases "tasks_mutex s")
    case None
    with step assms(2-5) show ?thesis by blast
  next
    case (Some j)
    then have "j < n" "holds_lock (workers s ! j)" using assms(1) by (auto simp: pool_ok_def)
    then show ?thesis by (intro step [of j]) (cases "workers s ! j"; auto)+
  qed
qed

lemma idle_worker_steps:
  assumes "pool_reach n s" and "0 < n" and "tasks s \<noteq> []" and "\<not> stop_flag s"
  shows "\<not> all_busy s \<longrightarrow> (\<exists>s'. own_step s s')"
proof
  note ok = pool_reach_ok [OF assms(1)]
  assume "\<not> all_busy s"
  then obtain i where i: "i < n" "\<not> busy (workers s ! i)" using ok by (auto simp: all_busy_def list_all_length pool_ok_def)
  have ret: "workers s ! j \<noteq> Returned" if "j < n" for j using ok assms(4) that by (simp add: pool_ok_def)
  show "\<exists>s'. own_step s s'"
  proof (cases "workers s ! i = Asleep")
    case False
    with worker_own_enabled [OF ok i(1) _ ret [OF i(1)] i(2)] show ?thesis by blast
  next
    case True
    have len: "length (workers s) = n" using ok by (simp add: pool_ok_def)
    from True i(1) len have "Asleep \<in> set (workers s)" by (metis nth_mem)
    with pool_reach_wakes [OF assms(1)] assms(3,4) have "0 < notifying s + sum_list (map ready (workers s))"
      by (cases "tasks s") (auto simp: pool_wakes_def)
    then consider "0 < notifying s" | w where "w \<in> set (workers s)" "ready w \<noteq> 0"
      by (metis add_is_0 gr_zeroI imageE set_map sum_list_eq_0_iff)
    then show ?thesis
    proof cases
      case 1
      with True i(1) len have "worker_step s (s\<lparr>notifying := notifying s - 1, workers := (workers s)[i := Want_Lock]\<rparr>)"
        by (intro worker_step.notify_one) simp_all
      moreover have "s\<lparr>notifying := notifying s - 1, workers := (workers s)[i := Want_Lock]\<rparr> \<noteq> s\<lparr>workers := ws\<rparr>" for ws
        using 1 by (metis diff_less less_irrefl less_one thread_pool.select_convs(5) thread_pool.surjective thread_pool.update_convs(1,5))
      ultimately have "own_step s (s\<lparr>notifying := notifying s - 1, workers := (workers s)[i := Want_Lock]\<rparr>)"
        by (auto simp: own_step_def)
      then show ?thesis ..
    next
      case 2
      then obtain j where "j < n" "ready (workers s ! j) \<noteq> 0" using len by (auto simp: in_set_conv_nth)
      with worker_own_enabled [OF ok, of j] show ?thesis by (cases "workers s ! j") auto
    qed
  qed
qed

section \<open>Shutdown\<close>

text \<open>
  A worker that is asleep after \<open>notify_all\<close> stays asleep, and the destructor waits for it.
\<close>

definition stuck :: "nat \<Rightarrow> 'a thread_pool \<Rightarrow> bool" where
  "stuck i s \<longleftrightarrow> i < length (workers s) \<and> workers s ! i = Asleep \<and> destructor s = Notified \<and> notifying s = 0"

lemma stuck_step:
  assumes "pool_step s s'" and "stuck i s"
  shows "stuck i s'"
proof -
  have "worker_step s s' \<Longrightarrow> stuck i s'"
    using assms(2) by (auto simp: stuck_def test_loop_def test_predicate_def nth_list_update elim!: worker_stepE)
  moreover have "owner_step s s' \<Longrightarrow> stuck i s'"
    using assms(2) nth_mem [of i "workers s"] by (auto simp: stuck_def elim!: owner_stepE)
  ultimately show ?thesis using assms(1) by (auto simp: pool_step_def)
qed

lemma stuck_forever: "pool_step\<^sup>*\<^sup>* s s' \<Longrightarrow> stuck i s \<Longrightarrow> stuck i s'"
  by (induction rule: rtranclp_induct) (auto intro: stuck_step)

text \<open>A run in which the owner enqueues before any worker starts, then destroys the pool.\<close>

lemma reach_enqueued:
  "\<exists>s. pool_reach n s \<and> s = (new_thread_pool n)\<lparr>tasks := ts, enqueued := ts, notifying := length ts\<rparr>"
proof (induction ts rule: rev_induct)
  case Nil
  then show ?case using pool_reach.start [of n] by (simp add: new_thread_pool_def)
next
  case (snoc t ts)
  then obtain s where s: "pool_reach n s" "s = (new_thread_pool n)\<lparr>tasks := ts, enqueued := ts, notifying := length ts\<rparr>" by blast
  then have "pool_step s (push_task t s)" by (auto simp: pool_step_def new_thread_pool_def intro: owner_step.enqueue)
  with s have "pool_reach n (push_task t s)" by (blast intro: pool_reach.step)
  with s(2) show ?case by (auto simp: push_task_def)
qed

lemma reach_returned:
  assumes "pool_reach n s" and "workers s = replicate n At_Loop" and "stop_flag s" and "k \<le> n"
  shows "pool_reach n (s\<lparr>workers := replicate k Returned @ replicate (n - k) At_Loop\<rparr>)"
  using assms(4)
proof (induction k)
  case 0
  then show ?case using assms(1) by (simp add: assms(2) [symmetric])
next
  case (Suc k)
  let ?s = "s\<lparr>workers := replicate k Returned @ replicate (n - k) At_Loop\<rparr>"
  have nk: "n - k = Suc (n - Suc k)" using Suc.prems by simp
  have "worker_step ?s (test_loop k ?s)"
    by (rule worker_step.loop) (use Suc.prems in \<open>simp_all add: nth_append\<close>)
  with Suc have "pool_reach n (test_loop k ?s)" by (auto simp: pool_step_def intro: pool_reach.step)
  moreover have "test_loop k ?s = s\<lparr>workers := replicate (Suc k) Returned @ replicate (n - Suc k) At_Loop\<rparr>"
    unfolding nk test_loop_def using assms(3) by (simp add: list_update_append replicate_append_same)
  ultimately show ?case by simp
qed

section \<open>What the pool guarantees\<close>

text \<open>
  C24 (invariant). At every moment the tasks that have been enqueued are, in order, those the
  workers have taken followed by those that wait: every task is taken at most once, and first
  in, first out. At most one worker is inside the critical section.
\<close>

theorem tasks_taken_in_order:
  assumes "pool_reach n s"
  shows "enqueued s = taken s @ tasks s
    \<and> (\<forall>i<n. \<forall>j<n. holds_lock (workers s ! i) \<longrightarrow> holds_lock (workers s ! j) \<longrightarrow> i = j)"
  using pool_reach_ok [OF assms] by (auto simp: pool_ok_def)

text \<open>
  C11 (liveness). A pool with at least one worker that has not been told to stop, and a task that
  waits in it. Whatever happened before, as long as one worker is not inside a task, some thread
  other than those inside tasks can take a step (a worker, or an \<open>enqueue\<close> that has still to notify): no
  notification is lost. In every run of the pool, enqueueing and spurious wake-ups included but not its
  destruction, in which nobody takes a task, the workers'
  steps number at most \<open>work\<close> (at most 4 for a worker, and 3 for a pending \<open>notify_one\<close>) plus 3 for
  each task enqueued and 2 for each spurious wake-up, and the first task is still the first. But the
  tasks are \<open>process()\<close> loops, which last as long as their clients stay: when every worker is inside
  one, no run takes the waiting task before one of those tasks returns.
\<close>

theorem tasks_make_progress:
  assumes "pool_reach n s" and "0 < n" and "tasks s \<noteq> []" and "\<not> stop_flag s"
  shows "(\<not> all_busy s \<longrightarrow> (\<exists>s'. own_step s s'))
    \<and> (\<forall>k e w s'. waiting_run k e w s s' \<longrightarrow>
        hd (tasks s') = hd (tasks s) \<and> taken s' = taken s \<and> k + work s' \<le> work s + 3 * e + 2 * w)
    \<and> (all_busy s \<longrightarrow> (\<forall>s'. busy_run s s' \<longrightarrow> all_busy s' \<and> taken s' = taken s \<and> prefix (tasks s) (tasks s')))"
  using idle_worker_steps [OF assms] waiting_run_bound [of _ _ _ s] busy_run_waits [of s] assms(3,4) by simp

text \<open>
  The destructor can wait for ever. It sets \<open>stop_\<close> and notifies without the
  mutex; when a worker has just found the predicate false but is not asleep yet, it misses the
  notification, falls asleep, and in no continuation (without a spurious wake-up) does it
  return or the destructor finish.
\<close>

lemma destructor_loses_wakeup:
  assumes "pool_reach n s" and "destructor s = Alive" and "notifying s = 0"
    and "i < n" and "workers s ! i = Blocking"
  shows "\<exists>s'. pool_reach n s' \<and> pool_step\<^sup>*\<^sup>* s s'
    \<and> (\<forall>s''. pool_step\<^sup>*\<^sup>* s' s'' \<longrightarrow> workers s'' ! i = Asleep \<and> destructor s'' = Notified)"
proof -
  let ?s1 = "s\<lparr>stop_flag := True, destructor := Stop_Set\<rparr>"
  let ?s2 = "?s1\<lparr>destructor := Notified, workers := wake_all (workers ?s1)\<rparr>"
  let ?s3 = "?s2\<lparr>workers := (workers ?s2)[i := Asleep], tasks_mutex := None\<rparr>"
  have len: "i < length (workers s)" using pool_reach_ok [OF assms(1)] assms(4) by (simp add: pool_ok_def)
  have 1: "pool_step s ?s1" using assms(2) by (auto simp: pool_step_def intro: owner_step.set_stop)
  have 2: "pool_step ?s1 ?s2" unfolding pool_step_def by (rule disjI2, rule owner_step.notify_all) simp
  have 3: "pool_step ?s2 ?s3" unfolding pool_step_def
    by (rule disjI1, rule worker_step.block) (use len assms(5) in simp_all)
  have "pool_reach n ?s3" by (rule pool_reach.step [OF pool_reach.step [OF pool_reach.step [OF assms(1) 1] 2] 3])
  moreover have "pool_step\<^sup>*\<^sup>* s ?s3" using 1 2 3 by (meson converse_rtranclp_into_rtranclp rtranclp.rtrancl_refl)
  moreover have "stuck i ?s3" using len assms(3) by (simp add: stuck_def)
  ultimately show ?thesis using stuck_forever [of ?s3 _ i] by (intro exI [of _ ?s3]) (auto simp: stuck_def)
qed

text \<open>
  Destroying the pool drops the tasks that wait: \<open>worker\<close> tests \<open>!stop_\<close> before it
  looks at the queue, so a pool can be destroyed, all workers joined, without one of the tasks
  enqueued before the destructor was called having run.
\<close>

lemma queued_tasks_dropped:
  "\<exists>s. pool_reach n s \<and> destructor s = Joined \<and> enqueued s = ts \<and> taken s = [] \<and> tasks s = ts"
proof -
  obtain s where s: "pool_reach n s" "s = (new_thread_pool n)\<lparr>tasks := ts, enqueued := ts, notifying := length ts\<rparr>"
    using reach_enqueued by blast
  let ?s1 = "s\<lparr>stop_flag := True, destructor := Stop_Set\<rparr>"
  let ?s2 = "?s1\<lparr>destructor := Notified, workers := wake_all (workers ?s1)\<rparr>"
  have w: "workers ?s2 = replicate n At_Loop" using s(2) by (simp add: new_thread_pool_def wake_all_def)
  have 1: "pool_step s ?s1" unfolding pool_step_def
    by (rule disjI2, rule owner_step.set_stop) (simp add: s(2) new_thread_pool_def)
  have 2: "pool_step ?s1 ?s2" unfolding pool_step_def by (rule disjI2, rule owner_step.notify_all) simp
  have "pool_reach n ?s2" by (rule pool_reach.step [OF pool_reach.step [OF s(1) 1] 2])
  from reach_returned [OF this w, of n] have "pool_reach n (?s2\<lparr>workers := replicate n Returned\<rparr>)" by simp
  moreover
  have "owner_step (?s2\<lparr>workers := replicate n Returned\<rparr>) (?s2\<lparr>workers := replicate n Returned\<rparr>\<lparr>destructor := Joined\<rparr>)"
    by (rule owner_step.join) auto
  then have "pool_step (?s2\<lparr>workers := replicate n Returned\<rparr>) (?s2\<lparr>workers := replicate n Returned\<rparr>\<lparr>destructor := Joined\<rparr>)"
    unfolding pool_step_def by (rule disjI2)
  ultimately have "pool_reach n (?s2\<lparr>workers := replicate n Returned\<rparr>\<lparr>destructor := Joined\<rparr>)"
    by (rule pool_reach.step)
  then show ?thesis using s(2) by (intro exI conjI) (assumption, simp_all add: new_thread_pool_def)
qed

section \<open>Witnesses\<close>

lemma reach_blocking:
  "\<exists>s. pool_reach 1 s \<and> destructor s = Alive \<and> notifying s = 0 \<and> workers s = [Blocking]"
proof -
  let ?s0 = "new_thread_pool 1"
  let ?s1 = "test_loop 0 ?s0"
  let ?s2 = "?s1\<lparr>workers := (workers ?s1)[0 := Has_Lock], tasks_mutex := Some 0\<rparr>"
  have "pool_step ?s0 ?s1" unfolding pool_step_def
    by (rule disjI1, rule worker_step.loop) (simp_all add: new_thread_pool_def)
  moreover have "pool_step ?s1 ?s2" unfolding pool_step_def
    by (rule disjI1, rule worker_step.lock) (simp_all add: new_thread_pool_def test_loop_def)
  moreover have "pool_step ?s2 (test_predicate 0 ?s2)" unfolding pool_step_def
    by (rule disjI1, rule worker_step.predicate) (simp_all add: new_thread_pool_def test_loop_def)
  ultimately have "pool_reach 1 (test_predicate 0 ?s2)"
    by (rule pool_reach.step [OF pool_reach.step [OF pool_reach.step [OF pool_reach.start]]])
  then show ?thesis
    by (rule exI [of "\<lambda>s. pool_reach 1 s \<and> _ s", OF conjI])
      (simp add: test_predicate_def test_loop_def new_thread_pool_def)
qed

theorem tasks_taken_in_order_witness:
  "\<exists>s. pool_reach 2 s \<and> tasks s = [7::nat, 8] \<and> enqueued s = taken s @ tasks s"
proof -
  obtain s where "pool_reach 2 s" "s = (new_thread_pool 2)\<lparr>tasks := [7::nat, 8], enqueued := [7, 8], notifying := length [7::nat, 8]\<rparr>"
    using reach_enqueued by blast
  with tasks_taken_in_order [of 2 s] show ?thesis by (intro exI [of _ s]) simp
qed

lemma reach_busy:
  "\<exists>s. pool_reach 1 s \<and> workers s = [Running t] \<and> tasks s = [u] \<and> taken s = [t] \<and> \<not> stop_flag s"
proof -
  obtain s where s: "pool_reach 1 s" "s = (new_thread_pool 1)\<lparr>tasks := [t, u], enqueued := [t, u], notifying := length [t, u]\<rparr>"
    using reach_enqueued by blast
  let ?s1 = "test_loop 0 s"
  let ?s2 = "?s1\<lparr>workers := (workers ?s1)[0 := Has_Lock], tasks_mutex := Some 0\<rparr>"
  have "pool_step s ?s1" unfolding pool_step_def
    by (rule disjI1, rule worker_step.loop) (simp_all add: s(2) new_thread_pool_def)
  moreover have "pool_step ?s1 ?s2" unfolding pool_step_def
    by (rule disjI1, rule worker_step.lock) (simp_all add: s(2) new_thread_pool_def test_loop_def)
  moreover have "pool_step ?s2 (test_predicate 0 ?s2)" unfolding pool_step_def
    by (rule disjI1, rule worker_step.predicate) (simp_all add: s(2) new_thread_pool_def test_loop_def)
  ultimately have "pool_reach 1 (test_predicate 0 ?s2)"
    by (rule pool_reach.step [OF pool_reach.step [OF pool_reach.step [OF s(1)]]])
  then show ?thesis
    by (rule exI [of "\<lambda>s. pool_reach 1 s \<and> _ s", OF conjI])
      (simp add: s(2) test_predicate_def test_loop_def new_thread_pool_def)
qed

theorem tasks_make_progress_witness:
  "(\<exists>s s'. pool_reach 2 s \<and> tasks s = [7::nat] \<and> own_step s s')
   \<and> (\<exists>s. pool_reach 1 s \<and> tasks s = [8::nat] \<and> (\<forall>s'. busy_run s s' \<longrightarrow> taken s' = [7]))"
proof -
  obtain s where s: "pool_reach 2 s" "s = (new_thread_pool 2)\<lparr>tasks := [7::nat], enqueued := [7], notifying := length [7::nat]\<rparr>"
    using reach_enqueued by blast
  have "\<not> all_busy s" by (simp add: s(2) all_busy_def new_thread_pool_def numeral_2_eq_2)
  with s tasks_make_progress [of 2 s] obtain s' where own: "own_step s s'" by (auto simp: new_thread_pool_def)
  obtain s2 where s2: "pool_reach 1 s2" "workers s2 = [Running (7::nat)]" "tasks s2 = [8]" "taken s2 = [7]" "\<not> stop_flag s2"
    using reach_busy [of "7::nat" 8] by blast
  have "\<forall>s'. busy_run s2 s' \<longrightarrow> taken s' = [7]"
    using tasks_make_progress [of 1 s2] s2 by (simp add: all_busy_def)
  with s2(1,3) have "\<exists>s. pool_reach 1 s \<and> tasks s = [8::nat] \<and> (\<forall>s'. busy_run s s' \<longrightarrow> taken s' = [7])"
    by (intro exI [of _ s2]) simp
  moreover have "tasks s = [7]" by (simp add: s(2))
  with s(1) own have "\<exists>s s'. pool_reach 2 s \<and> tasks s = [7::nat] \<and> own_step s s'" by blast
  ultimately show ?thesis by simp
qed

lemma destructor_loses_wakeup_witness:
  "\<exists>s. pool_reach 1 (s :: nat thread_pool) \<and> (\<forall>s''. pool_step\<^sup>*\<^sup>* s s'' \<longrightarrow> destructor s'' \<noteq> Joined)"
proof -
  obtain s :: "nat thread_pool" where s: "pool_reach 1 s" "destructor s = Alive" "notifying s = 0" "workers s = [Blocking]"
    using reach_blocking by blast
  from destructor_loses_wakeup [OF s(1-3), of 0] s(4) obtain s' :: "nat thread_pool" where
    "pool_reach 1 s'" "\<forall>s''. pool_step\<^sup>*\<^sup>* s' s'' \<longrightarrow> workers s'' ! 0 = Asleep \<and> destructor s'' = Notified"
    by auto
  then show ?thesis by (intro exI [of _ s']) auto
qed

section \<open>The workers' steps as a function\<close>

text \<open>
  A schedule names the step and the worker; \<open>pool_exec\<close> is its effect, \<open>None\<close> when the step is not
  possible. A run of the server is a list of such events.
\<close>

datatype pool_event =
    Notify_One nat | Notify_Nobody | Loop nat | Lock nat | Predicate nat | Block nat | Finish nat | Wake nat

fun pool_exec :: "pool_event \<Rightarrow> 'a thread_pool \<Rightarrow> 'a thread_pool option" where
  "pool_exec (Notify_One i) s =
     (if 0 < notifying s \<and> i < length (workers s) \<and> workers s ! i = Asleep
      then Some (s\<lparr>notifying := notifying s - 1, workers := (workers s)[i := Want_Lock]\<rparr>) else None)"
| "pool_exec Notify_Nobody s =
     (if 0 < notifying s \<and> Asleep \<notin> set (workers s) then Some (s\<lparr>notifying := notifying s - 1\<rparr>) else None)"
| "pool_exec (Loop i) s =
     (if i < length (workers s) \<and> workers s ! i = At_Loop then Some (test_loop i s) else None)"
| "pool_exec (Lock i) s =
     (if i < length (workers s) \<and> workers s ! i = Want_Lock \<and> tasks_mutex s = None
      then Some (s\<lparr>workers := (workers s)[i := Has_Lock], tasks_mutex := Some i\<rparr>) else None)"
| "pool_exec (Predicate i) s =
     (if i < length (workers s) \<and> workers s ! i = Has_Lock then Some (test_predicate i s) else None)"
| "pool_exec (Block i) s =
     (if i < length (workers s) \<and> workers s ! i = Blocking
      then Some (s\<lparr>workers := (workers s)[i := Asleep], tasks_mutex := None\<rparr>) else None)"
| "pool_exec (Finish i) s =
     (if i < length (workers s)
      then (case workers s ! i of Running t \<Rightarrow> Some (s\<lparr>workers := (workers s)[i := At_Loop]\<rparr>) | _ \<Rightarrow> None)
      else None)"
| "pool_exec (Wake i) s =
     (if i < length (workers s) \<and> workers s ! i = Asleep
      then Some (s\<lparr>workers := (workers s)[i := Want_Lock]\<rparr>) else None)"

lemma pool_exec_iff:
  "(\<exists>e. pool_exec e s = Some s') \<longleftrightarrow> worker_step s s' \<or> spurious_step s s'"
proof
  assume "\<exists>e. pool_exec e s = Some s'"
  then obtain e where "pool_exec e s = Some s'" ..
  then show "worker_step s s' \<or> spurious_step s s'"
    by (cases e) (auto split: if_splits worker.splits intro: worker_step.intros [unfolded One_nat_def] spurious_step.intros)
next
  have "\<exists>e. pool_exec e s = Some s'" if "worker_step s s'"
    using that
  proof (induction rule: worker_step.induct)
    case (notify_one s i)
    then show ?case by (intro exI [of _ "Notify_One i"]) simp
  next
    case (notify_nobody s)
    then show ?case by (intro exI [of _ Notify_Nobody]) simp
  next
    case (loop i s)
    then show ?case by (intro exI [of _ "Loop i"]) simp
  next
    case (lock i s)
    then show ?case by (intro exI [of _ "Lock i"]) simp
  next
    case (predicate i s)
    then show ?case by (intro exI [of _ "Predicate i"]) simp
  next
    case (block i s)
    then show ?case by (intro exI [of _ "Block i"]) simp
  next
    case (finish i s t)
    then show ?case by (intro exI [of _ "Finish i"]) simp
  qed
  moreover have "\<exists>e. pool_exec e s = Some s'" if sp: "spurious_step s s'"
  proof -
    obtain i where "i < length (workers s)" "workers s ! i = Asleep" "s' = s\<lparr>workers := (workers s)[i := Want_Lock]\<rparr>"
      using sp by (rule spurious_stepE)
    then show ?thesis by (intro exI [of _ "Wake i"]) simp
  qed
  moreover assume "worker_step s s' \<or> spurious_step s s'"
  ultimately show "\<exists>e. pool_exec e s = Some s'" by blast
qed

text \<open>What a step of the workers does with the tasks: it takes the first one, or none.\<close>

lemma pool_exec_tasks:
  assumes "pool_exec e s = Some s'"
  shows "(tasks s' = tasks s \<or> tasks s \<noteq> [] \<and> tasks s' = tl (tasks s))
    \<and> (\<forall>t. Running t \<in> set (workers s') \<longrightarrow>
         Running t \<in> set (workers s) \<or> tasks s \<noteq> [] \<and> t = hd (tasks s))"
proof -
  have upd: "Running t \<in> set (ws[i := w]) \<Longrightarrow> Running t \<in> set ws \<or> w = Running t" for t :: 'a and ws i w
    using set_update_subset_insert [of ws i w] by auto
  show ?thesis
    using assms
    by (cases e) (auto simp: test_loop_def test_predicate_def dest!: upd split: if_splits worker.splits)
qed

text \<open>The tasks that are running; no task is run by two workers, or run while it waits.\<close>

fun job :: "'a worker \<Rightarrow> 'a list" where
  "job (Running t) = [t]"
| "job _ = []"

definition jobs :: "'a thread_pool \<Rightarrow> 'a list" where
  "jobs s = tasks s @ concat (map job (workers s))"

lemma in_jobs: "t \<in> set (jobs s) \<longleftrightarrow> t \<in> set (tasks s) \<or> Running t \<in> set (workers s)"
proof -
  have "t \<in> set (job w) \<longleftrightarrow> w = Running t" for w by (cases w) auto
  then show ?thesis by (auto simp: jobs_def)
qed

lemma mset_jobs_update:
  "i < length ws \<Longrightarrow> mset (concat (map job (ws[i := w]))) + mset (job (ws ! i)) = mset (concat (map job ws)) + mset (job w)"
  by (induction ws arbitrary: i) (auto simp: nth_Cons ac_simps split: nat.splits)

lemma pool_exec_jobs:
  assumes "pool_exec e s = Some s'"
  shows "mset (jobs s') \<subseteq># mset (jobs s)"
proof -
  have upd: "mset (concat (map job ((workers s)[i := w]))) + mset (job (workers s ! i)) =
      mset (concat (map job (workers s))) + mset (job w)" if "i < length (workers s)" for i w
    using mset_jobs_update [OF that] .
  show ?thesis
  proof (cases e)
    case (Predicate i)
    then have i: "i < length (workers s)" "workers s ! i = Has_Lock" "s' = test_predicate i s"
      using assms by (auto split: if_splits)
    have hd: "tasks s \<noteq> [] \<Longrightarrow> add_mset (hd (tasks s)) (mset (tl (tasks s))) = mset (tasks s)"
      by (cases "tasks s") auto
    from upd [OF i(1)] i(2) have "mset (concat (map job ((workers s)[i := w]))) = mset (concat (map job (workers s))) + mset (job w)" for w
      by simp
    with hd i(3) show ?thesis by (auto simp: jobs_def test_predicate_def)
  next
    case (Finish i)
    then obtain t where i: "i < length (workers s)" "workers s ! i = Running t" "s' = s\<lparr>workers := (workers s)[i := At_Loop]\<rparr>"
      using assms by (auto split: if_splits worker.splits)
    from upd [OF i(1), of At_Loop] i(2) have "mset (concat (map job (workers s))) = add_mset t (mset (concat (map job ((workers s)[i := At_Loop]))))"
      by simp
    then show ?thesis by (simp add: jobs_def i(3))
  next
    case Notify_Nobody
    with assms show ?thesis by (auto simp: jobs_def split: if_splits)
  qed (use assms upd in \<open>fastforce simp: jobs_def test_loop_def split: if_splits\<close>)+
qed

lemma pool_exec_distinct_jobs:
  assumes "pool_exec e s = Some s'" and "distinct (jobs s)"
  shows "distinct (jobs s') \<and> set (jobs s') \<subseteq> set (jobs s)"
proof -
  have sub: "mset (jobs s') \<subseteq># mset (jobs s)" by (rule pool_exec_jobs [OF assms(1)])
  have "count (mset (jobs s')) t = (if t \<in> set (jobs s') then 1 else 0)" for t
  proof -
    have "count (mset (jobs s)) t = (if t \<in> set (jobs s) then 1 else 0)"
      using assms(2) unfolding distinct_count_atmost_1 by blast
    then have "count (mset (jobs s)) t \<le> 1" by (simp only:) simp
    with mset_subset_eq_count [OF sub] have "count (mset (jobs s')) t \<le> 1" by (rule order.trans)
    moreover have "t \<in> set (jobs s') \<longleftrightarrow> 0 < count (mset (jobs s')) t" by (simp add: count_greater_zero_iff)
    ultimately show ?thesis by (cases "count (mset (jobs s')) t") auto
  qed
  then show ?thesis using set_mset_mono [OF sub] by (simp add: distinct_count_atmost_1)
qed

end
