(* ===== verification/RtspServer.thy ===== *)
theory RtspServer
  imports Requests ThreadPool
begin

text \<open>
  RtspServer.h/.cpp: the accept loop, the map of connections, the tasks in the thread pool, and
  the closing of connections, composed with the components below it. A run is a list of
  events, one for each step of the accept loop, of a client's thread, of a worker, of a task,
  of a sender or of a producer; \<open>server_exec\<close> is the effect of an event, \<open>None\<close> when it is not
  possible in that state, or when the program ends there. Connections are numbered in the
  order of \<open>accept\<close>. \<open>descriptors\<close> is the part of the kernel's table that is about them:
  to which connection an open descriptor belongs. A descriptor may be given out again once it
  is closed, which is all that is assumed of the kernel. In the program the UDP sockets of the
  RtpRtcpHandlers and the media files take their numbers from the same table; here they are left
  out (Sockets counts them), so a number that a task has freed is only ever given to a connection,
  and what is shown of a handler's descriptor is about mix-ups between connections.
\<close>

section \<open>State\<close>

datatype phase =
    Accepted     \<comment> \<open>\<open>handle_client\<close> has been started in a thread of its own\<close>
  | In_Map       \<comment> \<open>\<open>connections_[client_fd] = handler\<close> is done\<close>
  | Queued       \<comment> \<open>the task is in the pool, or running \<open>handler->process()\<close>\<close>
  | Processed    \<comment> \<open>\<open>process\<close> has returned\<close>
  | Removed      \<comment> \<open>\<open>remove_connection(client_fd)\<close> is done\<close>
  | Closed       \<comment> \<open>\<open>close(client_fd)\<close> is done\<close>
  | Destroyed    \<comment> \<open>the last pointer to the handler is gone, and with it the handler\<close>

datatype run_state = Not_Started | At_Test | In_Accept | Run_Returned

record client =
  client_fd :: int
  client_conn :: connection
  client_phase :: phase

record server =
  listen_port :: int
  server_fd :: int
  listening :: bool
  running_flag :: bool
  run_loop :: run_state
  connections :: "(int \<times> nat) list"
  clients :: "client list"
  descriptors :: "(int \<times> nat) list"
  task_pool :: "nat thread_pool"
  server_world :: world
  network :: "datagram list"

text \<open>The constructor, with the media sources that \<open>main\<close> has added before.\<close>

definition rtsp_server :: "int \<Rightarrow> nat \<Rightarrow> library \<Rightarrow> server" where
  "rtsp_server port0 num_threads l =
     \<lparr>listen_port = port0, server_fd = -1, listening = False, running_flag = False, run_loop = Not_Started,
      connections = [], clients = [], descriptors = [], task_pool = new_thread_pool num_threads,
      server_world = \<lparr>lib = l, sessions = [], ports = new_port_pool 15000 16000\<rparr>, network = []\<rparr>"

text \<open>\<open>initialize\<close>, given what \<open>socket\<close> returns and whether the other calls succeed.\<close>

definition initialize :: "int \<Rightarrow> bool \<Rightarrow> bool \<Rightarrow> bool \<Rightarrow> server \<Rightarrow> server \<times> unit outcome" where
  "initialize new_fd reuse_ok bind_ok listen_ok s =
     (let s1 = s\<lparr>server_fd := new_fd\<rparr>; s2 = s1\<lparr>listening := True\<rparr> in
      if new_fd < 0 then (s1, Fail (Runtime_Error ''Error creating socket''))
      else if \<not> reuse_ok then (s2, Fail (Runtime_Error ''Error setting socket options''))
      else if \<not> bind_ok then (s2, Fail (Runtime_Error ''Error binding socket to address''))
      else if \<not> listen_ok then (s2, Fail (Runtime_Error ''Error listening on socket''))
      else (s2, Done ()))"

text \<open>\<open>main\<close> up to \<open>server.run()\<close>: an exception that leaves it ends the program.\<close>

definition main_server :: "(string \<Rightarrow> byte list option) \<Rightarrow> byte list \<Rightarrow> int \<Rightarrow> bool \<Rightarrow> bool \<Rightarrow> bool \<Rightarrow> server outcome" where
  "main_server files buf0 new_fd reuse_ok bind_ok listen_ok =
     (case add_sources files buf0 main_sources empty_library of
        (l, Done _) \<Rightarrow>
          (case initialize new_fd reuse_ok bind_ok listen_ok (rtsp_server 8554 4 l) of
             (s, Done _) \<Rightarrow> Done s
           | (s, Wait) \<Rightarrow> Wait
           | (s, Fail e) \<Rightarrow> Fail Terminate)
      | (l, Wait) \<Rightarrow> Wait
      | (l, Fail e) \<Rightarrow> Fail Terminate)"

definition stop_server :: "server \<Rightarrow> server" where
  "stop_server s = s\<lparr>running_flag := False\<rparr>"

definition server_destroy :: "server \<Rightarrow> server" where
  "server_destroy s = (let s1 = stop_server s in if 0 \<le> server_fd s1 then s1\<lparr>listening := False\<rparr> else s1)"

section \<open>Operations\<close>

text \<open>The body of \<open>run\<close>'s loop after a successful \<open>accept\<close>.\<close>

definition accept_client :: "int \<Rightarrow> string \<Rightarrow> server \<Rightarrow> server" where
  "accept_client fd ip0 s =
     s\<lparr>clients := clients s @ [\<lparr>client_fd = fd, client_conn = new_connection ip0, client_phase = Accepted\<rparr>],
       descriptors := map_put fd (length (clients s)) (descriptors s), run_loop := At_Test\<rparr>"

definition set_phase :: "nat \<Rightarrow> phase \<Rightarrow> server \<Rightarrow> server" where
  "set_phase c p s = s\<lparr>clients := (clients s)[c := (clients s ! c)\<lparr>client_phase := p\<rparr>]\<rparr>"

text \<open>The two halves of \<open>handle_client\<close>.\<close>

definition insert_connection :: "nat \<Rightarrow> server \<Rightarrow> server" where
  "insert_connection c s = set_phase c In_Map (s\<lparr>connections := map_put (client_fd (clients s ! c)) c (connections s)\<rparr>)"

definition enqueue_client :: "nat \<Rightarrow> server \<Rightarrow> server" where
  "enqueue_client c s = set_phase c Queued (s\<lparr>task_pool := push_task c (task_pool s)\<rparr>)"

definition remove_connection :: "int \<Rightarrow> server \<Rightarrow> server" where
  "remove_connection fd s = s\<lparr>connections := map_erase fd (connections s)\<rparr>"

text \<open>\<open>close\<close> of a descriptor, whichever connection it belongs to now.\<close>

definition close_fd :: "int \<Rightarrow> server \<Rightarrow> server" where
  "close_fd fd s = s\<lparr>descriptors := map_erase fd (descriptors s)\<rparr>"

text \<open>The connection whose data \<open>recv\<close> and \<open>send\<close> of client \<open>c\<close>'s handler transfer.\<close>

definition serves :: "nat \<Rightarrow> server \<Rightarrow> nat option" where
  "serves c s = map_of (descriptors s) (client_fd (clients s ! c))"

definition handler_state :: "nat \<Rightarrow> server \<Rightarrow> conn_state" where
  "handler_state c s = \<lparr>conn = client_conn (clients s ! c), response = rtsp_message_new,
     the_world = server_world s, sent_datagrams = network s\<rparr>"

definition put_handler_state :: "nat \<Rightarrow> conn_state \<Rightarrow> server \<Rightarrow> server" where
  "put_handler_state c st s = s\<lparr>clients := (clients s)[c := (clients s ! c)\<lparr>client_conn := conn st\<rparr>],
     server_world := the_world st, network := sent_datagrams st\<rparr>"

definition in_task :: "nat \<Rightarrow> phase \<Rightarrow> server \<Rightarrow> bool" where
  "in_task c p s \<longleftrightarrow> c < length (clients s) \<and> client_phase (clients s ! c) = p \<and> Running c \<in> set (workers (task_pool s))"

section \<open>Events\<close>

datatype server_event =
    Run | Test_Loop | Accept int string | Accept_Error | Stop
  | Insert nat | Enqueue nat
  | Pool pool_event
  | Request nat "env \<times> string option \<times> int"
  | Remove nat | Close nat | Destroy nat env
  | Sender string string env
  | Producer nat

text \<open>A step of the sender of one of a session's handlers, and of a track's producer.\<close>

definition sender_event :: "string \<Rightarrow> string \<Rightarrow> env \<Rightarrow> server \<Rightarrow> server option" where
  "sender_event sid k env s =
     (let w = server_world s in
      case get_session sid w of
        None \<Rightarrow> None
      | Some ss \<Rightarrow>
          (case map_of (session_handlers ss) k of
             None \<Rightarrow> None
           | Some v \<Rightarrow>
               (case sender_step (env_inet env) sid (heap (lib w), v) of
                  Done ((h, v'), ds) \<Rightarrow>
                    Some (s\<lparr>server_world := set_heap h (w\<lparr>sessions := umap_put sid
                        (ss\<lparr>session_handlers := umap_put k v' (session_handlers ss)\<rparr>) (sessions w)\<rparr>),
                      network := network s @ ds\<rparr>)
                | _ \<Rightarrow> None)))"

definition producer_event :: "nat \<Rightarrow> server \<Rightarrow> server option" where
  "producer_event a s =
     (let w = server_world s in
      if a < length (heap (lib w)) then
        (case track_producer_step (heap (lib w) ! a) of
           Done t \<Rightarrow> Some (s\<lparr>server_world := set_heap ((heap (lib w))[a := t]) w\<rparr>)
         | _ \<Rightarrow> None)
      else None)"

text \<open>A worker comes back from a task when the task has closed its connection.\<close>

fun finish_ok :: "server \<Rightarrow> pool_event \<Rightarrow> bool" where
  "finish_ok s (Finish i) =
     (case workers (task_pool s) ! i of
        Running c \<Rightarrow> client_phase (clients s ! c) = Closed \<or> client_phase (clients s ! c) = Destroyed
      | _ \<Rightarrow> False)"
| "finish_ok s _ = True"

fun server_exec :: "server_event \<Rightarrow> server \<Rightarrow> server option" where
  "server_exec Run s =
     (if run_loop s = Not_Started then Some (s\<lparr>running_flag := True, run_loop := At_Test\<rparr>) else None)"
| "server_exec Test_Loop s =
     (if run_loop s = At_Test then Some (s\<lparr>run_loop := (if running_flag s then In_Accept else Run_Returned)\<rparr>) else None)"
| "server_exec (Accept fd ip0) s =
     (if run_loop s = In_Accept \<and> listening s \<and> 0 \<le> fd \<and> fd \<noteq> server_fd s \<and> map_of (descriptors s) fd = None
      then Some (accept_client fd ip0 s) else None)"
| "server_exec Accept_Error s = (if run_loop s = In_Accept then Some (s\<lparr>run_loop := At_Test\<rparr>) else None)"
| "server_exec Stop s = Some (stop_server s)"
| "server_exec (Insert c) s =
     (if c < length (clients s) \<and> client_phase (clients s ! c) = Accepted then Some (insert_connection c s) else None)"
| "server_exec (Enqueue c) s =
     (if c < length (clients s) \<and> client_phase (clients s ! c) = In_Map \<and> tasks_mutex (task_pool s) = None
         \<and> destructor (task_pool s) = Alive
      then Some (enqueue_client c s) else None)"
| "server_exec (Pool e) s =
     (if finish_ok s e then map_option (\<lambda>p. s\<lparr>task_pool := p\<rparr>) (pool_exec e (task_pool s)) else None)"
| "server_exec (Request c input) s =
     (if in_task c Queued s \<and> (serves c s = None \<longrightarrow> fst (snd input) = None) then
        (case process [input] (handler_state c s) of
           (rs, st, Open) \<Rightarrow> Some (put_handler_state c st s)
         | (rs, st, Left) \<Rightarrow> Some (set_phase c Processed (put_handler_state c st s))
         | (rs, st, Caught e) \<Rightarrow> Some (set_phase c Processed (put_handler_state c st s))
         | _ \<Rightarrow> None)
      else None)"
| "server_exec (Remove c) s =
     (if in_task c Processed s then Some (set_phase c Removed (remove_connection (client_fd (clients s ! c)) s)) else None)"
| "server_exec (Close c) s =
     (if in_task c Removed s then Some (set_phase c Closed (close_fd (client_fd (clients s ! c)) s)) else None)"
| "server_exec (Destroy c env) s =
     (if c < length (clients s) \<and> client_phase (clients s ! c) = Closed then
        (case connection_destroy env (handler_state c s) of
           Done st \<Rightarrow> Some (set_phase c Destroyed (close_fd (client_fd (clients s ! c)) (put_handler_state c st s)))
         | _ \<Rightarrow> None)
      else None)"
| "server_exec (Sender sid k env) s = sender_event sid k env s"
| "server_exec (Producer a) s = producer_event a s"

fun server_run :: "server_event list \<Rightarrow> server \<Rightarrow> server option" where
  "server_run [] s = Some s"
| "server_run (e # es) s = (case server_exec e s of None \<Rightarrow> None | Some s' \<Rightarrow> server_run es s')"

section \<open>The invariant\<close>

text \<open>
  Of the three parts: the map of connections holds each handler under its own descriptor, and only
  while its task is not over; a task in the pool has not run yet, and no handler has two tasks.
\<close>

definition conns_ok :: "server \<Rightarrow> bool" where
  "conns_ok s \<longleftrightarrow> sorted_keys (connections s) \<and>
     (\<forall>(fd, c)\<in>set (connections s). c < length (clients s) \<and> client_fd (clients s ! c) = fd
        \<and> client_phase (clients s ! c) \<in> {In_Map, Queued, Processed})"

definition tasks_ok :: "server \<Rightarrow> bool" where
  "tasks_ok s \<longleftrightarrow> distinct (jobs (task_pool s)) \<and>
     (\<forall>c\<in>set (jobs (task_pool s)). c < length (clients s) \<and> client_phase (clients s ! c) \<notin> {Accepted, In_Map}) \<and>
     (\<forall>c\<in>set (tasks (task_pool s)). client_phase (clients s ! c) = Queued)"

definition server_ok :: "nat \<Rightarrow> world \<Rightarrow> server \<Rightarrow> bool" where
  "server_ok n w0 s \<longleftrightarrow> world_kept w0 (server_world s) \<and> pool_reach n (task_pool s) \<and> conns_ok s \<and> tasks_ok s"

lemma rtsp_server_ok:
  assumes "library_ok l"
  shows "server_ok n (server_world (rtsp_server p n l)) (rtsp_server p n l)"
proof -
  have "world_ok (server_world (rtsp_server p n l))"
    using assms by (simp add: rtsp_server_def world_ok_def)
  then show ?thesis
    by (simp add: server_ok_def world_kept_refl)
      (simp add: rtsp_server_def conns_ok_def tasks_ok_def jobs_def new_thread_pool_def pool_reach.start [unfolded new_thread_pool_def])
qed

lemma set_phase_simps [simp]:
  "connections (set_phase c p s) = connections s" "descriptors (set_phase c p s) = descriptors s"
  "task_pool (set_phase c p s) = task_pool s" "server_world (set_phase c p s) = server_world s"
  "length (clients (set_phase c p s)) = length (clients s)"
  "client_fd (clients (set_phase c p s) ! i) = client_fd (clients s ! i)"
  "client_phase (clients (set_phase c p s) ! i) =
     (if i = c \<and> c < length (clients s) then p else client_phase (clients s ! i))"
  by (cases "c < length (clients s)"; cases "i = c"; auto simp: set_phase_def list_update_beyond)+

lemma put_handler_state_simps [simp]:
  "connections (put_handler_state c st s) = connections s" "descriptors (put_handler_state c st s) = descriptors s"
  "task_pool (put_handler_state c st s) = task_pool s" "server_world (put_handler_state c st s) = the_world st"
  "length (clients (put_handler_state c st s)) = length (clients s)"
  "client_fd (clients (put_handler_state c st s) ! i) = client_fd (clients s ! i)"
  "client_phase (clients (put_handler_state c st s) ! i) = client_phase (clients s ! i)"
  by (cases "c < length (clients s)"; cases "i = c"; auto simp: put_handler_state_def list_update_beyond)+

lemma server_fields_simps [simp]:
  "clients (remove_connection fd s) = clients s" "task_pool (remove_connection fd s) = task_pool s"
  "server_world (remove_connection fd s) = server_world s" "descriptors (remove_connection fd s) = descriptors s"
  "connections (remove_connection fd s) = map_erase fd (connections s)"
  "clients (close_fd fd s) = clients s" "task_pool (close_fd fd s) = task_pool s"
  "server_world (close_fd fd s) = server_world s" "connections (close_fd fd s) = connections s"
  "descriptors (close_fd fd s) = map_erase fd (descriptors s)"
  by (simp_all add: remove_connection_def close_fd_def)

text \<open>A change of one client's phase keeps the two parts that are about phases.\<close>

lemma conns_ok_phase:
  assumes "conns_ok s" and "p \<in> {In_Map, Queued, Processed} \<or> client_phase (clients s ! c) \<notin> {In_Map, Queued, Processed}"
  shows "conns_ok (set_phase c p s)"
  using assms by (auto simp: conns_ok_def)

lemma tasks_ok_phase:
  assumes "tasks_ok s" and "p \<notin> {Accepted, In_Map}" and "c \<notin> set (tasks (task_pool s))"
  shows "tasks_ok (set_phase c p s)"
  using assms by (auto simp: tasks_ok_def)

lemma conns_ok_frame:
  "conns_ok s \<Longrightarrow> connections s' = connections s \<Longrightarrow> clients s' = clients s \<Longrightarrow> conns_ok s'"
  by (simp add: conns_ok_def)

lemma tasks_ok_frame:
  "tasks_ok s \<Longrightarrow> task_pool s' = task_pool s \<Longrightarrow> clients s' = clients s \<Longrightarrow> tasks_ok s'"
  by (simp add: tasks_ok_def)

lemma handler_put_ok:
  "conns_ok (put_handler_state c st s) = conns_ok s" "tasks_ok (put_handler_state c st s) = tasks_ok s"
  by (simp_all add: conns_ok_def tasks_ok_def)

text \<open>A running task is not waiting.\<close>

lemma in_task_not_waiting:
  assumes "tasks_ok s" and "in_task c p s"
  shows "c \<notin> set (tasks (task_pool s))"
proof -
  have "distinct (tasks (task_pool s) @ concat (map job (workers (task_pool s))))"
    using assms(1) by (simp add: tasks_ok_def jobs_def)
  moreover have "c \<in> set (concat (map job (workers (task_pool s))))"
    using assms(2) by (force simp: in_task_def)
  ultimately show ?thesis by auto
qed

section \<open>Every event keeps the invariant\<close>

lemma set_phase_same: "client_phase (clients s ! c) = p \<Longrightarrow> set_phase c p s = s"
proof -
  assume "client_phase (clients s ! c) = p"
  then have "(clients s ! c)\<lparr>client_phase := p\<rparr> = clients s ! c" by (cases "clients s ! c") simp
  then show ?thesis by (simp add: set_phase_def)
qed

lemma request_event:
  assumes "server_exec (Request c input) s = Some s'"
  shows "in_task c Queued s \<and> (\<exists>p. p \<in> {Queued, Processed}
    \<and> s' = set_phase c p (put_handler_state c (fst (snd (process [input] (handler_state c s)))) s))"
proof -
  have q: "in_task c Queued s" using assms by (auto split: if_splits)
  then have same: "set_phase c Queued (put_handler_state c st s) = put_handler_state c st s" for st
    by (intro set_phase_same) (simp add: in_task_def)
  show ?thesis
    using assms q same [of "fst (snd (process [input] (handler_state c s)))"]
    by (auto split: if_splits ending.splits prod.splits)
qed

lemma destroy_event:
  assumes "server_exec (Destroy c env) s = Some s'"
  shows "client_phase (clients s ! c) = Closed \<and> (\<exists>st. connection_destroy env (handler_state c s) = Done st
    \<and> s' = set_phase c Destroyed (close_fd (client_fd (clients s ! c)) (put_handler_state c st s)))"
  using assms by (auto split: if_splits outcome.splits)

lemma sender_event_effect:
  assumes "sender_event sid k env s = Some s'"
  obtains ss v h v' ds where "get_session sid (server_world s) = Some ss" and "map_of (session_handlers ss) k = Some v"
    and "sender_step (env_inet env) sid (heap (lib (server_world s)), v) = Done ((h, v'), ds)"
    and "s' = s\<lparr>server_world := set_heap h ((server_world s)\<lparr>sessions := umap_put sid
       (ss\<lparr>session_handlers := umap_put k v' (session_handlers ss)\<rparr>) (sessions (server_world s))\<rparr>),
       network := network s @ ds\<rparr>"
proof -
  obtain ss where ss: "get_session sid (server_world s) = Some ss"
    using assms by (cases "get_session sid (server_world s)") (simp_all add: sender_event_def)
  obtain v where v: "map_of (session_handlers ss) k = Some v"
    using assms ss by (cases "map_of (session_handlers ss) k") (simp_all add: sender_event_def)
  obtain hv ds where r: "sender_step (env_inet env) sid (heap (lib (server_world s)), v) = Done (hv, ds)"
    using assms ss v by (cases "sender_step (env_inet env) sid (heap (lib (server_world s)), v)")
      (simp_all add: sender_event_def split_paired_all)
  obtain h v' where hv: "hv = (h, v')" by (cases hv)
  show thesis using that [OF ss v r [unfolded hv]] assms ss v r hv by (simp add: sender_event_def Let_def)
qed

lemma producer_event_effect:
  assumes "producer_event a s = Some s'"
  obtains t where "a < length (heap (lib (server_world s)))"
    and "track_producer_step (heap (lib (server_world s)) ! a) = Done t"
    and "s' = s\<lparr>server_world := set_heap ((heap (lib (server_world s)))[a := t]) (server_world s)\<rparr>"
  using assms by (auto simp: producer_event_def Let_def split: if_splits outcome.splits)

text \<open>They change nothing else of the server.\<close>

lemma sender_producer_frame:
  assumes "sender_event sid k env s = Some s' \<or> producer_event a s = Some s'"
  shows "task_pool s' = task_pool s \<and> clients s' = clients s \<and> connections s' = connections s \<and> descriptors s' = descriptors s"
  using assms by (elim disjE sender_event_effect producer_event_effect) simp_all

text \<open>The session in whose name an event acts.\<close>

fun event_session :: "server \<Rightarrow> server_event \<Rightarrow> string option" where
  "event_session s (Request c (env, incoming, n)) = map_option (request_session env) (received_request incoming)"
| "event_session s (Destroy c env) =
     (let sid = conn_session_id (client_conn (clients s ! c)) in if sid = [] then None else Some sid)"
| "event_session s (Sender sid k env) = Some sid"
| "event_session s e = None"

context world_relation begin

lemma server_exec_moves:
  assumes "server_exec e s = Some s'" and "\<And>sid. event_session s e = Some sid \<Longrightarrow> acts sid"
    and "\<And>c env input. e = Request c (env, input) \<Longrightarrow> disk (env_files env)" and "world_ok (server_world s)"
  shows "moves (server_world s) (server_world s')"
proof (cases e)
  case (Request c input)
  obtain env incoming n where input: "input = (env, incoming, n)" by (cases input)
  have "world_ok (the_world (handler_state c s))" using assms(4) by (simp add: handler_state_def)
  from process_moves [OF _ this, of "[input]"] request_event [OF assms(1) [unfolded Request]] assms(2,3) Request input show ?thesis
    by (auto simp: handler_state_def)
next
  case (Destroy c env)
  have ok: "world_ok (the_world (handler_state c s))" using assms(4) by (simp add: handler_state_def)
  have "conn_session_id (conn (handler_state c s)) \<noteq> [] \<Longrightarrow> acts (conn_session_id (conn (handler_state c s)))"
    using assms(2) Destroy by (simp add: handler_state_def)
  from destroy_event [OF assms(1) [unfolded Destroy]] connection_destroy_moves [OF this _ ok, of env] show ?thesis
    by (auto simp: handler_state_def)
next
  case (Sender sid k env)
  with assms(1) obtain ss v h v' ds where v: "get_session sid (server_world s) = Some ss" "map_of (session_handlers ss) k = Some v"
    "sender_step (env_inet env) sid (heap (lib (server_world s)), v) = Done ((h, v'), ds)"
    "server_world s' = set_heap h ((server_world s)\<lparr>sessions := umap_put sid
       (ss\<lparr>session_handlers := umap_put k v' (session_handlers ss)\<rparr>) (sessions (server_world s))\<rparr>)"
    by (auto elim: sender_event_effect)
  note ss = world_ok_session [OF assms(4) v(1)]
  have acts: "acts sid" using assms(2) Sender by simp
  have "handler_track v < length (heap (lib (server_world s)))"
    using ss map_of_SomeD [OF v(2)] by (auto simp: session_ok_def)
  note k = sender_step_evolves [OF acts v(3) world_ok_heap [OF assms(4)] this]
  have "\<forall>(k', x)\<in>insert (k, v') (set (session_handlers ss)). handler_track x < length h"
    using ss k map_of_SomeD [OF v(2)] evolves_length [of related _ h] by (auto simp: session_ok_def)
  then have "session_ok h (ss\<lparr>session_handlers := umap_put k v' (session_handlers ss)\<rparr>)"
    using set_umap_put [of k v' "session_handlers ss"] by (auto simp: session_ok_def)
  with moves_put [OF assms(4) conjunct1 [OF k] _ this acts] ss show ?thesis by (simp add: v(4))
next
  case (Producer a)
  let ?h = "heap (lib (server_world s))"
  from Producer assms(1) obtain t where t: "a < length ?h" "track_producer_step (?h ! a) = Done t"
    "server_world s' = set_heap (?h[a := t]) (server_world s)"
    by (auto elim: producer_event_effect)
  note ok = track_at [OF world_ok_heap [OF assms(4)] t(1)]
  have "track_ok t" using track_step_ok [OF ok] t(2) by auto
  then have k: "evolves related ?h (?h[a := t])"
    using related_step [OF ok t(2)] by (intro evolves_update world_ok_heap [OF assms(4)])
  have "distinct_keys (sessions (server_world s))" using assms(4) by (simp add: world_ok_def)
  from world_ok_update [OF assms(4) evolves_keeps [OF k] this] k show ?thesis
    by (simp add: t(3) world_moves_def set_heap_def get_session_def)
next
  case (Pool pe)
  with assms(1) moves_refl [OF assms(4)] show ?thesis by (auto split: if_splits)
qed (use assms(1) moves_refl [OF assms(4)] in
  \<open>simp add: stop_server_def accept_client_def insert_connection_def enqueue_client_def split: if_splits, clarsimp?\<close>)+

end

lemmas server_exec_world = named_world.server_exec_moves [OF _ TrueI TrueI, folded world_kept_def]

lemma server_exec_pool:
  assumes "server_exec e s = Some s'" and "pool_reach n (task_pool s)"
  shows "pool_reach n (task_pool s')"
proof (cases e)
  case (Pool pe)
  then obtain p where "pool_exec pe (task_pool s) = Some p" "task_pool s' = p" using assms(1) by (auto split: if_splits)
  with pool_exec_iff [of "task_pool s" p] assms(2) show ?thesis
    by (auto simp: pool_step_def intro: pool_reach.step pool_reach.spurious)
next
  case (Enqueue c)
  then have "owner_step (task_pool s) (task_pool s')"
    using assms(1) by (auto simp: enqueue_client_def intro: owner_step.enqueue split: if_splits)
  with assms(2) show ?thesis by (auto simp: pool_step_def intro: pool_reach.step)
next
  case (Request c input)
  from request_event [OF assms(1) [unfolded Request]] assms(2) show ?thesis by auto
next
  case (Destroy c env)
  from destroy_event [OF assms(1) [unfolded Destroy]] assms(2) show ?thesis by auto
next
  case (Sender sid k env)
  with assms sender_producer_frame [of sid k env s s'] show ?thesis by simp
next
  case (Producer a)
  with assms sender_producer_frame [of _ _ _ s s' a] show ?thesis by simp
qed (use assms in \<open>simp add: stop_server_def accept_client_def insert_connection_def split: if_splits, clarsimp?\<close>)+

lemma conns_ok_clients:
  assumes "conns_ok s" and "connections s' = connections s" and "length (clients s) \<le> length (clients s')"
    and "\<And>c. c < length (clients s) \<Longrightarrow> clients s' ! c = clients s ! c"
  shows "conns_ok s'"
  unfolding conns_ok_def assms(2)
proof (intro conjI)
  show "sorted_keys (connections s)" using assms(1) by (simp add: conns_ok_def)
  show "\<forall>(fd, c)\<in>set (connections s). c < length (clients s') \<and> client_fd (clients s' ! c) = fd
      \<and> client_phase (clients s' ! c) \<in> {In_Map, Queued, Processed}"
    using assms(1,3,4) unfolding conns_ok_def by fastforce
qed

lemma server_exec_conns:
  assumes "server_exec e s = Some s'" and "conns_ok s"
  shows "conns_ok s'"
proof (cases e)
  case (Accept fd ip0)
  then show ?thesis using assms(1)
    by (intro conns_ok_clients [OF assms(2)]) (auto simp: accept_client_def nth_append split: if_splits)
next
  case (Insert c)
  then have c: "c < length (clients s)" "s' = insert_connection c s" using assms(1) by (auto split: if_splits)
  have "sorted_keys (map_put (client_fd (clients s ! c)) c (connections s))"
    using assms(2) by (intro sorted_keys_map_put) (simp add: conns_ok_def)
  then have "conns_ok (set_phase c In_Map (s\<lparr>connections := map_put (client_fd (clients s ! c)) c (connections s)\<rparr>))"
    using assms(2) c(1) values_map_put [of "client_fd (clients s ! c)" c "connections s"]
    by (fastforce simp: conns_ok_def)
  then show ?thesis by (simp add: c(2) insert_connection_def)
next
  case (Enqueue c)
  then have "s' = set_phase c Queued (s\<lparr>task_pool := push_task c (task_pool s)\<rparr>)" using assms(1)
    by (auto simp: enqueue_client_def split: if_splits)
  moreover have "conns_ok (s\<lparr>task_pool := push_task c (task_pool s)\<rparr>)" using assms(2) by (rule conns_ok_frame) simp_all
  ultimately show ?thesis using conns_ok_phase by simp
next
  case (Request c input)
  from request_event [OF assms(1) [unfolded Request]] obtain p where p: "p \<in> {Queued, Processed}"
    "s' = set_phase c p (put_handler_state c (fst (snd (process [input] (handler_state c s)))) s)" by blast
  then show ?thesis using assms(2) by (auto intro!: conns_ok_phase simp: handler_put_ok)
next
  case (Remove c)
  then have c: "s' = set_phase c Removed (remove_connection (client_fd (clients s ! c)) s)" using assms(1)
    by (auto split: if_splits)
  have "(fd, i) \<in> set (connections s) \<Longrightarrow> fd \<noteq> client_fd (clients s ! c) \<Longrightarrow> i \<noteq> c" for fd i
    using assms(2) by (auto simp: conns_ok_def)
  then show ?thesis using assms(2) by (auto simp: c conns_ok_def set_map_erase intro!: sorted_keys_map_erase)
next
  case (Close c)
  then have c: "client_phase (clients s ! c) = Removed" "s' = set_phase c Closed (close_fd (client_fd (clients s ! c)) s)"
    using assms(1) by (auto simp: in_task_def split: if_splits)
  have "conns_ok (close_fd (client_fd (clients s ! c)) s)" using assms(2) by (rule conns_ok_frame) simp_all
  then show ?thesis unfolding c(2) by (rule conns_ok_phase) (simp add: c(1))
next
  case (Destroy c env)
  from destroy_event [OF assms(1) [unfolded Destroy]] obtain st where st: "client_phase (clients s ! c) = Closed"
    "s' = set_phase c Destroyed (close_fd (client_fd (clients s ! c)) (put_handler_state c st s))" by blast
  have "conns_ok (put_handler_state c st s)" using assms(2) by (simp add: handler_put_ok)
  then have "conns_ok (close_fd (client_fd (clients s ! c)) (put_handler_state c st s))" by (rule conns_ok_frame) simp_all
  then show ?thesis unfolding st(2) by (rule conns_ok_phase) (simp add: st(1))
next
  case (Sender sid k env)
  with assms sender_producer_frame [of sid k env s s'] show ?thesis by (auto intro: conns_ok_frame)
next
  case (Producer a)
  with assms sender_producer_frame [of _ _ _ s s' a] show ?thesis by (auto intro: conns_ok_frame)
qed (use assms in \<open>auto simp: stop_server_def conns_ok_def split: if_splits\<close>)

lemma server_exec_tasks:
  assumes "server_exec e s = Some s'" and "tasks_ok s"
  shows "tasks_ok s'"
proof (cases e)
  case (Accept fd ip0)
  then have "jobs (task_pool s') = jobs (task_pool s)" "tasks (task_pool s') = tasks (task_pool s)"
    "length (clients s') = Suc (length (clients s))" "\<And>c. c < length (clients s) \<Longrightarrow> clients s' ! c = clients s ! c"
    using assms(1) by (auto simp: accept_client_def nth_append split: if_splits)
  then show ?thesis using assms(2) by (fastforce simp: tasks_ok_def in_jobs)
next
  case (Insert c)
  then have c: "c < length (clients s)" "client_phase (clients s ! c) = Accepted" "s' = insert_connection c s"
    using assms(1) by (auto split: if_splits)
  then have "c \<notin> set (jobs (task_pool s))" using assms(2) by (auto simp: tasks_ok_def)
  then show ?thesis using assms(2) c by (auto simp: insert_connection_def tasks_ok_def in_jobs set_phase_def nth_list_update)
next
  case (Enqueue c)
  then have c: "c < length (clients s)" "client_phase (clients s ! c) = In_Map" "s' = enqueue_client c s"
    using assms(1) by (auto split: if_splits)
  then have "c \<notin> set (jobs (task_pool s))" using assms(2) by (auto simp: tasks_ok_def)
  moreover have "mset (jobs (push_task c (task_pool s))) = add_mset c (mset (jobs (task_pool s)))"
    by (simp add: jobs_def push_task_def)
  then have "distinct (jobs (push_task c (task_pool s))) \<longleftrightarrow> c \<notin> set (jobs (task_pool s)) \<and> distinct (jobs (task_pool s))"
    "set (jobs (push_task c (task_pool s))) = insert c (set (jobs (task_pool s)))"
    by (metis distinct.simps(2) mset.simps(2) mset_eq_imp_distinct_iff, metis list.simps(15) mset.simps(2) mset_eq_setD)
  ultimately show ?thesis using assms(2) c
    by (auto simp: enqueue_client_def tasks_ok_def set_phase_def nth_list_update push_task_def)
next
  case (Pool pe)
  then obtain p where p: "pool_exec pe (task_pool s) = Some p" "s' = s\<lparr>task_pool := p\<rparr>" using assms(1) by (auto split: if_splits)
  have "distinct (jobs (task_pool s))" using assms(2) by (simp add: tasks_ok_def)
  note d = pool_exec_distinct_jobs [OF p(1) this]
  have "set (tasks p) \<subseteq> set (tasks (task_pool s))"
    using pool_exec_tasks [OF p(1)] by (auto dest: list.set_sel(2))
  with d assms(2) show ?thesis by (auto simp: p(2) tasks_ok_def)
next
  case (Request c input)
  from request_event [OF assms(1) [unfolded Request]] obtain p where p: "in_task c Queued s" "p \<in> {Queued, Processed}"
    "s' = set_phase c p (put_handler_state c (fst (snd (process [input] (handler_state c s)))) s)" by blast
  from in_task_not_waiting [OF assms(2) p(1)] p(2) assms(2) show ?thesis
    unfolding p(3) by (intro tasks_ok_phase) (auto simp: handler_put_ok)
next
  case (Remove c)
  then have c: "in_task c Processed s" "s' = set_phase c Removed (remove_connection (client_fd (clients s ! c)) s)"
    using assms(1) by (auto split: if_splits)
  have "tasks_ok (remove_connection (client_fd (clients s ! c)) s)" using assms(2) by (rule tasks_ok_frame) simp_all
  then show ?thesis unfolding c(2) using in_task_not_waiting [OF assms(2) c(1)] by (intro tasks_ok_phase) simp_all
next
  case (Close c)
  then have c: "in_task c Removed s" "s' = set_phase c Closed (close_fd (client_fd (clients s ! c)) s)"
    using assms(1) by (auto split: if_splits)
  have "tasks_ok (close_fd (client_fd (clients s ! c)) s)" using assms(2) by (rule tasks_ok_frame) simp_all
  then show ?thesis unfolding c(2) using in_task_not_waiting [OF assms(2) c(1)] by (intro tasks_ok_phase) simp_all
next
  case (Destroy c env)
  from destroy_event [OF assms(1) [unfolded Destroy]] obtain st where st: "client_phase (clients s ! c) = Closed"
    "s' = set_phase c Destroyed (close_fd (client_fd (clients s ! c)) (put_handler_state c st s))" by blast
  then have "c \<notin> set (tasks (task_pool s))" using assms(2) by (auto simp: tasks_ok_def)
  moreover have "tasks_ok (put_handler_state c st s)" using assms(2) by (simp add: handler_put_ok)
  then have "tasks_ok (close_fd (client_fd (clients s ! c)) (put_handler_state c st s))" by (rule tasks_ok_frame) simp_all
  ultimately show ?thesis unfolding st(2) by (intro tasks_ok_phase) simp_all
next
  case (Sender sid k env)
  with assms sender_producer_frame [of sid k env s s'] show ?thesis by (auto intro: tasks_ok_frame)
next
  case (Producer a)
  with assms sender_producer_frame [of _ _ _ s s' a] show ?thesis by (auto intro: tasks_ok_frame)
qed (use assms in \<open>auto simp: stop_server_def tasks_ok_def split: if_splits\<close>)

lemma server_run_ok:
  "server_run es s = Some s' \<Longrightarrow> server_ok n w0 s \<Longrightarrow> server_ok n w0 s'"
proof (induction es arbitrary: s)
  case (Cons e es)
  then obtain s1 where s1: "server_exec e s = Some s1" "server_run es s1 = Some s'" by (auto split: option.splits)
  have parts: "world_kept w0 (server_world s)" "pool_reach n (task_pool s)" "conns_ok s" "tasks_ok s"
    using Cons.prems(2) by (simp_all add: server_ok_def)
  then have "world_ok (server_world s)" by (simp add: world_kept_iff)
  with server_exec_world [OF s1(1)] parts(1) have "world_kept w0 (server_world s1)" by (auto intro: world_kept_trans)
  with server_exec_pool [OF s1(1) parts(2)] server_exec_conns [OF s1(1) parts(3)] server_exec_tasks [OF s1(1) parts(4)]
  have "server_ok n w0 s1" by (simp add: server_ok_def)
  from Cons.IH [OF s1(2) this] show ?case .
qed simp

lemma initialize_ok:
  assumes "initialize lfd reuse_ok bind_ok listen_ok (rtsp_server port0 n l) = (s0, Done ())"
  shows "s0 = (rtsp_server port0 n l)\<lparr>server_fd := lfd, listening := True\<rparr> \<and> 0 \<le> lfd"
  using assms by (auto simp: initialize_def Let_def split: if_splits)

text \<open>
  The server of \<open>main\<close>: when the five files are there and the socket can be set up, it is an
  initialised server with a well-formed library.
\<close>

lemma main_server_initialized:
  assumes "main_server files buf0 lfd reuse_ok bind_ok listen_ok = Done s0"
    and "\<forall>(n, k, path, mt)\<in>set main_sources. files path \<noteq> None" and "length buf0 = MAX_FRAME_SIZE + 10"
  shows "\<exists>l. library_ok l \<and> initialize lfd reuse_ok bind_ok listen_ok (rtsp_server 8554 4 l) = (s0, Done ())"
proof -
  have "distinct (map entry_key main_sources)" by (simp add: main_sources_def)
  from add_sources_ok [OF library_ok_empty assms(3,2) this] obtain l where
    "add_sources files buf0 main_sources empty_library = (l, Done ())" "library_ok l" by blast
  with assms(1) show ?thesis by (auto simp: main_server_def split: prod.splits outcome.splits)
qed

section \<open>Which client a handler serves\<close>

text \<open>
  Runs in which a connection is accepted only when no handler is between its two \<open>close\<close> calls:
  the task's, and the one of the handler's destructor.
\<close>

fun prompt :: "server_event list \<Rightarrow> server \<Rightarrow> bool" where
  "prompt [] s = True"
| "prompt (e # es) s =
     ((case e of Accept fd ip0 \<Rightarrow> list_all (\<lambda>x. client_phase x \<noteq> Closed) (clients s) | _ \<Rightarrow> True) \<and>
      (case server_exec e s of None \<Rightarrow> True | Some s' \<Rightarrow> prompt es s'))"

definition serves_own :: "server \<Rightarrow> bool" where
  "serves_own s \<longleftrightarrow> sorted_keys (descriptors s) \<and>
     (\<forall>c < length (clients s).
        (client_phase (clients s ! c) \<notin> {Closed, Destroyed} \<longrightarrow> serves c s = Some c) \<and>
        (client_phase (clients s ! c) = Closed \<longrightarrow> serves c s = None))"

lemma serves_own_frame:
  assumes "serves_own s" and "descriptors s' = descriptors s" and "length (clients s') = length (clients s)"
    and "\<And>c. c < length (clients s) \<Longrightarrow> client_fd (clients s' ! c) = client_fd (clients s ! c)"
    and "\<And>c. c < length (clients s) \<Longrightarrow> client_phase (clients s' ! c) = client_phase (clients s ! c)
       \<or> client_phase (clients s ! c) \<notin> {Closed, Destroyed} \<and> client_phase (clients s' ! c) \<notin> {Closed, Destroyed}"
  shows "serves_own s'"
  unfolding serves_own_def assms(2,3)
proof (intro conjI allI impI)
  show "sorted_keys (descriptors s)" using assms(1) by (simp add: serves_own_def)
  fix c assume c: "c < length (clients s)"
  then have same: "serves c s' = serves c s" using assms(2) assms(4) [OF c] by (simp add: serves_def)
  show "serves c s' = Some c" if "client_phase (clients s' ! c) \<notin> {Closed, Destroyed}"
    using assms(1) assms(5) [OF c] that c same by (auto simp: serves_own_def)
  show "serves c s' = None" if "client_phase (clients s' ! c) = Closed"
    using assms(1) assms(5) [OF c] that c same by (auto simp: serves_own_def)
qed

lemma serves_own_close:
  assumes "serves_own s" and "c < length (clients s)" and "client_phase (clients s ! c) = Removed"
  shows "serves_own (set_phase c Closed (close_fd (client_fd (clients s ! c)) s))"
proof -
  have "client_fd (clients s ! i) \<noteq> client_fd (clients s ! c)"
    if "i < length (clients s)" "i \<noteq> c" "client_phase (clients s ! i) \<notin> {Closed, Destroyed}" for i
  proof -
    have "map_of (descriptors s) (client_fd (clients s ! i)) = Some i" "map_of (descriptors s) (client_fd (clients s ! c)) = Some c"
      using assms that by (simp_all add: serves_own_def serves_def)
    with that(2) show ?thesis by auto
  qed
  then show ?thesis using assms
    by (auto simp: serves_own_def serves_def map_of_map_erase intro: sorted_keys_map_erase)
qed

lemma serves_own_destroy:
  assumes "serves_own s" and "c < length (clients s)" and "client_phase (clients s ! c) = Closed"
  shows "serves_own (set_phase c Destroyed (close_fd (client_fd (clients s ! c)) s))"
proof -
  have "client_fd (clients s ! i) \<noteq> client_fd (clients s ! c)"
    if "i < length (clients s)" "client_phase (clients s ! i) \<notin> {Closed, Destroyed}" for i
  proof -
    have "map_of (descriptors s) (client_fd (clients s ! i)) = Some i" "map_of (descriptors s) (client_fd (clients s ! c)) = None"
      using assms that by (simp_all add: serves_own_def serves_def)
    then show ?thesis by auto
  qed
  then show ?thesis using assms
    by (auto simp: serves_own_def serves_def map_of_map_erase intro: sorted_keys_map_erase)
qed

lemma serves_own_accept:
  assumes "serves_own s" and "map_of (descriptors s) fd = None" and "list_all (\<lambda>x. client_phase x \<noteq> Closed) (clients s)"
  shows "serves_own (accept_client fd ip0 s)"
proof -
  have open_before: "client_fd (clients s ! i) \<noteq> fd"
    if "i < length (clients s)" "client_phase (clients s ! i) \<notin> {Closed, Destroyed}" for i
    using assms(1,2) that by (auto simp: serves_own_def serves_def)
  have not_closed: "client_phase (clients s ! i) \<noteq> Closed" if "i < length (clients s)" for i
    using assms(3) that by (simp add: list_all_length)
  show ?thesis using assms(1) open_before not_closed
    by (auto simp: serves_own_def serves_def accept_client_def map_of_map_put nth_append less_Suc_eq
        intro: sorted_keys_map_put)
qed

lemma serves_own_exec:
  assumes "server_exec e s = Some s'" and "prompt [e] s" and "serves_own s"
  shows "serves_own s'"
proof (cases e)
  case (Accept fd ip0)
  with assms(1,2) have "s' = accept_client fd ip0 s" "map_of (descriptors s) fd = None"
    "list_all (\<lambda>x. client_phase x \<noteq> Closed) (clients s)" by (auto split: if_splits)
  with serves_own_accept [OF assms(3)] show ?thesis by simp
next
  case (Insert c)
  with assms(1) have "c < length (clients s)" "client_phase (clients s ! c) = Accepted" "s' = insert_connection c s"
    by (auto split: if_splits)
  then show ?thesis by (intro serves_own_frame [OF assms(3)]) (auto simp: insert_connection_def set_phase_def nth_list_update)
next
  case (Enqueue c)
  with assms(1) have "c < length (clients s)" "client_phase (clients s ! c) = In_Map" "s' = enqueue_client c s"
    by (auto split: if_splits)
  then show ?thesis by (intro serves_own_frame [OF assms(3)]) (auto simp: enqueue_client_def set_phase_def nth_list_update)
next
  case (Request c input)
  from request_event [OF assms(1) [unfolded Request]] obtain p where p: "in_task c Queued s" "p \<in> {Queued, Processed}"
    "s' = set_phase c p (put_handler_state c (fst (snd (process [input] (handler_state c s)))) s)" by blast
  then have "c < length (clients s)" "client_phase (clients s ! c) = Queued" by (simp_all add: in_task_def)
  with p(2,3) show ?thesis by (intro serves_own_frame [OF assms(3)]) auto
next
  case (Remove c)
  with assms(1) have "in_task c Processed s" "s' = set_phase c Removed (remove_connection (client_fd (clients s ! c)) s)"
    by (auto split: if_splits)
  then show ?thesis by (intro serves_own_frame [OF assms(3)]) (auto simp: in_task_def)
next
  case (Close c)
  with assms(1) have "in_task c Removed s" "s' = set_phase c Closed (close_fd (client_fd (clients s ! c)) s)"
    by (auto split: if_splits)
  with serves_own_close [OF assms(3)] show ?thesis by (simp add: in_task_def)
next
  case (Destroy c env)
  from destroy_event [OF assms(1) [unfolded Destroy]] obtain st where st: "client_phase (clients s ! c) = Closed"
    "s' = set_phase c Destroyed (close_fd (client_fd (clients s ! c)) (put_handler_state c st s))" by blast
  have "c < length (clients s)" using assms(1) Destroy by (auto split: if_splits)
  moreover have "serves_own (put_handler_state c st s)" by (rule serves_own_frame [OF assms(3)]) simp_all
  ultimately show ?thesis
    using serves_own_destroy [of "put_handler_state c st s" c] st by simp
next
  case (Sender sid k env)
  with assms(1) sender_producer_frame [of sid k env s s'] show ?thesis by (intro serves_own_frame [OF assms(3)]) simp_all
next
  case (Producer a)
  with assms(1) sender_producer_frame [of _ _ _ s s' a] show ?thesis by (intro serves_own_frame [OF assms(3)]) simp_all
qed (use assms(1) in \<open>auto simp: stop_server_def split: if_splits intro: serves_own_frame [OF assms(3)]\<close>)

lemma serves_own_run:
  "server_run es s = Some s' \<Longrightarrow> prompt es s \<Longrightarrow> serves_own s \<Longrightarrow> serves_own s'"
proof (induction es arbitrary: s)
  case (Cons e es)
  then obtain s1 where s1: "server_exec e s = Some s1" "server_run es s1 = Some s'" by (auto split: option.splits)
  with Cons.prems have "prompt [e] s" "prompt es s1" by simp_all
  with Cons.IH [OF s1(2)] serves_own_exec [OF s1(1)] Cons.prems(3) show ?case by blast
qed simp

section \<open>What the server guarantees\<close>

text \<open>
  C8 (invariant). Whatever the clients send and in whatever order the accept loop, the clients'
  threads, the workers, the senders and the producers take their steps, a server that has been
  initialised keeps its state in order: tracks, sources and sessions fit together, the media
  sources are those configured, the port pool is a tail of 15000, 15002, ..., the thread pool is
  in a state it can reach by itself (so tasks are taken in order and make progress), no handler
  runs on two workers or twice, and the map of connections holds handlers under their own
  descriptors, whose tasks are not over.
\<close>

theorem server_invariant:
  assumes "library_ok l" and "initialize lfd reuse_ok bind_ok listen_ok (rtsp_server port0 n l) = (s0, Done ())"
    and "server_run events s0 = Some s"
  shows "world_ok (server_world s) \<and> media_sources (lib (server_world s)) = media_sources l
    \<and> suffix (available_ports (ports (server_world s))) (available_ports (new_port_pool 15000 16000))
    \<and> pool_reach n (task_pool s) \<and> distinct (jobs (task_pool s))
    \<and> (\<forall>c\<in>set (tasks (task_pool s)). client_phase (clients s ! c) = Queued)
    \<and> sorted_keys (connections s)
    \<and> (\<forall>(fd, c)\<in>set (connections s). c < length (clients s) \<and> client_fd (clients s ! c) = fd
         \<and> client_phase (clients s ! c) \<in> {In_Map, Queued, Processed})"
proof -
  let ?r = "rtsp_server port0 n l"
  have s0: "s0 = ?r\<lparr>server_fd := lfd, listening := True\<rparr>" using initialize_ok [OF assms(2)] by simp
  have "server_ok n (server_world ?r) s0"
    using rtsp_server_ok [OF assms(1), where p = port0 and n = n] by (simp add: s0 server_ok_def conns_ok_def tasks_ok_def)
  from server_run_ok [OF assms(3) this]
  show ?thesis by (simp add: server_ok_def conns_ok_def tasks_ok_def world_kept_iff rtsp_server_def)
qed

text \<open>
  As far as the descriptors of connections go: as long as no connection is accepted while a handler
  is between its task's \<open>close(client_fd)\<close> and the \<open>close\<close> of its destructor, every handler, from the
  moment of \<open>accept\<close> until its task closes the descriptor, receives from and sends to its own client.
  (A UDP socket or a file opened in that window by another thread gets the number too; this model
  does not follow those.)
\<close>

lemma handlers_serve_their_clients:
  assumes "initialize lfd reuse_ok bind_ok listen_ok (rtsp_server port0 n l) = (s0, Done ())"
    and "server_run events s0 = Some s" and "prompt events s0"
    and "c < length (clients s)" and "client_phase (clients s ! c) \<notin> {Closed, Destroyed}"
  shows "serves c s = Some c"
proof -
  have "serves_own s0"
    using initialize_ok [OF assms(1)] by (simp add: rtsp_server_def serves_own_def)
  from serves_own_run [OF assms(2,3) this] assms(4,5) show ?thesis by (simp add: serves_own_def)
qed

text \<open>The second client is accepted between the two \<open>close\<close> calls of the first, who has just disconnected.\<close>

definition double_close :: "int \<Rightarrow> server_event list" where
  "double_close fd =
     [Run, Test_Loop, Accept fd ''10.0.0.1'', Insert 0, Enqueue 0, Pool (Loop 0), Pool (Lock 0), Pool (Predicate 0),
      Request 0 (demo_env, None, 0), Remove 0, Close 0,
      Test_Loop, Accept fd ''10.0.0.2'', Insert 1, Enqueue 1, Pool (Loop 1), Pool (Lock 1), Pool (Predicate 1),
      Destroy 0 demo_env, Test_Loop, Accept fd ''10.0.0.3'']"

text \<open>
  C37 (safety). A handler can come to serve another client's connection. The task closes the descriptor, and the
  handler's destructor closes the same number again; a client accepted in between gets that
  number, so the second \<open>close\<close> cuts it off while its handler runs, and when the number is
  given out once more, that handler, working for client 1, receives from and sends to client
  2's connection. The run needs no misbehaviour of a client: the first one just disconnects.
\<close>

theorem double_close_crosses_clients:
  assumes "initialize lfd reuse_ok bind_ok listen_ok (rtsp_server port0 4 l) = (s0, Done ())"
    and "0 \<le> fd" and "fd \<noteq> lfd"
  shows "\<exists>s. server_run (double_close fd) s0 = Some s \<and> in_task 1 Queued s \<and> serves 1 s = Some 2"
proof -
  have "s0 = (rtsp_server port0 4 l)\<lparr>server_fd := lfd, listening := True\<rparr>" using initialize_ok [OF assms(1)] by simp
  with assms(2,3) show ?thesis
    by (simp add: double_close_def rtsp_server_def accept_client_def insert_connection_def enqueue_client_def
        set_phase_def in_task_def serves_def push_task_def new_thread_pool_def test_loop_def test_predicate_def
        handler_state_def put_handler_state_def remove_connection_def close_fd_def receive_rtsp_message_def
        new_connection_def connection_destroy_def map_erase_def numeral_eq_Suc)
qed

section \<open>Witnesses\<close>

definition demo_server :: server where
  "demo_server = (rtsp_server 8554 4 empty_library)\<lparr>server_fd := 3, listening := True\<rparr>"

lemma demo_server_initialized: "initialize 3 True True True (rtsp_server 8554 4 empty_library) = (demo_server, Done ())"
  by (simp add: initialize_def demo_server_def)

lemma demo_server_accepts:
  "server_run [Run, Test_Loop, Accept 5 ''10.0.0.1'', Insert 0] demo_server =
     Some (insert_connection 0 (accept_client 5 ''10.0.0.1'' (demo_server\<lparr>running_flag := True, run_loop := In_Accept\<rparr>)))"
  by (simp add: demo_server_def rtsp_server_def accept_client_def)

lemma demo_server_state:
  "clients (insert_connection 0 (accept_client 5 ''10.0.0.1'' (demo_server\<lparr>running_flag := True, run_loop := In_Accept\<rparr>))) =
     [\<lparr>client_fd = 5, client_conn = new_connection ''10.0.0.1'', client_phase = In_Map\<rparr>]"
  "connections (insert_connection 0 (accept_client 5 ''10.0.0.1'' (demo_server\<lparr>running_flag := True, run_loop := In_Accept\<rparr>))) = [(5, 0)]"
  by (simp_all add: demo_server_def rtsp_server_def accept_client_def insert_connection_def set_phase_def)

theorem server_invariant_witness:
  "\<exists>s. server_run [Run, Test_Loop, Accept 5 ''10.0.0.1'', Insert 0] demo_server = Some s \<and> connections s = [(5, 0)]
     \<and> world_ok (server_world s) \<and> pool_reach 4 (task_pool s)"
  using server_invariant [OF library_ok_empty demo_server_initialized demo_server_accepts] demo_server_accepts demo_server_state(2)
  by blast

lemma handlers_serve_their_clients_witness:
  "\<exists>s. server_run [Run, Test_Loop, Accept 5 ''10.0.0.1'', Insert 0] demo_server = Some s \<and> serves 0 s = Some 0"
proof -
  let ?s = "insert_connection 0 (accept_client 5 ''10.0.0.1'' (demo_server\<lparr>running_flag := True, run_loop := In_Accept\<rparr>))"
  have "prompt [Run, Test_Loop, Accept 5 ''10.0.0.1'', Insert 0] demo_server"
    by (simp add: demo_server_def rtsp_server_def accept_client_def)
  moreover have "0 < length (clients ?s)" "client_phase (clients ?s ! 0) \<notin> {Closed, Destroyed}"
    by (simp_all add: demo_server_state)
  ultimately have "serves 0 ?s = Some 0"
    by (rule handlers_serve_their_clients [OF demo_server_initialized demo_server_accepts])
  with demo_server_accepts show ?thesis by blast
qed

theorem double_close_crosses_clients_witness:
  "\<exists>s. server_run (double_close 5) demo_server = Some s \<and> in_task 1 Queued s \<and> serves 1 s = Some 2"
  by (rule double_close_crosses_clients [OF demo_server_initialized]) simp_all

text \<open>A client has connected and its task has been taken up by the first worker.\<close>

definition connect_events :: "int \<Rightarrow> server_event list" where
  "connect_events fd =
     [Run, Test_Loop, Accept fd ''10.0.0.2'', Insert 0, Enqueue 0, Pool (Loop 0), Pool (Lock 0), Pool (Predicate 0)]"

lemma demo_connected:
  assumes "s0 = (rtsp_server port0 4 l)\<lparr>server_fd := lfd, listening := True\<rparr>" and "0 \<le> fd" and "fd \<noteq> lfd"
  shows "\<exists>s. server_run (connect_events fd) s0 = Some s \<and> in_task 0 Queued s \<and> serves 0 s = Some 0
     \<and> client_conn (clients s ! 0) = new_connection ''10.0.0.2'' \<and> server_world s = server_world s0"
  using assms
  by (simp add: connect_events_def rtsp_server_def accept_client_def insert_connection_def enqueue_client_def
      set_phase_def in_task_def serves_def push_task_def new_thread_pool_def test_loop_def test_predicate_def
      numeral_eq_Suc)

end
