(* ===== verification/FilePosition.thy ===== *)
theory FilePosition
  imports Streaming RtspServer
begin

text \<open>
  Where a track is in its file, whoever listens: a track that \<open>main\<close> has opened stays on its file
  across every call of every session (\<open>on_file\<close>), and a session that registers while the
  producer is in the middle of the file gets the rest of it, from the frame that the producer
  holds or reads next. \<open>foreign\<close> relates a track to what the calls of the other sessions make of
  it; a registered session loses nothing by them.
\<close>

section \<open>On the file\<close>

text \<open>The producer has read \<open>fs\<close> from the beginning of the file, and may hold the last of them.\<close>

definition playing_file :: "byte list \<Rightarrow> media_track \<Rightarrow> bool" where
  "playing_file bs t \<longleftrightarrow>
     (\<exists>buf fs r. length buf = MAX_FRAME_SIZE + 10 \<and> reads_to (next_frame_of (kind t)) frame_buf (new_reader bs buf) fs r
        \<and> (reading t \<longrightarrow> track_reader t = r) \<and> suffix (in_flight t) (map Some fs))"

definition on_file :: "(string \<Rightarrow> byte list option) \<Rightarrow> media_track \<Rightarrow> bool" where
  "on_file files t \<longleftrightarrow> track_ok t \<and>
     (\<exists>bs. files (url t) = Some bs \<and> (is_active t \<longrightarrow> playing_file bs t) \<and>
        (\<not> is_active t \<longrightarrow> in_file (track_reader t) = open_file bs \<or> \<not> is_open (in_file (track_reader t))))"

lemma playing_fileI:
  assumes "length buf = MAX_FRAME_SIZE + 10" and "reads_to (next_frame_of (kind t)) frame_buf (new_reader bs buf) fs r"
    and "reading t \<Longrightarrow> track_reader t = r" and "suffix (in_flight t) (map Some fs)"
  shows "playing_file bs t"
  using assms unfolding playing_file_def by blast

lemma on_file_idle: "on_file files t \<Longrightarrow> \<not> is_active t \<Longrightarrow> files (url t) = Some bs \<Longrightarrow> idle_track (kind t) files bs t"
  by (auto simp: on_file_def idle_track_def)

lemma on_file_opened:
  assumes "length buf0 = MAX_FRAME_SIZE + 10" and "files path \<noteq> None"
  shows "on_file files (fst (track_open files (new_track mt buf0 name path)))"
  using track_open_ok [OF assms(1), of files mt name path] assms(2)
  by (cases mt) (auto simp: on_file_def track_open_def h264_open_def aac_open_def new_track_simps)

text \<open>Only the queue changes.\<close>

lemma queue_frame [simp]:
  "in_flight (t\<lparr>frame_queue := q\<rparr>) = in_flight t" "reading (t\<lparr>frame_queue := q\<rparr>) = reading t"
  "playing_file bs (t\<lparr>frame_queue := q\<rparr>) = playing_file bs t"
  by (simp_all add: in_flight_def reading_def playing_file_def)

lemma on_file_queue:
  assumes "on_file files t" and "cq_wf q" and "exit_flag q = exit_flag (frame_queue t)"
  shows "on_file files (t\<lparr>frame_queue := q\<rparr>)"
proof -
  have "track_ok (t\<lparr>frame_queue := q\<rparr>)" using assms by (simp add: on_file_def track_ok_def)
  with assms(1) show ?thesis by (simp add: on_file_def)
qed

lemma idle_track_started:
  assumes "idle_track mt files bs t"
  shows "track_start files t =
      ((started (if is_open (in_file (track_reader t)) then None else Some bs) t)\<lparr>produce_thread := Some Looping\<rparr>, Done ())"
proof -
  have "\<not> is_active t" "produce_thread t = None" "kind t = mt" using assms by (auto simp: idle_track_def track_ok_def)
  then show ?thesis
    using assms h264_track.start_closed [of t files bs] aac_track.start_closed [of t files bs]
      h264_track.start_open [of t files] aac_track.start_open [of t files]
    by (cases mt; cases "is_open (in_file (track_reader t))") (auto simp: track_start_def idle_track_def open_file_def)
qed

lemma on_file_start:
  assumes "on_file files t"
  shows "\<exists>t'. track_start files t = (t', Done ()) \<and> on_file files t' \<and> is_active t' \<and> url t' = url t \<and> kind t' = kind t"
proof (cases "is_active t")
  case True
  with assms show ?thesis by (simp add: track_start_is_active)
next
  case False
  from assms obtain bs where bs: "files (url t) = Some bs" by (auto simp: on_file_def)
  note idle = on_file_idle [OF assms False bs]
  let ?buf = "frame_buf (track_reader t)"
  let ?t = "(started (if is_open (in_file (track_reader t)) then None else Some bs) t)\<lparr>produce_thread := Some Looping\<rparr>"
  have "track_ok t" using assms by (simp add: on_file_def)
  from track_start_ok [OF this, of files] idle_track_started [OF idle] have "track_ok ?t" by auto
  moreover have "track_reader ?t = new_reader bs ?buf"
    using idle by (auto simp: started_def new_reader_def idle_track_def open_file_def)
  moreover have "is_active ?t" "kind ?t = kind t" "url ?t = url t" "in_flight ?t = []"
    by (simp_all add: started_def in_flight_def)
  moreover have "playing_file bs ?t"
    by (rule playing_fileI [OF idle_track_buf [OF idle] reads_to.none]) (use calculation in simp_all)
  ultimately have "on_file files ?t" using bs by (simp add: on_file_def)
  then show ?thesis using idle_track_started [OF idle] by (simp add: started_def)
qed

lemma on_file_step:
  assumes "on_file files t" and "track_producer_step t = Done t'"
  shows "on_file files t' \<and> url t' = url t"
proof -
  have ok: "track_ok t" "track_ok t'" "kind t' = kind t"
    using assms track_step_ok [of t] by (auto simp: on_file_def)
  show ?thesis
  proof (cases "is_active t")
    case False
    then have "produce_thread t = None" using ok(1) by (simp add: track_ok_def)
    then show ?thesis using assms(2) by (simp add: track_step_inactive(2))
  next
    case True
    with assms(1) obtain bs buf fs r1 where f: "files (url t) = Some bs" "length buf = MAX_FRAME_SIZE + 10"
      "reads_to (next_frame_of (kind t)) frame_buf (new_reader bs buf) fs r1" "reading t \<Longrightarrow> track_reader t = r1"
      "suffix (in_flight t) (map Some fs)" by (auto simp: on_file_def playing_file_def)
    have on: "on_file files t'"
      if "reads_to (next_frame_of (kind t)) frame_buf (new_reader bs buf) fs' r'" "reading t' \<Longrightarrow> track_reader t' = r'"
        "suffix (in_flight t') (map Some fs')" "is_active t'" "url t' = url t" for fs' r'
      using playing_fileI [OF f(2), of t' bs fs' r'] that ok f(1) by (simp add: on_file_def)
    consider "produce_thread t = None \<or> produce_thread t = Some Finished" | "produce_thread t = Some Looping"
      | g where "produce_thread t = Some (Producing g)" | "produce_thread t = Some Exiting"
      by (cases "produce_thread t") (auto intro: producer.exhaust)
    then show ?thesis
    proof cases
      case 1
      then show ?thesis using assms(2) by (auto simp: track_step_inactive(2) track_step_end(2))
    next
      case 2
      obtain n r where r: "next_frame_of (kind t) (track_reader t) = Inr (n, r)" "n \<le> int (length (frame_buf r))"
        using ok(1) h264_returns [of "track_reader t"] aac_returns [of "track_reader t"]
        by (cases "kind t") (auto simp: next_frame_of_def track_ok_def)
      note step = track_step_read [OF 2 True ok(1) r(1)]
      show ?thesis
      proof (cases "n \<le> 0")
        case True
        then show ?thesis using step assms(2) on [OF f(3)] \<open>is_active t\<close> by (auto simp: in_flight_def reading_def)
      next
        case False
        let ?f = "take (nat n) (frame_buf r)"
        have "reads_to (next_frame_of (kind t)) frame_buf (new_reader bs buf) (fs @ [?f]) r"
          using False f(4) 2 r by (intro reads_to_snoc [OF f(3)]) (simp_all add: reading_def)
        from on [OF this] show ?thesis using False step assms(2) \<open>is_active t\<close>
          by (auto simp: in_flight_def suffix_def)
      qed
    next
      case (3 g)
      then obtain q where q: "t' = t\<lparr>frame_queue := q, produce_thread := Some Looping\<rparr>"
        using assms(2) track_step_produce [OF 3] by (auto split: prod.splits outcome.splits)
      then show ?thesis using f(4) 3 True on [OF f(3)] by (auto simp: in_flight_def reading_def)
    next
      case 4
      then show ?thesis using assms(2) track_step_end(1) [OF 4] True on [OF f(3)]
        by (auto simp: in_flight_def reading_def)
    qed
  qed
qed

lemma on_file_exec:
  assumes "on_file files t" and "track_exec files c t = Done (f, t')"
  shows "on_file files t' \<and> url t' = url t \<and> kind t' = kind t"
proof -
  have ok: "track_ok t" and wf: "cq_wf (frame_queue t)" using assms(1) by (simp_all add: on_file_def track_ok_def)
  have kind: "kind t' = kind t" using track_exec_ok [OF ok, of files c] assms(2) by auto
  show ?thesis
  proof (cases c)
    case Start
    with assms on_file_start [OF assms(1)] show ?thesis by (auto simp: track_exec_def)
  next
    case (Register sid)
    with assms on_file_queue [OF assms(1) cq_wf_register [OF wf, of sid]] show ?thesis
      by (auto simp: track_exec_def track_register_simp register_consumer_def)
  next
    case (Unregister sid)
    with assms(2) have t': "track_unregister_session sid t = Done t'" by (auto simp: track_exec_def split: outcome.splits)
    note u = track_unregister_ok [OF ok, of sid]
    show ?thesis
    proof (cases "map_erase sid (consumer_positions (frame_queue t)) = []")
      case True
      with u t' assms(1) show ?thesis by (auto simp: on_file_def)
    next
      case False
      with u t' have "t' = t\<lparr>frame_queue := unregister_consumer sid (frame_queue t)\<rparr>" by auto
      with on_file_queue [OF assms(1) cq_wf_unregister [OF wf, of sid]] show ?thesis
        by (simp add: unregister_consumer_def)
    qed
  next
    case (Get sid)
    with assms(2) have "t' = t\<lparr>frame_queue := fst (consume None sid (frame_queue t))\<rparr>"
      by (auto simp: track_exec_def track_get_simp split: outcome.splits)
    with on_file_queue [OF assms(1) cq_wf_consume [OF wf, of None sid]] consume_frame [OF wf, of None sid]
    show ?thesis by simp
  next
    case Producer_Step
    with assms kind on_file_step [OF assms(1)] show ?thesis by (auto simp: track_exec_def split: outcome.splits)
  qed
qed

section \<open>Registering in the middle\<close>

lemma read_frames_rest:
  "reads_to next_frame buf r fs r1 \<Longrightarrow> read_frames next_frame buf k r = Inr (everything, True) \<Longrightarrow>
   \<exists>rest. everything = fs @ rest \<and> read_frames next_frame buf (k - length fs) r1 = Inr (rest, True)"
proof (induction arbitrary: k everything rule: reads_to.induct)
  case (one r n r1 fs r2)
  then obtain j where k: "k = Suc j" by (cases k) auto
  with one.prems one.hyps obtain rest where
    "read_frames next_frame buf j r1 = Inr (rest, True)" "everything = take (nat n) (buf r1) # rest"
    by (auto simp: frame_data_def bind_result_Inr_iff nat_le_iff)
  with one.IH k show ?case by auto
qed simp

lemma playable_rest:
  assumes "playable mt r0 everything" and "reads_to (next_frame_of mt) frame_buf r0 fs r1"
  shows "\<exists>rest. everything = fs @ rest \<and> playable mt r1 rest"
proof -
  from assms(1) obtain k where k: "read_frames (next_frame_of mt) frame_buf k r0 = Inr (everything, True)"
    "\<forall>f\<in>set everything. sendable mt f" "int (length (concat everything)) < 2 ^ 31"
    by (auto simp: playable_def)
  from read_frames_rest [OF assms(2) k(1)] obtain rest where
    rest: "everything = fs @ rest" "read_frames (next_frame_of mt) frame_buf (k - length fs) r1 = Inr (rest, True)" by blast
  with k(2,3) have "playable mt r1 rest" unfolding playable_def by auto
  with rest(1) show ?thesis by blast
qed

text \<open>
  A session that registers on an active track is delivered the file from the frame on that the
  producer holds or reads next.
\<close>

lemma joins_in_the_middle:
  assumes "on_file files t" and "is_active t" and "files (url t) = Some bs"
  shows "\<exists>buf before r1. length buf = MAX_FRAME_SIZE + 10
    \<and> reads_to (next_frame_of (kind t)) frame_buf (new_reader bs buf) before r1
    \<and> delivering (kind t) r1 sid [] (track_register_session sid t)"
proof -
  from assms obtain buf fs r where f: "length buf = MAX_FRAME_SIZE + 10"
    "reads_to (next_frame_of (kind t)) frame_buf (new_reader bs buf) fs r" "reading t \<Longrightarrow> track_reader t = r"
    "suffix (in_flight t) (map Some fs)" and ok: "track_ok t"
    by (auto simp: on_file_def playing_file_def)
  have wf: "cq_wf (frame_queue t)" using ok by (simp add: track_ok_def)
  obtain before held where fs: "fs = before @ held" "in_flight t = map Some held"
  proof -
    from f(4) obtain xs where "map Some fs = xs @ in_flight t" by (auto simp: suffix_def)
    then obtain b l where "fs = b @ l" "map Some l = in_flight t" by (metis map_eq_append_conv)
    with that show thesis by metis
  qed
  from reads_to_append [OF f(2) [unfolded fs(1)]] obtain r1 where
    r1: "reads_to (next_frame_of (kind t)) frame_buf (new_reader bs buf) before r1"
    "reads_to (next_frame_of (kind t)) frame_buf r1 held r" by blast
  let ?t = "t\<lparr>frame_queue := register_consumer sid (frame_queue t)\<rparr>"
  have "track_ok ?t" using ok cq_wf_register [OF wf, of sid] by (simp add: track_ok_def register_consumer_def)
  moreover have "pending (frame_queue ?t) sid = Some []" using pending_register [OF wf, of sid] by simp
  ultimately have "delivering (kind t) r1 sid [] ?t"
    using assms(2) r1(2) f(3) fs(2) unfolding delivering_def by (auto intro!: exI [of _ held] exI [of _ r])
  with f(1) r1(1) show ?thesis by (auto simp: track_register_simp)
qed

section \<open>The calls of other sessions\<close>

inductive foreign :: "(string \<Rightarrow> byte list option) \<Rightarrow> string \<Rightarrow> media_track \<Rightarrow> media_track \<Rightarrow> bool"
  for files :: "string \<Rightarrow> byte list option" and sid :: string where
  no_call: "foreign files sid t t"
| call: "foreign files sid t t1 \<Longrightarrow> track_ok t1 \<Longrightarrow> call_of c \<noteq> Some sid \<Longrightarrow> track_exec files c t1 = Done (f, t2) \<Longrightarrow>
    foreign files sid t t2"

lemma foreign_trans: "foreign files sid t1 t2 \<Longrightarrow> foreign files sid t t1 \<Longrightarrow> foreign files sid t t2"
  by (induction rule: foreign.induct) (auto intro: foreign.call)

lemma foreign_name: "foreign files sid t t' \<Longrightarrow> track_name t' = track_name t"
  by (induction rule: foreign.induct) (auto dest: track_exec_name)

text \<open>Only \<open>start\<close> looks at the disk.\<close>

lemma track_exec_disk: "(c = Start \<Longrightarrow> fs = files) \<Longrightarrow> track_exec fs c t = track_exec files c t"
  by (cases c) (simp_all add: track_exec_def)

lemma foreign_one:
  assumes "track_ok t" and "track_exec fs c t = Done (f, t')" and "\<And>sid'. call_of c = Some sid' \<Longrightarrow> sid' \<noteq> sid"
    and "c = Start \<Longrightarrow> fs = files"
  shows "foreign files sid t t'"
proof -
  have "track_exec files c t = Done (f, t')" using track_exec_disk [of c fs files t] assms(2,4) by simp
  moreover have "call_of c \<noteq> Some sid" using assms(3) by blast
  ultimately show ?thesis by (intro foreign.call [OF foreign.no_call assms(1)])
qed

interpretation foreign: world_relation "\<lambda>s. s \<noteq> sid" "\<lambda>fs. fs = files" "foreign files sid" for files sid
  by unfold_locales (auto intro: foreign.no_call foreign_trans foreign_name foreign_one)

text \<open>The invariant \<open>on_file\<close> of all tracks is another relation of that kind.\<close>

definition stays_on_file :: "(string \<Rightarrow> byte list option) \<Rightarrow> media_track \<Rightarrow> media_track \<Rightarrow> bool" where
  "stays_on_file files t t' \<longleftrightarrow> track_name t' = track_name t
     \<and> (on_file files t \<longrightarrow> on_file files t' \<and> url t' = url t \<and> kind t' = kind t)"

lemma stays_on_file_exec:
  assumes "track_ok t" and "track_exec fs c t = Done (f, t')" and "c = Start \<Longrightarrow> fs = files"
  shows "stays_on_file files t t'"
  using track_exec_name [OF assms(1,2)] on_file_exec [of files t c f t'] track_exec_disk [OF assms(3)] assms(2)
  by (auto simp: stays_on_file_def)

interpretation on_file: world_relation "\<lambda>_. True" "\<lambda>fs. fs = files" "stays_on_file files" for files
  by unfold_locales (auto intro: stays_on_file_exec, auto simp: stays_on_file_def)

section \<open>A registered session\<close>

text \<open>
  Session \<open>sid\<close> is registered and has got nothing yet: the track is idle, and will start with the
  file from its beginning, or it delivers the frames that \<open>r0\<close> reads.
\<close>

definition subscribed :: "(string \<Rightarrow> byte list option) \<Rightarrow> byte list \<Rightarrow> reader \<Rightarrow> string \<Rightarrow> media_track \<Rightarrow> bool" where
  "subscribed files bs r0 sid t \<longleftrightarrow> delivering (kind t) r0 sid [] t
     \<or> idle_track (kind t) files bs t \<and> pending (frame_queue t) sid = Some [] \<and> r0 = new_reader bs (frame_buf (track_reader t))"

lemma registered_again:
  assumes "cq_wf q" and "pending q sid = Some []"
  shows "register_consumer sid q = q"
proof -
  from assms(2) obtain p where p: "map_of (consumer_positions q) sid = Some p"
    "ring_slice (buffer q) p (ring_dist (length (buffer q)) p (write_position q)) = []" by (auto simp: pending_def)
  from arg_cong [OF p(2), of length] have "ring_dist (length (buffer q)) p (write_position q) = 0" by simp
  then have "p = write_position q"
    using ring_dist_eq_0 [of p "length (buffer q)" "write_position q"] cq_wf_position [OF assms(1) p(1)] assms(1)
    by (simp add: cq_wf_def)
  moreover have "map_put sid p m = m" if "map_of m sid = Some p" "sorted_keys m" for m :: "(string \<times> nat) list"
    using that
  proof (induction sid p m rule: map_put.induct)
    case (2 k v k' v' m)
    then have "k \<noteq> k' \<Longrightarrow> k' < k" by (fastforce simp: sorted_keys_Cons dest: map_of_SomeD)
    with 2 show ?case by (cases "k = k'") (auto simp: sorted_keys_Cons)
  qed simp
  ultimately show ?thesis using p(1) assms(1) by (simp add: register_consumer_def cq_wf_def)
qed

lemma subscribed_start:
  assumes "subscribed files bs r0 sid t"
  shows "\<exists>t'. track_start files t = (t', Done ()) \<and> delivering (kind t') r0 sid [] t' \<and> kind t' = kind t"
  using assms unfolding subscribed_def
proof
  assume "delivering (kind t) r0 sid [] t"
  then show ?thesis by (auto simp: delivering_def track_start_is_active)
next
  assume w: "idle_track (kind t) files bs t \<and> pending (frame_queue t) sid = Some [] \<and> r0 = new_reader bs (frame_buf (track_reader t))"
  then have "cq_wf (frame_queue t)" by (simp add: idle_track_def track_ok_def)
  with w have same: "track_register_session sid t = t" by (simp add: track_register_simp registered_again)
  from w have "idle_track (kind t) files bs t" by blast
  note starts = idle_track_starts [OF this, of sid, unfolded same]
  then have "kind (fst (track_start files t)) = kind t" by (simp add: delivering_def)
  with starts w show ?thesis by (intro exI [of _ "fst (track_start files t)"]) auto
qed

lemma idle_track_queue:
  "idle_track mt files bs t \<Longrightarrow> cq_wf q \<Longrightarrow> idle_track mt files bs (t\<lparr>frame_queue := q\<rparr>)"
  by (auto simp: idle_track_def track_ok_def)

lemma subscribed_exec:
  assumes "subscribed files bs r0 sid t" and "call_of c \<noteq> Some sid" and "track_exec files c t = Done (f, t')"
  shows "subscribed files bs r0 sid t' \<and> kind t' = kind t"
proof (cases "is_active t")
  case True
  then have d: "delivering (kind t) r0 sid [] t" using assms(1) by (auto simp: subscribed_def idle_track_def)
  have "delivering (kind t) r0 sid [] t'"
    using delivering_exec [OF d _ _ assms(3)] assms(2) by (cases c) auto
  then show ?thesis by (auto simp: subscribed_def delivering_def)
next
  case False
  then have w: "idle_track (kind t) files bs t" "pending (frame_queue t) sid = Some []" "r0 = new_reader bs (frame_buf (track_reader t))"
    using assms(1) by (auto simp: subscribed_def delivering_def)
  have wf: "cq_wf (frame_queue t)" and ok: "track_ok t" using w(1) by (simp_all add: idle_track_def track_ok_def)
  have queue: "subscribed files bs r0 sid (t\<lparr>frame_queue := q\<rparr>) \<and> kind (t\<lparr>frame_queue := q\<rparr>) = kind t"
    if "cq_wf q" "pending q sid = pending (frame_queue t) sid" for q
    using w that idle_track_queue [OF w(1) that(1)] by (simp add: subscribed_def)
  show ?thesis
  proof (cases c)
    case Start
    with subscribed_start [OF assms(1)] assms(3) show ?thesis by (auto simp: track_exec_def subscribed_def)
  next
    case (Register sid')
    with queue [OF cq_wf_register [OF wf, of sid']] pending_register [OF wf, of sid'] assms(2,3) show ?thesis
      by (auto simp: track_exec_def track_register_simp)
  next
    case (Unregister sid')
    from w(2) obtain p where "map_of (consumer_positions (frame_queue t)) sid = Some p" by (auto simp: pending_def)
    then have "map_of (map_erase sid' (consumer_positions (frame_queue t))) sid = Some p"
      using assms(2) Unregister by (auto simp: map_of_map_erase)
    then have "map_erase sid' (consumer_positions (frame_queue t)) \<noteq> []" by auto
    with track_unregister_ok [OF ok, of sid'] Unregister assms(3)
    have "t' = t\<lparr>frame_queue := unregister_consumer sid' (frame_queue t)\<rparr>" by (auto simp: track_exec_def)
    with queue [OF cq_wf_unregister [OF wf, of sid']] pending_unregister [of sid' "frame_queue t"] assms(2) Unregister
    show ?thesis by auto
  next
    case (Get sid')
    with assms(3) have "t' = t\<lparr>frame_queue := fst (consume None sid' (frame_queue t))\<rparr>"
      by (auto simp: track_exec_def track_get_simp split: outcome.splits)
    with queue [OF cq_wf_consume [OF wf, of None sid']] consume_frame [OF wf, of None sid' sid] assms(2) Get
    show ?thesis by auto
  next
    case Producer_Step
    then have "t' = t" using assms(3) track_step_inactive(2) [of t] w(1)
      by (simp add: track_exec_def idle_track_def track_ok_def)
    with assms(1) show ?thesis by simp
  qed
qed

lemma subscribed_foreign:
  "foreign files sid t t' \<Longrightarrow> subscribed files bs r0 sid t \<Longrightarrow> subscribed files bs r0 sid t' \<and> kind t' = kind t"
proof (induction rule: foreign.induct)
  case (call t t1 c f t2)
  note one = call.IH [OF call.prems]
  from subscribed_exec [OF conjunct1 [OF one] call.hyps(3,4)] one show ?case by simp
qed simp

lemma delivering_foreign: "foreign files sid t t' \<Longrightarrow> delivering mt r0 sid got t \<Longrightarrow> delivering mt r0 sid got t'"
proof (induction rule: foreign.induct)
  case (call t t1 c f t2)
  from delivering_exec [OF call.IH [OF call.prems] _ _ call.hyps(4)] call.hyps(3) show ?case by (cases c) auto
qed

text \<open>Registering on a track that is on its file.\<close>

lemma subscribes:
  assumes "on_file files t" and "files (url t) = Some bs"
  shows "\<exists>buf before r0. length buf = MAX_FRAME_SIZE + 10
    \<and> reads_to (next_frame_of (kind t)) frame_buf (new_reader bs buf) before r0
    \<and> subscribed files bs r0 sid (track_register_session sid t) \<and> (\<not> is_active t \<longrightarrow> before = [])"
proof (cases "is_active t")
  case True
  from joins_in_the_middle [OF assms(1) True assms(2), of sid] obtain buf before r1 where
    "length buf = MAX_FRAME_SIZE + 10" "reads_to (next_frame_of (kind t)) frame_buf (new_reader bs buf) before r1"
    "delivering (kind t) r1 sid [] (track_register_session sid t)" by blast
  moreover have "kind (track_register_session sid t) = kind t" by (simp add: track_register_simp)
  ultimately show ?thesis using True unfolding subscribed_def by metis
next
  case False
  note idle = on_file_idle [OF assms(1) False assms(2)]
  let ?buf = "frame_buf (track_reader t)"
  have wf: "cq_wf (frame_queue t)" using assms(1) by (simp add: on_file_def track_ok_def)
  have "subscribed files bs (new_reader bs ?buf) sid (track_register_session sid t)"
    using idle_track_queue [OF idle cq_wf_register [OF wf, of sid]] pending_register [OF wf, of sid]
    by (simp add: subscribed_def track_register_simp)
  with idle_track_buf [OF idle] reads_to.none [of "next_frame_of (kind t)" frame_buf "new_reader bs ?buf"] False
  show ?thesis by (intro exI [of _ ?buf] exI [of _ "[]"] exI [of _ "new_reader bs ?buf"]) simp
qed

end
