(* ===== verification/Viewers.thy ===== *)
theory Viewers
  imports SetupRequests FilePosition
begin

text \<open>
  What a client gets of a server that serves others too: from the SETUP of a new session on,
  whatever the other clients, the accept loop, the workers, the senders and the producers do,
  the datagrams that the session's sender puts on the wire for that track are the packets of the
  file, from the frame that the track's producer held when the session was set up, in order,
  without a gap and unchanged. The session may be played and paused, and further tracks may be
  added to it, before, in between and afterwards.
\<close>

section \<open>The state of a viewer\<close>

text \<open>
  A handler that has been set up and not played, or that has been played: then the pipeline of
  Streaming has sent \<open>wired\<close> for the frames \<open>got\<close>.
\<close>

definition handler_views :: "(string \<Rightarrow> byte list option) \<Rightarrow> (string \<Rightarrow> bool) \<Rightarrow> media_type \<Rightarrow> byte list \<Rightarrow> reader \<Rightarrow> string \<Rightarrow>
    frame list \<Rightarrow> datagram list \<Rightarrow> media_track list \<times> session_handler \<Rightarrow> bool" where
  "handler_views files inet_ok mt bs r0 sid got wired hv \<longleftrightarrow>
     (let (h, v) = hv in
      list_all track_ok h \<and> handler_track v < length h \<and>
      (fresh_handler v \<and> kind (h ! handler_track v) = mt \<and> subscribed files bs r0 sid (h ! handler_track v)
         \<and> handler_ok inet_ok (handler_rtp v) \<and> rtp_sequence_number (handler_rtp v) = 0 \<and> got = [] \<and> wired = []
       \<or> sender_thread v \<noteq> None \<and> pipeline mt r0 inet_ok sid got wired (h, v)))"

text \<open>A session's handlers are kept under the names of their tracks.\<close>

definition well_named :: "media_track list \<Rightarrow> (string \<times> session_handler) list \<Rightarrow> bool" where
  "well_named h m \<longleftrightarrow> distinct_keys m \<and> (\<forall>(k, v)\<in>set m. handler_track v < length h \<and> track_name (h ! handler_track v) = k)"

definition views :: "(string \<Rightarrow> byte list option) \<Rightarrow> (string \<Rightarrow> bool) \<Rightarrow> media_type \<Rightarrow> byte list \<Rightarrow> reader \<Rightarrow> string \<Rightarrow> string \<Rightarrow>
    frame list \<Rightarrow> datagram list \<Rightarrow> world \<Rightarrow> bool" where
  "views files inet_ok mt bs r0 sid k got wired w \<longleftrightarrow> world_ok w \<and>
     (\<exists>ss v. get_session sid w = Some ss \<and> well_named (heap (lib w)) (session_handlers ss)
        \<and> map_of (session_handlers ss) k = Some v
        \<and> handler_views files inet_ok mt bs r0 sid got wired (heap (lib w), v))"

lemma well_named_other_track:
  assumes "well_named h m" and "map_of m k = Some v" and "map_of m k' = Some v'" and "k' \<noteq> k"
  shows "handler_track v' \<noteq> handler_track v"
proof
  assume same: "handler_track v' = handler_track v"
  have "track_name (h ! handler_track v) = k" "track_name (h ! handler_track v') = k'"
    using assms(1) map_of_SomeD [OF assms(2)] map_of_SomeD [OF assms(3)] by (auto simp: well_named_def)
  with same assms(4) show False by simp
qed

lemma well_named_keeps: "well_named h m \<Longrightarrow> keeps h h' \<Longrightarrow> well_named h' m"
  using keeps_name keeps_length by (fastforce simp: well_named_def)

lemma well_named_put:
  assumes "well_named h m" and "handler_track v < length h" and "track_name (h ! handler_track v) = k"
  shows "well_named h (umap_put k v m)"
proof -
  have "distinct_keys (umap_put k v m)" using assms(1) by (intro distinct_keys_update) (simp add: well_named_def)
  moreover have "\<forall>(k', v')\<in>insert (k, v) (set m). handler_track v' < length h \<and> track_name (h ! handler_track v') = k'"
    using assms by (auto simp: well_named_def)
  ultimately show ?thesis using set_umap_put [of k v m] by (auto simp: well_named_def)
qed

lemma handler_views_foreign:
  assumes "handler_views files inet_ok mt bs r0 sid got wired (h, v)" and "list_all track_ok h'" and "length h' = length h"
    and "foreign files sid (h ! handler_track v) (h' ! handler_track v)"
  shows "handler_views files inet_ok mt bs r0 sid got wired (h', v)"
  using assms subscribed_foreign [OF assms(4)] delivering_foreign [OF assms(4)]
  by (auto simp: handler_views_def pipeline_def)

lemma handler_views_evolves:
  assumes "handler_views files inet_ok mt bs r0 sid got wired (h, v)" and "evolves (foreign files sid) h h'"
  shows "handler_views files inet_ok mt bs r0 sid got wired (h', v)"
  using assms(1) evolves_ok [OF assms(2)] evolves_length [OF assms(2)] evolves_at [OF assms(2)]
  by (intro handler_views_foreign [OF assms(1)]) (auto simp: handler_views_def)

text \<open>Another track is changed.\<close>

lemma handler_views_elsewhere:
  assumes "handler_views files inet_ok mt bs r0 sid got wired (h, v)" and "a \<noteq> handler_track v" and "track_ok t"
  shows "handler_views files inet_ok mt bs r0 sid got wired (h[a := t], v)"
proof (rule handler_views_foreign [OF assms(1)])
  show "list_all track_ok (h[a := t])" using assms(1,3) list_all_update by (auto simp: handler_views_def)
  show "foreign files sid (h ! handler_track v) (h[a := t] ! handler_track v)" using assms(2) by (simp add: foreign.no_call)
qed simp

section \<open>PLAY\<close>

text \<open>A new handler is started: the pipeline begins. A played handler is not started again.\<close>

lemma start_handler_subscribed:
  assumes "fresh_handler v" and "subscribed files bs r0 sid (h ! handler_track v)"
  shows "\<exists>t. track_start files (h ! handler_track v) = (t, Done ()) \<and> kind t = kind (h ! handler_track v)
    \<and> delivering (kind t) r0 sid [] t
    \<and> start_handler files (h, v) = ((h[handler_track v := t], v\<lparr>handler_active := True, sender_thread := Some sender.At_Test,
        handler_rtp := rtp_stop (handler_rtp v\<lparr>rtcp_send_thread := True, rtcp_receive_thread := True\<rparr>)\<rparr>), Done ())"
  using subscribed_start [OF assms(2)] assms(1)
  by (auto simp: start_handler_def fresh_handler_def rtp_start_def Let_def)

lemma start_handler_views:
  assumes "handler_views files inet_ok mt bs r0 sid got wired (h, v)"
    and "start_handler files (h, v) = ((h', v'), r)" and "r \<noteq> Fail Terminate"
  shows "handler_views files inet_ok mt bs r0 sid got wired (h', v') \<and> handler_track v' = handler_track v"
proof (cases "sender_thread v = None")
  case True
  let ?a = "handler_track v"
  from assms(1) True have v: "list_all track_ok h" "?a < length h" "fresh_handler v" "kind (h ! ?a) = mt"
    "subscribed files bs r0 sid (h ! ?a)" "handler_ok inet_ok (handler_rtp v)" "rtp_sequence_number (handler_rtp v) = 0"
    "got = []" "wired = []" by (auto simp: handler_views_def)
  let ?v = "v\<lparr>handler_active := True, sender_thread := Some sender.At_Test,
    handler_rtp := rtp_stop (handler_rtp v\<lparr>rtcp_send_thread := True, rtcp_receive_thread := True\<rparr>)\<rparr>"
  from start_handler_subscribed [OF v(3,5)] v(4) obtain t where
    t: "start_handler files (h, v) = ((h[?a := t], ?v), Done ())" "delivering mt r0 sid [] t" by auto
  note t(1)
  moreover have "list_all track_ok (h[?a := t])"
    using list_all_update [OF v(1)] t(2) by (simp add: delivering_def)
  then have "pipeline mt r0 inet_ok sid [] [] (h[?a := t], ?v)"
    using t(2) v by (simp add: pipeline_def rtp_stop_def handler_ok_def)
  ultimately show ?thesis using assms(2) v(1,2,8,9) \<open>list_all track_ok (h[?a := t])\<close>
    by (auto simp: handler_views_def)
next
  case False
  then have p: "pipeline mt r0 inet_ok sid got wired (h, v)"
    using assms(1) by (auto simp: handler_views_def fresh_handler_def)
  then have "is_active (h ! handler_track v)" by (simp add: pipeline_def delivering_def)
  then have start: "track_start files (h ! handler_track v) = (h ! handler_track v, Done ())"
    by (rule track_start_is_active)
  show ?thesis
  proof (cases "handler_active v")
    case True
    with assms show ?thesis by (simp add: start_handler_def)
  next
    case inactive: False
    show ?thesis
    proof (cases "rtp_start (handler_rtp v)")
      case (Inl e)
      then have "e = Terminate" by (auto simp: rtp_start_def split: if_splits)
      with Inl assms(2,3) inactive start show ?thesis by (auto simp: start_handler_def Let_def)
    next
      case (Inr rtp)
      with assms(2,3) inactive start False show ?thesis by (auto simp: start_handler_def Let_def)
    qed
  qed
qed

lemma start_handlers_tracks:
  assumes "start_handlers files m h = ((h', m'), r)"
  shows "map (\<lambda>(k, v). (k, handler_track v)) m' = map (\<lambda>(k, v). (k, handler_track v)) m"
  using assms
proof (induction files m h arbitrary: h' m' r rule: start_handlers.induct)
  case (2 files k v m h)
  obtain h1 v1 r1 where v1: "start_handler files (h, v) = ((h1, v1), r1)" by (metis prod.exhaust)
  then have t: "handler_track v1 = handler_track v"
    by (auto simp: start_handler_def Let_def split: if_splits prod.splits outcome.splits sum.splits)
  show ?case
  proof (cases r1)
    case (Done u)
    obtain h2 m2 r2 where m2: "start_handlers files m h1 = ((h2, m2), r2)" by (metis prod.exhaust)
    with "2.IH" [OF v1 [symmetric] refl Done m2] "2.prems" v1 Done t show ?thesis by auto
  qed (use "2.prems" v1 t in auto)
qed simp

lemma well_named_tracks:
  assumes "well_named h m" and "map (\<lambda>(k, v). (k, handler_track v)) m' = map (\<lambda>(k, v). (k, handler_track v)) m"
  shows "well_named h m'"
proof -
  have "map fst m' = map fst m"
    using arg_cong [OF assms(2), of "map fst"] by (simp add: comp_def case_prod_unfold)
  moreover have "(\<lambda>(k, v). (k, handler_track v)) ` set m' = (\<lambda>(k, v). (k, handler_track v)) ` set m"
    using arg_cong [OF assms(2), of set] by simp
  moreover have "well_named h l \<longleftrightarrow> distinct (map fst l) \<and>
      (\<forall>(k, a)\<in>(\<lambda>(k, v). (k, handler_track v)) ` set l. a < length h \<and> track_name (h ! a) = k)"
    for l :: "(string \<times> session_handler) list" by (auto simp: well_named_def distinct_keys_def)
  ultimately show ?thesis using assms(1) by (metis (no_types, lifting))
qed

lemma start_handlers_view:
  assumes "start_handlers files m h = ((h', m'), r)" and "r \<noteq> Fail Terminate" and "map_of m k = Some v" and "distinct_keys m"
    and "\<forall>(k, v)\<in>set m. handler_track v < length h" and "handler_views files inet_ok mt bs r0 sid got wired (h, v)"
  shows "\<exists>v'. map_of m' k = Some v' \<and> handler_views files inet_ok mt bs r0 sid got wired (h', v')"
  using assms
proof (induction files m h arbitrary: h' m' r rule: start_handlers.induct)
  case (2 files k1 v1 m h)
  obtain h1 v2 r1 where v2: "start_handler files (h, v1) = ((h1, v2), r1)" by (metis prod.exhaust)
  have h: "list_all track_ok h" using "2.prems"(6) by (simp add: handler_views_def)
  have bound: "handler_track v1 < length h" using "2.prems"(5) by simp
  note one = foreign.start_handler_evolves [OF refl v2 h bound, where sid = sid]
  then have rest: "list_all track_ok h1" "\<forall>(k, v)\<in>set m. handler_track v < length h1"
    using "2.prems"(5) evolves_ok [of _ h h1] evolves_length [of _ h h1] by auto
  have r1: "r1 \<noteq> Fail Terminate" using "2.prems"(1,2) v2 by (cases r1) (auto split: prod.splits)
  show ?case
  proof (cases "k1 = k")
    case True
    then have v: "v = v1" using "2.prems"(3) by simp
    note here = start_handler_views [OF "2.prems"(6) [unfolded v] v2 r1]
    show ?thesis
    proof (cases r1)
      case (Done u)
      obtain h2 m2 r2 where m2: "start_handlers files m h1 = ((h2, m2), r2)" by (metis prod.exhaust)
      from foreign.start_handlers_evolves [OF refl m2 rest, where sid = sid] here
      have "handler_views files inet_ok mt bs r0 sid got wired (h2, v2)" by (blast intro: handler_views_evolves)
      with "2.prems"(1) v2 Done m2 True show ?thesis by auto
    qed (use "2.prems"(1) v2 here True in auto)
  next
    case False
    note still = handler_views_evolves [OF "2.prems"(6) conjunct1 [OF one]]
    show ?thesis
    proof (cases r1)
      case (Done u)
      obtain h2 m2 r2 where m2: "start_handlers files m h1 = ((h2, m2), r2)" by (metis prod.exhaust)
      have "r2 \<noteq> Fail Terminate" "distinct_keys m" "map_of m k = Some v"
        using "2.prems" v2 Done m2 False by (auto simp: distinct_keys_def)
      from "2.IH" [OF v2 [symmetric] refl Done m2 this(1,3,2) rest(2) still] "2.prems"(1) v2 Done m2 False
      show ?thesis by auto
    qed (use "2.prems"(1,3) v2 still False in auto)
  qed
qed simp

section \<open>Requests\<close>

lemma views_put:
  assumes "views files inet_ok mt bs r0 sid k got wired w" and "world_ok (set_heap h (w1\<lparr>sessions := umap_put sid ss (sessions w)\<rparr>))"
    and "well_named h (session_handlers ss)" and "map_of (session_handlers ss) k = Some v"
    and "handler_views files inet_ok mt bs r0 sid got' wired' (h, v)"
  shows "views files inet_ok mt bs r0 sid k got' wired' (set_heap h (w1\<lparr>sessions := umap_put sid ss (sessions w)\<rparr>))"
  using assms by (auto simp: views_def set_heap_def get_session_def update_conv')

lemma views_moves:
  assumes "views files inet_ok mt bs r0 sid k got wired w" and "world_moves (\<lambda>s. s \<noteq> sid) (foreign files sid) w w'"
  shows "views files inet_ok mt bs r0 sid k got wired w'"
proof -
  have e: "evolves (foreign files sid) (heap (lib w)) (heap (lib w'))" "get_session sid w' = get_session sid w" "world_ok w'"
    using assms(2) by (auto simp: world_moves_def)
  then show ?thesis
    using assms(1) well_named_keeps [OF _ foreign.evolves_keeps [OF e(1)]] handler_views_evolves [OF _ e(1)]
    by (auto simp: views_def)
qed

lemma handle_play_views:
  assumes "views files inet_ok mt bs r0 sid k got wired (the_world st)" and "get_header_value ''Session'' request = sid"
    and "env_files env = files" and "snd (handle_play env request st) \<noteq> Fail Terminate"
  shows "views files inet_ok mt bs r0 sid k got wired (the_world (fst (handle_play env request st)))"
proof -
  let ?w = "the_world st"
  from assms(1) obtain ss v where ss: "get_session sid ?w = Some ss" "well_named (heap (lib ?w)) (session_handlers ss)"
    "map_of (session_handlers ss) k = Some v" "handler_views files inet_ok mt bs r0 sid got wired (heap (lib ?w), v)"
    "world_ok ?w" by (auto simp: views_def)
  obtain h m r where m: "start_handlers files (session_handlers ss) (heap (lib ?w)) = ((h, m), r)" by (metis prod.exhaust)
  let ?w' = "set_heap h (?w\<lparr>sessions := umap_put sid (ss\<lparr>session_handlers := m\<rparr>) (sessions ?w)\<rparr>)"
  have play: "the_world (fst (handle_play env request st)) = ?w'" "r \<noteq> Fail Terminate"
    using assms(2-4) ss(1) m by (cases r; auto simp: handle_play_def session_start_def Let_def)+
  have "world_ok ?w'"
    using named_world.handle_play_moves [OF TrueI ss(5) TrueI, of env request] play(1) by (simp add: world_moves_def)
  moreover have bounds: "\<forall>(k, v)\<in>set (session_handlers ss). handler_track v < length (heap (lib ?w))"
    using ss(2) by (auto simp: well_named_def)
  have "keeps (heap (lib ?w)) h"
    using names.start_handlers_evolves [OF TrueI m world_ok_heap [OF ss(5)] bounds] by (simp add: keeps_def)
  then have "well_named h m"
    using well_named_keeps [OF well_named_tracks [OF ss(2) start_handlers_tracks [OF m]]] by simp
  moreover have "distinct_keys (session_handlers ss)" using ss(2) by (simp add: well_named_def)
  with start_handlers_view [OF m play(2) ss(3) _ bounds ss(4)] obtain v' where
    "map_of m k = Some v'" "handler_views files inet_ok mt bs r0 sid got wired (h, v')" by blast
  ultimately show ?thesis unfolding play(1) by (intro views_put [OF assms(1)]) simp_all
qed

lemma well_named_pause:
  "well_named h (map_values (\<lambda>v. v\<lparr>handler_active := False\<rparr>) m) \<longleftrightarrow> well_named h m"
  by (auto simp: well_named_def map_values_def distinct_keys_def comp_def case_prod_unfold)

lemma handle_pause_views:
  assumes "views files inet_ok mt bs r0 sid k got wired (the_world st)" and "get_header_value ''Session'' request = sid"
  shows "views files inet_ok mt bs r0 sid k got wired (the_world (fst (handle_pause request st)))"
proof -
  let ?w = "the_world st"
  from assms(1) obtain ss v where ss: "get_session sid ?w = Some ss" "well_named (heap (lib ?w)) (session_handlers ss)"
    "map_of (session_handlers ss) k = Some v" "handler_views files inet_ok mt bs r0 sid got wired (heap (lib ?w), v)"
    "world_ok ?w" by (auto simp: views_def)
  let ?w' = "set_heap (heap (lib ?w)) (?w\<lparr>sessions := umap_put sid (session_pause ss) (sessions ?w)\<rparr>)"
  have pause: "the_world (fst (handle_pause request st)) = ?w'"
    using assms(2) ss(1) by (simp add: handle_pause_def Let_def set_heap_def)
  have "world_ok ?w'"
    using named_world.handle_pause_moves [OF TrueI ss(5), of request] pause by (simp add: world_moves_def)
  moreover have "well_named (heap (lib ?w)) (session_handlers (session_pause ss))"
    using ss(2) by (simp add: session_pause_def well_named_pause)
  moreover have "map_of (session_handlers (session_pause ss)) k = Some (v\<lparr>handler_active := False\<rparr>)"
    using ss(3) by (simp add: session_pause_def map_values_def map_of_map)
  moreover have "handler_views files inet_ok mt bs r0 sid got wired (heap (lib ?w), v\<lparr>handler_active := False\<rparr>)"
    using ss(4) by (auto simp: handler_views_def pipeline_def fresh_handler_def)
  ultimately show ?thesis unfolding pause by (intro views_put [OF assms(1)])
qed

text \<open>SETUP of another track in the same session, whether it succeeds or not.\<close>

lemma setup_session_views:
  assumes "views files inet_ok mt bs r0 sid k got wired w" and "track \<noteq> k" and "a < length (heap (lib w))"
    and "track_name (heap (lib w) ! a) = track" and "setup_session env sid track a sp ip0 p3 p4 w = (w', r)"
  shows "views files inet_ok mt bs r0 sid k got wired w'"
proof -
  from assms(1) obtain ss v where ss: "get_session sid w = Some ss" "well_named (heap (lib w)) (session_handlers ss)"
    "map_of (session_handlers ss) k = Some v" "handler_views files inet_ok mt bs r0 sid got wired (heap (lib w), v)"
    "world_ok w" by (auto simp: views_def)
  obtain h s1 where add: "session_add_media_track (env_sys env) (env_ssrc env) (env_rtp_buf env) track a
      sp (sp + 1) ip0 p3 p4 (heap (lib w), ss) = ((h, s1), r)"
    "w' = set_heap h (w\<lparr>sessions := umap_put sid s1 (sessions w)\<rparr>)"
    using assms(5) ss(1) by (auto simp: setup_session_def session_exists_def get_session_def Let_def split: prod.splits)
  let ?t = "track_register_session (session_id ss) (heap (lib w) ! a)"
  have h: "h = (heap (lib w))[a := ?t]"
    and s1: "s1 = ss \<or> (\<exists>v'. s1 = ss\<lparr>session_handlers := umap_put track v' (session_handlers ss)\<rparr> \<and> handler_track v' = a)"
    using add(1) by (auto simp: session_add_media_track_def Let_def split: sum.splits option.splits if_splits)
  have ok: "track_ok ?t" by (rule track_register_ok [OF track_at [OF world_ok_heap [OF ss(5)] assms(3)]])
  have "world_ok w'"
    using named_world.setup_session_moves [OF TrueI assms(5) ss(5) assms(3)] by (simp add: world_moves_def)
  moreover have keep: "keeps (heap (lib w)) h"
    unfolding h by (rule keeps_update [OF world_ok_heap [OF ss(5)] ok]) (simp add: track_register_simp)
  then have named: "well_named h (session_handlers ss)" by (rule well_named_keeps [OF ss(2)])
  have at: "a < length h" "track_name (h ! a) = track"
    using keeps_length [OF keep] keeps_name [OF keep assms(3)] assms(3,4) by simp_all
  have "well_named h (session_handlers s1)" using s1 named well_named_put [OF named] at by auto
  moreover have "map_of (session_handlers s1) k = Some v" using s1 ss(3) assms(2) by (auto simp: update_conv')
  moreover have "track_name (heap (lib w) ! handler_track v) = k"
    using ss(2) map_of_SomeD [OF ss(3)] by (auto simp: well_named_def)
  then have "a \<noteq> handler_track v" using assms(2,4) by auto
  then have "handler_views files inet_ok mt bs r0 sid got wired (h, v)"
    unfolding h by (intro handler_views_elsewhere [OF ss(4) _ ok])
  ultimately show ?thesis unfolding add(2) by (intro views_put [OF assms(1)])
qed

lemma found_track_name:
  assumes "world_ok w" and "get_media_source name (lib w) = Some source" and "get_media_track track source = Some a"
  shows "track_name (heap (lib w) ! a) = track"
proof -
  have "source_ok (heap (lib w)) source"
    using assms(1,2) library_ok_source by (auto simp: world_ok_def)
  then show ?thesis using assms(3) map_of_SomeD by (fastforce simp: source_ok_def get_media_track_def)
qed

lemma views_ports: "views files inet_ok mt bs r0 sid k got wired w \<Longrightarrow> views files inet_ok mt bs r0 sid k got wired (w\<lparr>ports := pool\<rparr>)"
  by (simp add: views_def world_ok_def get_session_def)

definition other_track :: "string \<Rightarrow> rtsp_message \<Rightarrow> connection \<Rightarrow> bool" where
  "other_track k request c = (case parse_url (uri request) c of Inl e \<Rightarrow> True | Inr c' \<Rightarrow> url_track (conn_url c') \<noteq> k)"

lemma handle_setup_views:
  assumes "views files inet_ok mt bs r0 sid k got wired (the_world st)" and "request_session env request = sid"
    and "get_method request = SETUP" and "other_track k request (conn st)"
  shows "views files inet_ok mt bs r0 sid k got wired (the_world (fst (handle_setup env request st)))"
proof -
  let ?w = "the_world st"
  have ok: "world_ok ?w" using assms(1) by (simp add: views_def)
  have sid: "get_header_value ''Session'' request = [] \<Longrightarrow> generate_unique_session_id (env_seconds env) (env_random env) = sid"
    "get_header_value ''Session'' request \<noteq> [] \<Longrightarrow> get_header_value ''Session'' request = sid"
    using assms(2,3) by (simp_all add: request_session_def)
  have added: "views files inet_ok mt bs r0 sid k got wired w'"
    if "setup_session env sid' (url_track (conn_url c)) a sp ip0 p3 p4 (?w\<lparr>ports := pool\<rparr>) = (w', r)" and "sid' = sid"
      and "get_media_source name (lib ?w) = Some source" and "get_media_track (url_track (conn_url c)) source = Some a"
      and "parse_url (uri request) (conn st) = Inr c"
    for sid' c a sp ip0 p3 p4 pool w' r name source
    using setup_session_views [OF views_ports [OF assms(1), of pool] _ _ _ that(1) [unfolded that(2)]]
      found_track_in_heap [OF ok that(3,4)] found_track_name [OF ok that(3,4)] assms(4) that(5)
    by (simp add: other_track_def)
  obtain sp pool where a: "allocate_port_pair (ports ?w) = (sp, pool)" by (metis prod.exhaust)
  show ?thesis
    using assms(1) views_ports [OF assms(1), of pool] added sid
    by (auto simp: handle_setup_def Let_def a split: sum.split option.split outcome.split prod.split)
qed

text \<open>The requests in the name of the session that do not end the viewing.\<close>

definition keeps_viewing :: "string \<Rightarrow> rtsp_message \<Rightarrow> connection \<Rightarrow> bool" where
  "keeps_viewing k request c \<longleftrightarrow>
     get_method request \<noteq> TEARDOWN \<and> (get_method request = SETUP \<longrightarrow> other_track k request c)"

lemma handle_request_views:
  assumes "views files inet_ok mt bs r0 sid k got wired (the_world st)" and "request_session env request = sid"
    and "keeps_viewing k request (conn st)" and "env_files env = files" and "snd (handle_request env request st) \<noteq> Fail Terminate"
  shows "views files inet_ok mt bs r0 sid k got wired (the_world (fst (handle_request env request st)))"
proof -
  let ?st = "st\<lparr>response := set_cseq (get_cseq request) rtsp_message_new\<rparr>"
  have v: "views files inet_ok mt bs r0 sid k got wired (the_world ?st)" using assms(1) by simp
  have sid: "get_method request \<noteq> SETUP \<Longrightarrow> get_header_value ''Session'' request = sid"
    using assms(2) by (simp add: request_session_def)
  show ?thesis
  proof (cases "get_method request")
    case SETUP
    with handle_setup_views [OF v assms(2) SETUP] assms(3) show ?thesis
      by (simp add: handle_request_def keeps_viewing_def)
  next
    case PLAY
    with handle_play_views [OF v sid assms(4)] assms(5) show ?thesis by (simp add: handle_request_def)
  next
    case PAUSE
    with handle_pause_views [OF v sid] show ?thesis by (simp add: handle_request_def)
  qed (use assms(1,3) in \<open>auto simp: handle_request_def keeps_viewing_def handle_options_def handle_describe_def Let_def
      split: sum.split option.split\<close>)
qed

section \<open>Events\<close>

text \<open>
  What may happen: anything in the name of other sessions; in the name of this one the sender's
  steps, and requests that keep it viewing: no TEARDOWN, and no SETUP of the track it views, which
  would put its reading position where the producer is. The connection whose session it is stays. All
  events see the same disk, and the same \<open>inet_pton\<close>.
\<close>

fun undisturbing :: "(string \<Rightarrow> byte list option) \<Rightarrow> (string \<Rightarrow> bool) \<Rightarrow> string \<Rightarrow> string \<Rightarrow> server_event \<Rightarrow> server \<Rightarrow> bool" where
  "undisturbing files inet_ok sid k (Request c (env, incoming, n)) s \<longleftrightarrow>
     env_files env = files \<and>
     (case received_request incoming of
        None \<Rightarrow> True
      | Some request \<Rightarrow> request_session env request = sid \<longrightarrow> keeps_viewing k request (client_conn (clients s ! c)))"
| "undisturbing files inet_ok sid k (Destroy c env) s \<longleftrightarrow> conn_session_id (client_conn (clients s ! c)) \<noteq> sid"
| "undisturbing files inet_ok sid k (Sender sid' k' env) s \<longleftrightarrow> env_inet env = inet_ok"
| "undisturbing files inet_ok sid k e s \<longleftrightarrow> True"

fun undisturbed :: "(string \<Rightarrow> byte list option) \<Rightarrow> (string \<Rightarrow> bool) \<Rightarrow> string \<Rightarrow> string \<Rightarrow> server_event list \<Rightarrow> server \<Rightarrow> bool" where
  "undisturbed files inet_ok sid k [] s \<longleftrightarrow> True"
| "undisturbed files inet_ok sid k (e # es) s \<longleftrightarrow> undisturbing files inet_ok sid k e s \<and>
     (case server_exec e s of None \<Rightarrow> True | Some s' \<Rightarrow> undisturbed files inet_ok sid k es s')"

text \<open>The datagrams that the sender of handler \<open>k\<close> of session \<open>sid\<close> puts on the network in a run.\<close>

fun sent_by :: "string \<Rightarrow> string \<Rightarrow> server_event list \<Rightarrow> server \<Rightarrow> datagram list" where
  "sent_by sid k [] s = []"
| "sent_by sid k (e # es) s =
     (case server_exec e s of
        None \<Rightarrow> []
      | Some s' \<Rightarrow>
          (case e of
             Sender sid' k' env \<Rightarrow> if sid' = sid \<and> k' = k then drop (length (network s)) (network s') else []
           | _ \<Rightarrow> []) @ sent_by sid k es s')"

lemma sent_by_none: "\<forall>sid' k' env. e \<noteq> Sender sid' k' env \<Longrightarrow> sent_by sid k [e] s = []"
  by (cases e) (simp_all del: server_exec.simps split: option.split)

lemma process_received:
  "received_request incoming = None \<Longrightarrow> process [(env, incoming, n)] st = (rs, st', e) \<Longrightarrow> st' = st"
  "received_request incoming = Some request \<Longrightarrow> process [(env, incoming, n)] st = (rs, st', e) \<Longrightarrow>
     st' = fst (handle_request env request st)
     \<and> (snd (handle_request env request st) = Fail Terminate \<longrightarrow> e = Crashed Terminate)"
  by (auto simp: received_request_def Let_def split: sum.splits prod.splits outcome.splits bool.splits if_splits)

lemma request_effect:
  assumes "server_exec (Request c (env, incoming, n)) s = Some s'" and "received_request incoming = Some request"
  shows "server_world s' = the_world (fst (handle_request env request (handler_state c s)))
    \<and> snd (handle_request env request (handler_state c s)) \<noteq> Fail Terminate"
proof -
  obtain rs st e where p: "process [(env, incoming, n)] (handler_state c s) = (rs, st, e)" by (metis prod.exhaust)
  note r = process_received(2) [OF assms(2) p]
  from request_event [OF assms(1)] p have "server_world s' = the_world st" by auto
  moreover have "e \<noteq> Crashed Terminate" using assms(1) p by (auto split: if_splits)
  ultimately show ?thesis using r by auto
qed

lemma sender_step_alive: "sender_step inet_ok sid (h, v) = Done ((h', v'), ds) \<Longrightarrow> sender_thread v \<noteq> None \<and> sender_thread v' \<noteq> None"
  by (auto simp: sender_step_def split: option.splits sender.splits if_splits outcome.splits sum.splits cpp_error.splits prod.splits)

text \<open>A step of the viewer's own sender.\<close>

lemma own_sender_views:
  assumes "views files inet_ok mt bs r0 sid k got wired (server_world s)" and "playable mt r0 everything"
    and "sender_event sid k env s = Some s'" and "env_inet env = inet_ok"
  shows "\<exists>got' ds. network s' = network s @ ds \<and> views files inet_ok mt bs r0 sid k got' (wired @ ds) (server_world s')"
proof -
  let ?w = "server_world s"
  from assms(1) obtain ss v where ss: "get_session sid ?w = Some ss" "well_named (heap (lib ?w)) (session_handlers ss)"
    "map_of (session_handlers ss) k = Some v" "handler_views files inet_ok mt bs r0 sid got wired (heap (lib ?w), v)"
    "world_ok ?w" by (auto simp: views_def)
  from assms(3) obtain ss' v1 h v' ds where step: "get_session sid ?w = Some ss'" "map_of (session_handlers ss') k = Some v1"
    "sender_step (env_inet env) sid (heap (lib ?w), v1) = Done ((h, v'), ds)"
    "s' = s\<lparr>server_world := set_heap h (?w\<lparr>sessions := umap_put sid
       (ss'\<lparr>session_handlers := umap_put k v' (session_handlers ss')\<rparr>) (sessions ?w)\<rparr>), network := network s @ ds\<rparr>"
    by (rule sender_event_effect)
  then have s: "sender_step inet_ok sid (heap (lib ?w), v) = Done ((h, v'), ds)" "ss' = ss" using ss assms(4) by auto
  note alive = sender_step_alive [OF s(1)]
  then have p: "pipeline mt r0 inet_ok sid got wired (heap (lib ?w), v)"
    using ss(4) by (auto simp: handler_views_def fresh_handler_def)
  from pipeline_sender [OF p assms(2), of files] s(1) obtain got' where
    p': "pipeline mt r0 inet_ok sid got' (wired @ ds) (h, v')" "handler_track v' = handler_track v"
    by (auto simp: stream_exec_def)
  have bound: "handler_track v < length (heap (lib ?w))" using ss(4) by (simp add: handler_views_def)
  note e = names.sender_step_evolves [OF TrueI s(1) world_ok_heap [OF ss(5)] bound]
  have keep: "keeps (heap (lib ?w)) h" using e by (simp add: keeps_def)
  have "track_name (h ! handler_track v') = k" "handler_track v' < length h"
    using ss(2) map_of_SomeD [OF ss(3)] keeps_name [OF keep bound] keeps_length [OF keep] p'(2)
    by (auto simp: well_named_def)
  then have "well_named h (umap_put k v' (session_handlers ss))"
    by (intro well_named_put well_named_keeps [OF ss(2) keep])
  moreover have "handler_views files inet_ok mt bs r0 sid got' (wired @ ds) (h, v')"
    using p' alive keeps_ok [OF keep] keeps_length [OF keep] bound by (auto simp: handler_views_def pipeline_def)
  moreover have "world_ok (server_world s')"
    using named_world.server_exec_moves [of "Sender sid k env" s s'] ss(5) assms(3) by (simp add: world_moves_def)
  ultimately have "views files inet_ok mt bs r0 sid k got' (wired @ ds) (server_world s')"
    using step(4) s(2) by (simp add: views_put [OF assms(1)] update_conv')
  with step(4) show ?thesis by auto
qed

text \<open>A step of another sender of the same session, on another track.\<close>

lemma other_sender_views:
  assumes "views files inet_ok mt bs r0 sid k got wired (server_world s)"
    and "sender_event sid k' env s = Some s'" and "k' \<noteq> k"
  shows "views files inet_ok mt bs r0 sid k got wired (server_world s')"
proof -
  let ?w = "server_world s"
  from assms(1) obtain ss v where ss: "get_session sid ?w = Some ss" "well_named (heap (lib ?w)) (session_handlers ss)"
    "map_of (session_handlers ss) k = Some v" "handler_views files inet_ok mt bs r0 sid got wired (heap (lib ?w), v)"
    "world_ok ?w" by (auto simp: views_def)
  from assms(2) obtain ss' v1 h v' ds where step: "get_session sid ?w = Some ss'" "map_of (session_handlers ss') k' = Some v1"
    "sender_step (env_inet env) sid (heap (lib ?w), v1) = Done ((h, v'), ds)"
    "s' = s\<lparr>server_world := set_heap h (?w\<lparr>sessions := umap_put sid
       (ss'\<lparr>session_handlers := umap_put k' v' (session_handlers ss')\<rparr>) (sessions ?w)\<rparr>), network := network s @ ds\<rparr>"
    by (rule sender_event_effect)
  have ss': "ss' = ss" using ss(1) step(1) by simp
  have v1: "handler_track v1 < length (heap (lib ?w))" "track_name (heap (lib ?w) ! handler_track v1) = k'"
    using ss(2) map_of_SomeD [OF step(2)] ss' by (auto simp: well_named_def)
  note e = names.sender_step_evolves [OF TrueI step(3) world_ok_heap [OF ss(5)] v1(1)]
  have keep: "keeps (heap (lib ?w)) h" using e by (simp add: keeps_def)
  have "handler_track v1 \<noteq> handler_track v" using well_named_other_track [OF ss(2,3)] step(2) ss' assms(3) by simp
  moreover obtain t where "h = heap (lib ?w) \<or> h = (heap (lib ?w))[handler_track v1 := t]"
    using step(3) by (auto simp: sender_step_def split: option.splits sender.splits if_splits outcome.splits sum.splits
        cpp_error.splits prod.splits)
  ultimately have same: "h ! handler_track v = heap (lib ?w) ! handler_track v" by auto
  have "handler_views files inet_ok mt bs r0 sid got wired (h, v)"
    by (rule handler_views_foreign [OF ss(4) keeps_ok [OF keep] keeps_length [OF keep]]) (simp add: same foreign.no_call)
  moreover have "track_name (h ! handler_track v') = k'" "handler_track v' < length h"
    using v1 e keeps_name [OF keep v1(1)] keeps_length [OF keep] by auto
  then have "well_named h (umap_put k' v' (session_handlers ss))"
    by (intro well_named_put well_named_keeps [OF ss(2) keep])
  moreover have "world_ok (server_world s')"
    using named_world.server_exec_moves [of "Sender sid k' env" s s'] ss(5) assms(2) by (simp add: world_moves_def)
  ultimately show ?thesis using step(4) ss' ss(3) assms(3) by (simp add: views_put [OF assms(1)] update_conv')
qed

lemma request_views:
  assumes "views files inet_ok mt bs r0 sid k got wired (server_world s)"
    and "server_exec (Request c (env, incoming, n)) s = Some s'" and "undisturbing files inet_ok sid k (Request c (env, incoming, n)) s"
    and "received_request incoming = Some request" and "request_session env request = sid"
  shows "views files inet_ok mt bs r0 sid k got wired (server_world s')"
proof -
  have "views files inet_ok mt bs r0 sid k got wired (the_world (handler_state c s))"
    using assms(1) by (simp add: handler_state_def)
  moreover have "keeps_viewing k request (conn (handler_state c s))" "env_files env = files"
    using assms(3-5) by (simp_all add: handler_state_def)
  ultimately show ?thesis
    using handle_request_views [OF _ assms(5)] request_effect [OF assms(2,4)] by simp
qed

lemma exec_views:
  assumes "views files inet_ok mt bs r0 sid k got wired (server_world s)" and "playable mt r0 everything"
    and "undisturbing files inet_ok sid k e s" and "server_exec e s = Some s'"
  shows "\<exists>got'. views files inet_ok mt bs r0 sid k got' (wired @ sent_by sid k [e] s) (server_world s')"
proof -
  have ok: "world_ok (server_world s)" using assms(1) by (simp add: views_def)
  have others: ?thesis
    if "event_session s e \<noteq> Some sid" and "\<And>c env input. e = Request c (env, input) \<Longrightarrow> env_files env = files"
      and "sent_by sid k [e] s = []"
  proof -
    have "world_moves (\<lambda>s. s \<noteq> sid) (foreign files sid) (server_world s) (server_world s')"
      by (rule foreign.server_exec_moves [OF assms(4) _ _ ok]) (use that(1,2) in auto)
    from views_moves [OF assms(1) this] that(3) show ?thesis by auto
  qed
  show ?thesis
  proof (cases e)
    case (Request c input)
    obtain env incoming n where input: "input = (env, incoming, n)" by (cases input)
    show ?thesis
    proof (cases "event_session s e = Some sid")
      case True
      then obtain request where "received_request incoming = Some request" "request_session env request = sid"
        using Request input by auto
      from request_views [OF assms(1) _ _ this] assms(3,4) Request input show ?thesis by auto
    next
      case False
      then show ?thesis by (rule others) (use assms(3,4) Request input in auto)
    qed
  next
    case (Destroy c env)
    then show ?thesis by (intro others) (use assms(3,4) Destroy in \<open>auto simp: Let_def split: if_splits\<close>)
  next
    case (Sender sid' k' env)
    then have s': "sender_event sid' k' env s = Some s'" using assms(4) by simp
    show ?thesis
    proof (cases "sid' = sid")
      case False
      then show ?thesis by (intro others) (use assms(4) Sender in auto)
    next
      case sid: True
      show ?thesis
      proof (cases "k' = k")
        case True
        with own_sender_views [OF assms(1,2) s' [unfolded sid True]] assms(3,4) Sender sid show ?thesis by auto
      next
        case False
        with other_sender_views [OF assms(1) s' [unfolded sid] False] assms(4) Sender sid show ?thesis by auto
      qed
    qed
  qed (rule others; simp del: sent_by.simps add: sent_by_none)+
qed

lemma run_views:
  assumes "playable mt r0 everything"
  shows "views files inet_ok mt bs r0 sid k got wired (server_world s) \<Longrightarrow> undisturbed files inet_ok sid k es s \<Longrightarrow>
    server_run es s = Some s' \<Longrightarrow> \<exists>got'. views files inet_ok mt bs r0 sid k got' (wired @ sent_by sid k es s) (server_world s')"
proof (induction es arbitrary: s got wired)
  case (Cons e es)
  then obtain s1 where s1: "server_exec e s = Some s1" "server_run es s1 = Some s'" by (auto split: option.splits)
  from exec_views [OF Cons.prems(1) assms _ s1(1)] Cons.prems(2) obtain got1 where
    "views files inet_ok mt bs r0 sid k got1 (wired @ sent_by sid k [e] s) (server_world s1)" by auto
  from Cons.IH [OF this _ s1(2)] Cons.prems(2) s1(1) show ?case by auto
qed auto

section \<open>SETUP\<close>

text \<open>A SETUP of the track \<open>k\<close> at \<open>a\<close> that makes the new session \<open>sid\<close>.\<close>

definition sets_up :: "(string \<Rightarrow> bool) \<Rightarrow> server \<Rightarrow> nat \<Rightarrow> env \<Rightarrow> string option \<Rightarrow> string \<Rightarrow> string \<Rightarrow> nat \<Rightarrow> bool" where
  "sets_up inet_ok s c env incoming sid k a \<longleftrightarrow>
     (\<exists>request u n1 n2 p ps. received_request incoming = Some request \<and> setup_request request (handler_state c s) u a n1 n2
        \<and> url_track (conn_url u) = k \<and> available_ports (ports (server_world s)) = p # ps
        \<and> (\<forall>call\<in>set (handler_calls p (p + 1)). env_sys env call) \<and> length (env_rtp_buf env) = rtp_buf_size
        \<and> inet_ok (client_ip u))
     \<and> sid = generate_unique_session_id (env_seconds env) (env_random env) \<and> \<not> session_exists sid (server_world s)"

lemma sets_up_world:
  assumes "world_ok (server_world s)" and "server_exec (Request c (env, incoming, n)) s = Some s'"
    and "sets_up inet_ok s c env incoming sid k a"
  shows "\<exists>v. get_session sid (server_world s') = Some \<lparr>session_id = sid, session_handlers = [(k, v)]\<rparr>
    \<and> fresh_handler v \<and> handler_track v = a \<and> handler_ok inet_ok (handler_rtp v) \<and> rtp_sequence_number (handler_rtp v) = 0
    \<and> a < length (heap (lib (server_world s))) \<and> track_name (heap (lib (server_world s)) ! a) = k
    \<and> heap (lib (server_world s')) = registered sid a (heap (lib (server_world s))) \<and> world_ok (server_world s')"
proof -
  let ?w = "server_world s" and ?t = "heap (lib (server_world s)) ! a"
  from assms(3) obtain request u n1 n2 p ps where r: "received_request incoming = Some request"
    "setup_request request (handler_state c s) u a n1 n2" "url_track (conn_url u) = k" "available_ports (ports ?w) = p # ps"
    "\<forall>call\<in>set (handler_calls p (p + 1)). env_sys env call" "length (env_rtp_buf env) = rtp_buf_size" "inet_ok (client_ip u)"
    and sid: "sid = generate_unique_session_id (env_seconds env) (env_random env)" "\<not> session_exists sid ?w"
    by (auto simp: sets_up_def)
  have w: "the_world (handler_state c s) = ?w" by (simp add: handler_state_def)
  have find: "find_track (url_app (conn_url u)) k (lib ?w) = Some a" using r(2,3) by (simp add: setup_request_def w)
  then obtain name source where "get_media_source name (lib ?w) = Some source" "get_media_track k source = Some a"
    by (auto simp: find_track_def split: option.splits)
  then have a: "a < length (heap (lib ?w))" "track_name ?t = k"
    using found_track_in_heap [OF assms(1)] found_track_name [OF assms(1)] by auto
  define v where "v = setup_handler env k a (client_ip u) (int n1) (int n2) (track_timestamp_increment ?t)"
  have "server_world s' = the_world (after_setup env request (handler_state c s) u a n1 n2 p ps sid)"
    using setup_succeeds [OF r(2) _ sid(1) _ r(5), of ps] r(4) sid(2) request_effect [OF assms(2) r(1)] by (simp add: w)
  then have s': "server_world s' = set_heap (registered sid a (heap (lib ?w))) ((?w\<lparr>ports := \<lparr>available_ports = ps\<rparr>\<rparr>)\<lparr>sessions := umap_put sid
      \<lparr>session_id = sid, session_handlers = [(k, v)]\<rparr> (sessions ?w)\<rparr>)"
    by (simp add: after_setup_def Let_def v_def w r(3))
  have ok: "world_ok (server_world s')"
    using named_world.server_exec_moves [OF assms(2) _ _ assms(1)] by (simp add: world_moves_def)
  have v: "fresh_handler v" "handler_track v = a" "handler_ok inet_ok (handler_rtp v)" "rtp_sequence_number (handler_rtp v) = 0"
    using r(6,7) by (simp_all add: v_def setup_handler_def fresh_handler_def handler_ok_def)
  have "get_session sid (server_world s') = Some \<lparr>session_id = sid, session_handlers = [(k, v)]\<rparr>"
    "heap (lib (server_world s')) = registered sid a (heap (lib ?w))"
    by (simp_all add: s' set_heap_def get_session_def update_conv')
  with v a ok show ?thesis by blast
qed

lemma setup_event_views:
  assumes "world_ok (server_world s)" and "on_file files (heap (lib (server_world s)) ! a)"
    and "files (url (heap (lib (server_world s)) ! a)) = Some bs" and "kind (heap (lib (server_world s)) ! a) = mt"
    and "server_exec (Request c (env, incoming, n)) s = Some s'" and "sets_up inet_ok s c env incoming sid k a"
  shows "\<exists>buf before r0. length buf = MAX_FRAME_SIZE + 10 \<and> reads_to (next_frame_of mt) frame_buf (new_reader bs buf) before r0
    \<and> (\<not> is_active (heap (lib (server_world s)) ! a) \<longrightarrow> before = [])
    \<and> views files inet_ok mt bs r0 sid k [] [] (server_world s')"
proof -
  let ?w = "server_world s" and ?t = "heap (lib (server_world s)) ! a"
  from sets_up_world [OF assms(1,5,6)] obtain v where
    v: "get_session sid (server_world s') = Some \<lparr>session_id = sid, session_handlers = [(k, v)]\<rparr>"
    "fresh_handler v" "handler_track v = a" "handler_ok inet_ok (handler_rtp v)" "rtp_sequence_number (handler_rtp v) = 0"
    and a: "a < length (heap (lib ?w))" "track_name ?t = k"
    and heap: "heap (lib (server_world s')) = registered sid a (heap (lib ?w))" and ok: "world_ok (server_world s')" by blast
  from subscribes [OF assms(2,3), of sid] obtain buf before r0 where
    b: "length buf = MAX_FRAME_SIZE + 10" "reads_to (next_frame_of mt) frame_buf (new_reader bs buf) before r0"
    "subscribed files bs r0 sid (track_register_session sid ?t)" "\<not> is_active ?t \<longrightarrow> before = []"
    using assms(4) by blast
  let ?h = "heap (lib (server_world s'))"
  have ha: "?h ! a = track_register_session sid ?t" "length ?h = length (heap (lib ?w))"
    using a(1) by (simp_all add: heap registered_def)
  have "kind (?h ! a) = mt" "track_name (?h ! a) = k" using assms(4) a(2) by (simp_all add: ha track_register_simp)
  then have "handler_views files inet_ok mt bs r0 sid [] [] (?h, v)" "well_named ?h [(k, v)]"
    using v a(1) ha b(3) world_ok_heap [OF ok] by (simp_all add: handler_views_def well_named_def distinct_keys_def)
  then have "views files inet_ok mt bs r0 sid k [] [] (server_world s')" using ok v(1) by (simp add: views_def)
  with b(1,2,4) show ?thesis by blast
qed

text \<open>What is on the wire: the packets of a part of the file without a gap.\<close>

lemma views_wire:
  assumes "views files inet_ok mt bs r0 sid k got wired w" and "playable mt r0 everything"
  shows "rtp_payloads wired = concat (map (wire mt) got) \<and> prefix got everything"
proof -
  from assms(1) obtain h v where "handler_views files inet_ok mt bs r0 sid got wired (h, v)" by (auto simp: views_def)
  then show ?thesis using delivering_prefix [OF _ assms(2)] by (auto simp: handler_views_def pipeline_def)
qed

lemma viewer_wire:
  assumes "world_ok (server_world s)" and "on_file files (heap (lib (server_world s)) ! a)"
    and "files (url (heap (lib (server_world s)) ! a)) = Some bs" and "kind (heap (lib (server_world s)) ! a) = mt"
    and "\<And>buf. length buf = MAX_FRAME_SIZE + 10 \<Longrightarrow> playable mt (new_reader bs buf) everything"
    and "server_exec (Request c (env, incoming, n)) s = Some s1" and "sets_up inet_ok s c env incoming sid k a"
    and "server_run es s1 = Some s2" and "undisturbed files inet_ok sid k es s1"
  shows "\<exists>rest got. suffix rest everything \<and> (\<not> is_active (heap (lib (server_world s)) ! a) \<longrightarrow> rest = everything)
    \<and> prefix got rest \<and> rtp_payloads (sent_by sid k es s1) = concat (map (wire mt) got)"
proof -
  from setup_event_views [OF assms(1-4,6,7)] obtain buf before r0 where
    b: "length buf = MAX_FRAME_SIZE + 10" "reads_to (next_frame_of mt) frame_buf (new_reader bs buf) before r0"
    "\<not> is_active (heap (lib (server_world s)) ! a) \<longrightarrow> before = []"
    "views files inet_ok mt bs r0 sid k [] [] (server_world s1)" by blast
  from playable_rest [OF assms(5) [OF b(1)] b(2)] obtain rest where
    rest: "everything = before @ rest" "playable mt r0 rest" by blast
  from run_views [OF rest(2) b(4) assms(9,8)] obtain got where
    "views files inet_ok mt bs r0 sid k got (sent_by sid k es s1) (server_world s2)" by auto
  from views_wire [OF this rest(2)] rest(1) b(3) show ?thesis by (auto simp: suffix_def)
qed

section \<open>The server of main\<close>

lemma add_sources_on_file:
  "add_sources files buf0 es l = (l', Done ()) \<Longrightarrow> length buf0 = MAX_FRAME_SIZE + 10 \<Longrightarrow>
   list_all (\<lambda>t. on_file files t \<and> \<not> is_active t \<and> unused_track t) (heap l) \<Longrightarrow>
   list_all (\<lambda>t. on_file files t \<and> \<not> is_active t \<and> unused_track t) (heap l') \<and> (\<forall>(n, k, path, mt)\<in>set es. files path \<noteq> None)"
proof (induction files buf0 es l rule: add_sources.induct)
  case (2 files buf0 name track path mt rest l)
  let ?l1 = "if has_media_source name l then l else add_media_source name l"
  obtain l2 r where l2: "library_add_media_track files buf0 name track path mt ?l1 = (l2, r)" by (metis prod.exhaust)
  with "2.prems"(1) have r: "r = Done ()" by (cases r) (auto simp: Let_def)
  let ?t = "track_open files (new_track mt buf0 track path)"
  have "heap l2 = heap ?l1 @ [fst ?t]" "snd ?t = Done ()"
    using l2 r by (auto simp: library_add_media_track_def source_add_media_track_def new_track_def Let_def
        split: option.splits prod.splits if_splits)
  moreover have "heap ?l1 = heap l" by (simp add: add_media_source_def)
  moreover have "files path \<noteq> None" using track_open_ok [OF "2.prems"(2), of files mt track path] calculation(2) by simp
  moreover have "unused_track (fst ?t)"
    using unused_new_track [of mt buf0 track path]
    by (simp add: unused_track_def track_open_def h264_open_def aac_open_def split: media_type.split option.split)
  moreover have "\<not> is_active (fst ?t)"
    by (simp add: track_open_def h264_open_def aac_open_def new_track_simps split: media_type.split option.split)
  ultimately have "list_all (\<lambda>t. on_file files t \<and> \<not> is_active t \<and> unused_track t) (heap l2)"
    using "2.prems"(3) on_file_opened [OF "2.prems"(2)] by simp
  with "2.IH" [OF refl] "2.prems"(1,2) l2 r \<open>files path \<noteq> None\<close> show ?case by (simp add: Let_def)
qed simp

text \<open>The tracks stay on their files in any run.\<close>

lemma run_on_file:
  "server_run es s = Some s' \<Longrightarrow> \<forall>c env input. Request c (env, input) \<in> set es \<longrightarrow> env_files env = files \<Longrightarrow>
   world_ok (server_world s) \<Longrightarrow> list_all (on_file files) (heap (lib (server_world s))) \<Longrightarrow>
   world_ok (server_world s') \<and> list_all (on_file files) (heap (lib (server_world s')))"
proof (induction es arbitrary: s)
  case (Cons e es)
  then obtain s1 where s1: "server_exec e s = Some s1" "server_run es s1 = Some s'" by (auto split: option.splits)
  have "world_moves (\<lambda>_. True) (stays_on_file files) (server_world s) (server_world s1)"
    by (rule on_file.server_exec_moves [OF s1(1) TrueI _ Cons.prems(3)]) (use Cons.prems(2) in auto)
  then have "world_ok (server_world s1)" "evolves (stays_on_file files) (heap (lib (server_world s))) (heap (lib (server_world s1)))"
    by (simp_all add: world_moves_def)
  moreover from this(2) Cons.prems(4) have "list_all (on_file files) (heap (lib (server_world s1)))"
    using evolves_at evolves_length by (fastforce simp: list_all_length stays_on_file_def)
  ultimately show ?case using Cons.IH [OF s1(2)] Cons.prems(2) by (meson list.set_intros(2))
qed simp

lemma main_server_on_file:
  assumes "main_server files buf0 fd reuse_ok bind_ok listen_ok = Done s" and "length buf0 = MAX_FRAME_SIZE + 10"
  shows "world_ok (server_world s) \<and> list_all (on_file files) (heap (lib (server_world s)))"
proof -
  obtain l where l: "add_sources files buf0 main_sources empty_library = (l, Done ())"
    using assms(1) by (auto simp: main_server_def split: prod.splits outcome.splits)
  have on: "list_all (on_file files) (heap l)" "\<forall>(n, k, path, mt)\<in>set main_sources. files path \<noteq> None"
    using add_sources_on_file [OF l assms(2)] by (auto simp: empty_library_def list_all_iff)
  from main_server_initialized [OF assms(1) on(2) assms(2)] obtain l' where
    l': "library_ok l'" "initialize fd reuse_ok bind_ok listen_ok (rtsp_server 8554 4 l') = (s, Done ())" by blast
  have s: "s = (rtsp_server 8554 4 l')\<lparr>server_fd := fd, listening := True\<rparr>" using initialize_ok [OF l'(2)] by simp
  have "s = (rtsp_server 8554 4 l)\<lparr>server_fd := fd, listening := True\<rparr>"
    using assms(1) l initialize_ok [of fd reuse_ok bind_ok listen_ok 8554 4 l]
    by (auto simp: main_server_def split: prod.splits outcome.splits)
  then have "heap (lib (server_world s)) = heap l" by (simp add: rtsp_server_def)
  moreover have "world_ok (server_world s)"
    using l'(1) by (simp add: s rtsp_server_def world_ok_def)
  ultimately show ?thesis using on(1) by simp
qed

section \<open>What a viewer gets\<close>

text \<open>
  C1 (safety). The whole server, for H.264. Take any run of the server that \<open>main\<close> has set up, then
  a SETUP that makes a new session for an H.264 track, then any run in which that session is left
  standing: no TEARDOWN names it, no connection whose session it is is destroyed, and no further SETUP for
  the same track names it or draws its identifier (a SETUP for another track may). Otherwise whatever the clients send, in the name of this session (PLAY, PAUSE)
  or of others, whoever else watches, comes and goes, and in
  whatever order the threads take their steps, an RFC 6184 receiver of the datagrams that the
  session's sender puts on the wire gets NAL units of the file in order, complete, unchanged and
  without a gap, from where the producer was at the SETUP; from the first on, if the track was not active then.
  The file consists of NAL units behind start codes, each with its start code at least four bytes shorter than the 512 KiB of the
  reader's buffer, without a start code inside, its last byte not zero, its forbidden bit clear and
  its type not that of a fragment; the files do not change while the server runs, and are smaller than 2 GiB.
\<close>

theorem viewers_get_nal_units:
  assumes "main_server files buf0 fd reuse_ok bind_ok listen_ok = Done sm" and "length buf0 = MAX_FRAME_SIZE + 10"
    and "server_run es0 sm = Some s0" and "\<forall>c env input. Request c (env, input) \<in> set es0 \<longrightarrow> env_files env = files"
    and "t = heap (lib (server_world s0)) ! a" and "a < length (heap (lib (server_world s0)))"
    and "kind t = H264" and "files (url t) = Some (concat nals)"
    and "\<forall>f\<in>set nals. wf_nal f \<and> plain_nal (nal_unit f)" and "int (length (concat nals)) < 2 ^ 31"
    and "server_exec (Request c (env, incoming, n)) s0 = Some s1" and "sets_up inet_ok s0 c env incoming sid k a"
    and "server_run es s1 = Some s2" and "undisturbed files inet_ok sid k es s1"
  shows "\<exists>rest. suffix rest (delivered nals) \<and> (\<not> is_active t \<longrightarrow> rest = delivered nals)
    \<and> prefix (depacketize (rtp_payloads (sent_by sid k es s1)) []) (map nal_unit rest)"
proof -
  have ok: "world_ok (server_world s0)" and "list_all (on_file files) (heap (lib (server_world s0)))"
    using run_on_file [OF assms(3,4)] main_server_on_file [OF assms(1,2)] by auto
  with assms(5,6) have on: "on_file files t" by (simp add: list_all_length)
  have "playable H264 (new_reader (concat nals) buf) (delivered nals)" if "length buf = MAX_FRAME_SIZE + 10" for buf
    using assms(9,10) that by (intro playable_h264) auto
  from viewer_wire [OF ok on [unfolded assms(5)] assms(8) [unfolded assms(5)] assms(7) [unfolded assms(5)] this assms(11-14)]
  obtain rest got where r: "suffix rest (delivered nals)" "\<not> is_active t \<longrightarrow> rest = delivered nals"
    "prefix got rest" "rtp_payloads (sent_by sid k es s1) = concat (map (wire H264) got)" using assms(5) by auto
  have "set got \<subseteq> set nals" using set_mono_prefix [OF r(3)] set_mono_suffix [OF r(1)] set_delivered by blast
  then have "depacketize (rtp_payloads (sent_by sid k es s1)) [] = map nal_unit got"
    unfolding r(4) using assms(9) by (intro depacketize_wire) auto
  with r show ?thesis by (auto simp: map_mono_prefix)
qed

text \<open>
  The same for AAC, when nothing that the reader delivers is longer than 1018 bytes: the payloads
  without their AU headers are access units of the file (with a CRC in front where there is one),
  in order, unchanged and without a gap.
\<close>

lemma viewers_get_access_units:
  assumes "main_server files buf0 fd reuse_ok bind_ok listen_ok = Done sm" and "length buf0 = MAX_FRAME_SIZE + 10"
    and "server_run es0 sm = Some s0" and "\<forall>c env input. Request c (env, input) \<in> set es0 \<longrightarrow> env_files env = files"
    and "t = heap (lib (server_world s0)) ! a" and "a < length (heap (lib (server_world s0)))"
    and "kind t = AAC" and "files (url t) = Some (concat (map (\<lambda>(h, p). h @ p) fs))"
    and "\<forall>(h, p)\<in>set fs. adts_frame h p \<and> length (drop 7 h @ p) \<le> 1018" and "int (length (concat (map (\<lambda>(h, p). h @ p) fs))) < 2 ^ 31"
    and "server_exec (Request c (env, incoming, n)) s0 = Some s1" and "sets_up inet_ok s0 c env incoming sid k a"
    and "server_run es s1 = Some s2" and "undisturbed files inet_ok sid k es s1"
  shows "\<exists>rest. suffix rest (map unit_read fs) \<and> (\<not> is_active t \<longrightarrow> rest = map unit_read fs)
    \<and> prefix (map (drop 4) (rtp_payloads (sent_by sid k es s1))) rest"
proof -
  have ok: "world_ok (server_world s0)" and "list_all (on_file files) (heap (lib (server_world s0)))"
    using run_on_file [OF assms(3,4)] main_server_on_file [OF assms(1,2)] by auto
  with assms(5,6) have on: "on_file files t" by (simp add: list_all_length)
  note play = playable_aac [OF assms(9,10)]
  from viewer_wire [OF ok on [unfolded assms(5)] assms(8) [unfolded assms(5)] assms(7) [unfolded assms(5)] play assms(11-14)]
  obtain rest got where r: "suffix rest (map unit_read fs)" "\<not> is_active t \<longrightarrow> rest = map unit_read fs"
    "prefix got rest" "rtp_payloads (sent_by sid k es s1) = concat (map (wire AAC) got)" using assms(5) by auto
  then show ?thesis by (auto simp: access_units_wire)
qed

section \<open>Witnesses\<close>

text \<open>
  The server of \<open>main\<close> with the same three NAL units in all of its files; a client connects, sets
  up the first track of the stream fire, and plays it.
\<close>

definition demo_files :: "string \<Rightarrow> byte list option" where
  "demo_files = (\<lambda>_. Some (concat demo_nal_units))"

definition viewer_env :: env where
  "viewer_env = demo_env\<lparr>env_files := demo_files\<rparr>"

definition viewer_session :: string where
  "viewer_session = generate_unique_session_id 1680000000 42"

definition setup_text :: string where
  "setup_text = ''SETUP'' @ '' '' @ ''rtsp://h:554/fire/track0'' @ '' '' @ ''RTSP/1.0'' @ crlf @ ''CSeq: '' @ nat_to_string 7
     @ crlf @ write_headers [(''Transport'', transport_spec @ nat_to_string 4000 @ ''-'' @ nat_to_string 4001)] @ crlf"

definition play_text :: string where
  "play_text = ''PLAY'' @ '' '' @ ''rtsp://h:554/fire/track0'' @ '' '' @ ''RTSP/1.0'' @ crlf @ ''CSeq: '' @ nat_to_string 7
     @ crlf @ write_headers [(''Session'', viewer_session)] @ crlf"

lemma demo_request_parsed:
  assumes "word meth" and "wf_header (key, val)"
  shows "parse rtsp_message_new (meth @ '' '' @ ''rtsp://h:554/fire/track0'' @ '' '' @ ''RTSP/1.0'' @ crlf @ ''CSeq: '' @ nat_to_string 7
     @ crlf @ write_headers [(key, val)] @ crlf) = Inr (True, demo_request (parse_method meth) [(key, val)])"
proof -
  have words: "word ''rtsp://h:554/fire/track0''" "word ''RTSP/1.0''" by (simp_all add: word_def is_space_def)
  have "(7::nat) < 2 ^ 31" "list_all wf_header [(key, val)]" using assms(2) by simp_all
  from parse_written_request [OF assms(1) words this, of "[]"] show ?thesis
    unfolding append_Nil2 by (simp add: demo_request_def rtsp_message_new_def)
qed

text \<open>A text that fits the buffer and has no NUL is received as it is.\<close>

lemma received_text:
  assumes "parse rtsp_message_new data = Inr (True, request)" and "data \<noteq> []" and "length data \<le> 4095" and "CHR 0x00 \<notin> set data"
  shows "received_request (Some data) = Some request"
proof -
  have nul: "takeWhile (\<lambda>c. c \<noteq> CHR 0x00) data = data" using assms(4) by (auto simp: takeWhile_eq_all_conv)
  have "receive_rtsp_message (Some data) = Inr data"
    using assms(2,3) by (simp add: receive_rtsp_message_def nul)
  with assms(1) show ?thesis by (simp add: received_request_def)
qed

lemma viewer_session_digits: "viewer_session = ''1680000000000042''"
  by (simp add: viewer_session_def generate_unique_session_id_def nat_to_string.simps pad_left_def digit_char_def, code_simp)

lemma setup_text_received: "received_request (Some setup_text) = Some setup_demo"
proof (rule received_text)
  have "last (nat_to_string n) \<noteq> CHR '' ''" for n
    using nat_to_string_no [of "CHR '' ''" n] last_in_set [OF nat_to_string_nonempty, of n] by (metis not_digit_simps(3))
  then have "wf_header (''Transport'', transport_spec @ nat_to_string 4000 @ ''-'' @ nat_to_string 4001)"
    by (simp add: wf_header_def plain_def trimmed_def transport_spec_def nat_to_string_no)
  moreover have "word ''SETUP''" by (simp add: word_def is_space_def)
  moreover have "parse_method ''SETUP'' = SETUP" by (simp add: parse_method_def method_map_def less_char_def)
  ultimately show "parse rtsp_message_new setup_text = Inr (True, setup_demo)"
    using demo_request_parsed unfolding setup_text_def setup_demo_def by metis
  show "setup_text \<noteq> []" by (simp add: setup_text_def)
  have "length (nat_to_string n) \<le> 4" if "n < 10000" for n using length_nat_to_string_le [of n 4] that by simp
  from this [of 7] this [of 4000] this [of 4001] show "length setup_text \<le> 4095"
    by (simp add: setup_text_def transport_spec_def)
  show "CHR 0x00 \<notin> set setup_text"
    by (simp add: setup_text_def transport_spec_def nat_to_string_no is_digit_def less_eq_char_def)
qed

lemma play_text_received: "received_request (Some play_text) = Some (demo_request PLAY [(''Session'', viewer_session)])"
proof (rule received_text)
  have "wf_header (''Session'', viewer_session)" by (simp add: viewer_session_digits wf_header_def plain_def trimmed_def)
  moreover have "word ''PLAY''" by (simp add: word_def is_space_def)
  moreover have "parse_method ''PLAY'' = PLAY" by (simp add: parse_method_def method_map_def less_char_def)
  ultimately show "parse rtsp_message_new play_text = Inr (True, demo_request PLAY [(''Session'', viewer_session)])"
    using demo_request_parsed unfolding play_text_def by metis
  show "play_text \<noteq> []" by (simp add: play_text_def)
  show "length play_text \<le> 4095" by (simp add: play_text_def viewer_session_digits nat_to_string.simps [of 7])
  show "CHR 0x00 \<notin> set play_text" by (simp add: play_text_def viewer_session_digits nat_to_string_no is_digit_def less_eq_char_def)
qed

text \<open>A request that is answered, and does not end the connection, is an event of the server.\<close>

lemma request_runs:
  assumes "in_task c Queued s" and "serves c s \<noteq> None" and "received_request incoming = Some request"
    and "handle_request env request (handler_state c s) = (st, Done ())" and "get_method request \<noteq> TEARDOWN"
  shows "\<exists>n. server_exec (Request c (env, incoming, n)) s = Some (put_handler_state c st s)"
proof -
  obtain data where d: "receive_rtsp_message incoming = Inr data" "parse rtsp_message_new data = Inr (True, request)"
    using assms(3) by (auto simp: received_request_def split: sum.splits prod.splits bool.splits)
  have "process [(env, incoming, int (length (create_response (response st))))] (handler_state c s) =
      ([create_response (response st)], st, Open)"
    using d assms(4,5) by (simp add: Let_def send_rtsp_message_def)
  with assms(1,2) show ?thesis by (intro exI [of _ "int (length (create_response (response st)))"]) simp
qed

text \<open>The main library, and the track of the stream fire in it.\<close>

lemma demo_main:
  "\<exists>l sm a. add_sources demo_files demo_frame_buf main_sources empty_library = (l, Done ())
     \<and> sm = (rtsp_server 8554 4 l)\<lparr>server_fd := 3, listening := True\<rparr>
     \<and> main_server demo_files demo_frame_buf 3 True True True = Done sm
     \<and> find_track ''fire'' ''track0'' l = Some a \<and> a < length (heap l) \<and> kind (heap l ! a) = H264"
proof -
  have "\<forall>(n, k, path, mt)\<in>set main_sources. demo_files path \<noteq> None" by (simp add: demo_files_def case_prod_unfold)
  from main_tracks_found [OF this demo_frame_buf_length] obtain l where
    l: "add_sources demo_files demo_frame_buf main_sources empty_library = (l, Done ())"
    "\<forall>(n, k, path, mt)\<in>set main_sources. \<exists>a. find_track n k l = Some a \<and> a < length (heap l)
         \<and> kind (heap l ! a) = mt \<and> url (heap l ! a) = path \<and> track_name (heap l ! a) = k" by blast
  have "(''fire'', ''track0'', ''/home/ts/Downloads/fire.h264'', H264) \<in> set main_sources" by (simp add: main_sources_def)
  from bspec [OF l(2) this] obtain a where
    "find_track ''fire'' ''track0'' l = Some a" "a < length (heap l)" "kind (heap l ! a) = H264" by auto
  moreover have "initialize 3 True True True s = (s\<lparr>server_fd := 3, listening := True\<rparr>, Done ())" for s
    by (simp add: initialize_def)
  then have "main_server demo_files demo_frame_buf 3 True True True =
      Done ((rtsp_server 8554 4 l)\<lparr>server_fd := 3, listening := True\<rparr>)"
    unfolding main_server_def l(1) by (simp only: prod.case outcome.case)
  ultimately show ?thesis using l(1) by blast
qed

lemma session_fresh_before: "\<not> session_exists sid (server_world (rtsp_server p n l))"
  by (simp add: session_exists_def rtsp_server_def)

lemma demo_ports: "available_ports (ports (server_world (rtsp_server p n l))) = 15000 # map (\<lambda>k. 15000 + 2 * int k) [1..<501]"
proof -
  have "[0..<501] = 0 # [1..<501]" by (simp add: upt_conv_Cons)
  then show ?thesis by (simp add: rtsp_server_def new_port_pool_ports)
qed

text \<open>The client's SETUP.\<close>

lemma demo_setup:
  assumes "world_ok (server_world s)" and "in_task 0 Queued s" and "serves 0 s \<noteq> None"
    and "client_conn (clients s ! 0) = new_connection ''10.0.0.2''" and "find_track ''fire'' ''track0'' (lib (server_world s)) = Some a"
    and "available_ports (ports (server_world s)) = p # ps" and "\<not> session_exists viewer_session (server_world s)"
  shows "\<exists>n st v. server_exec (Request 0 (viewer_env, Some setup_text, n)) s = Some (put_handler_state 0 st s)
    \<and> sets_up (\<lambda>_. True) s 0 viewer_env (Some setup_text) viewer_session ''track0'' a
    \<and> get_session viewer_session (the_world st) = Some \<lparr>session_id = viewer_session, session_handlers = [(''track0'', v)]\<rparr>
    \<and> fresh_handler v \<and> handler_track v = a \<and> heap (lib (the_world st)) = registered viewer_session a (heap (lib (server_world s)))"
proof -
  let ?st = "handler_state 0 s"
  let ?u = "(new_connection ''10.0.0.2'')\<lparr>conn_url := url_of '''' '''' ''h'' ''554'' ''fire'' ''track0''\<rparr>"
  have w: "the_world ?st = server_world s" "conn ?st = new_connection ''10.0.0.2''"
    using assms(4) by (simp_all add: handler_state_def)
  have sid: "viewer_session = generate_unique_session_id (env_seconds viewer_env) (env_random viewer_env)"
    by (simp add: viewer_session_def viewer_env_def demo_env_def)
  have "uri setup_demo = ''rtsp://h:554/fire/track0''" by (simp add: setup_demo_def demo_request_def uri_def)
  then have "parse_url (uri setup_demo) (conn ?st) = Inr ?u" by (simp only: w demo_url)
  then have request: "setup_request setup_demo ?st ?u a 4000 4001"
    using assms(5) by (simp add: setup_request_def setup_demo_def demo_request_def message_defs w url_of_def)
  have sys: "\<forall>call\<in>set (handler_calls p (p + 1)). env_sys viewer_env call" by (simp add: viewer_env_def demo_env_def)
  let ?st' = "after_setup viewer_env setup_demo ?st ?u a 4000 4001 p ps viewer_session"
  note answered = setup_succeeds [OF request _ sid _ sys, unfolded w, OF assms(6,7)]
  have "get_method setup_demo \<noteq> TEARDOWN" using request by (simp add: setup_request_def)
  from request_runs [OF assms(2,3) setup_text_received answered this] obtain n where
    "server_exec (Request 0 (viewer_env, Some setup_text, n)) s = Some (put_handler_state 0 ?st' s)" by blast
  moreover have "sets_up (\<lambda>_. True) s 0 viewer_env (Some setup_text) viewer_session ''track0'' a"
    unfolding sets_up_def using setup_text_received request assms(6,7) sys sid
    by (intro conjI exI [of _ setup_demo] exI [of _ ?u] exI [of _ 4000] exI [of _ 4001] exI [of _ p] exI [of _ ps])
      (simp_all add: url_of_def, simp_all add: viewer_env_def demo_env_def)
  ultimately show ?thesis
    by (intro exI [of _ n] exI [of _ ?st'])
      (simp add: after_setup_def Let_def set_heap_def get_session_def update_conv' setup_handler_def fresh_handler_def
        url_of_def registered_def w)
qed

text \<open>PLAY of that session, a step of the producer, and a step of the sender.\<close>

lemma demo_play:
  assumes "in_task 0 Queued s" and "serves 0 s \<noteq> None"
    and "get_session viewer_session (server_world s) = Some \<lparr>session_id = viewer_session, session_handlers = [(''track0'', v)]\<rparr>"
    and "fresh_handler v" and "subscribed demo_files bs r0 viewer_session (heap (lib (server_world s)) ! handler_track v)"
    and "handler_track v < length (heap (lib (server_world s)))"
    and "\<not> is_active (heap (lib (server_world s)) ! handler_track v)"
  shows "\<exists>n s'. server_run [Request 0 (viewer_env, Some play_text, n), Producer (handler_track v),
    Sender viewer_session ''track0'' viewer_env] s = Some s'"
proof -
  let ?w = "server_world s" and ?a = "handler_track v" and ?r = "demo_request PLAY [(''Session'', viewer_session)]"
  let ?v = "v\<lparr>handler_active := True, sender_thread := Some sender.At_Test,
    handler_rtp := rtp_stop (handler_rtp v\<lparr>rtcp_send_thread := True, rtcp_receive_thread := True\<rparr>)\<rparr>"
  from start_handler_subscribed [OF assms(4,5)] obtain t where
    t: "track_start demo_files (heap (lib ?w) ! ?a) = (t, Done ())" "delivering (kind t) r0 viewer_session [] t"
    "start_handler demo_files (heap (lib ?w), v) = (((heap (lib ?w))[?a := t], ?v), Done ())" by blast
  let ?w1 = "set_heap ((heap (lib ?w))[?a := t]) (?w\<lparr>sessions := umap_put viewer_session
    \<lparr>session_id = viewer_session, session_handlers = [(''track0'', ?v)]\<rparr> (sessions ?w)\<rparr>)"
  have r: "get_method ?r = PLAY" "get_header_value ''Session'' ?r = viewer_session"
    by (simp_all add: demo_request_def message_defs)
  have "\<exists>st. handle_request viewer_env ?r (handler_state 0 s) = (st, Done ()) \<and> the_world st = ?w1"
    using assms(3) t(3) r
    by (simp add: handle_request_def handle_play_def handler_state_def session_start_def viewer_env_def Let_def update_response_def)
  then obtain st where st: "handle_request viewer_env ?r (handler_state 0 s) = (st, Done ())" "the_world st = ?w1" by blast
  have "get_method ?r \<noteq> TEARDOWN" by (simp add: r)
  from request_runs [OF assms(1,2) play_text_received st(1) this] obtain n where
    play: "server_exec (Request 0 (viewer_env, Some play_text, n)) s = Some (put_handler_state 0 st s)" by blast
  have idle: "idle_track (kind (heap (lib ?w) ! ?a)) demo_files bs (heap (lib ?w) ! ?a)"
    using assms(5,7) by (auto simp: subscribed_def delivering_def)
  have "produce_thread t = Some Looping" "is_active t" "track_ok t"
    using t(1,2) idle_track_started [OF idle] by (auto simp: started_def delivering_def)
  moreover have "\<exists>n r. next_frame_of (kind t) (track_reader t) = Inr (n, r)"
    using \<open>track_ok t\<close> h264_returns [of "track_reader t"] aac_returns [of "track_reader t"]
    by (cases "kind t") (auto simp: next_frame_of_def track_ok_def)
  ultimately obtain t' where t': "track_producer_step t = Done t'" using track_step_read by blast
  let ?s1 = "put_handler_state 0 st s"
  let ?w2 = "set_heap ((heap (lib ?w))[?a := t']) ?w1"
  have "server_exec (Producer ?a) ?s1 = Some (?s1\<lparr>server_world := ?w2\<rparr>)"
    using t' assms(6) by (simp add: producer_event_def st(2) set_heap_def)
  moreover have "\<exists>s3. server_exec (Sender viewer_session ''track0'' viewer_env) (?s1\<lparr>server_world := ?w2\<rparr>) = Some s3"
    by (simp add: sender_event_def set_heap_def get_session_def update_conv' sender_step_def)
  ultimately obtain s3 where "server_exec (Producer ?a) ?s1 = Some (?s1\<lparr>server_world := ?w2\<rparr>)"
    "server_exec (Sender viewer_session ''track0'' viewer_env) (?s1\<lparr>server_world := ?w2\<rparr>) = Some s3" by blast
  with play show ?thesis by (intro exI [of _ n] exI [of _ s3]) (simp del: server_exec.simps)
qed

text \<open>The server of \<open>main\<close>, a client's connection, its SETUP, and its PLAY with a step of each thread.\<close>

lemma demo_viewer:
  "\<exists>sm s0 s1 s2 n m a. main_server demo_files demo_frame_buf 3 True True True = Done sm
     \<and> server_run (connect_events 5) sm = Some s0 \<and> server_exec (Request 0 (viewer_env, Some setup_text, n)) s0 = Some s1
     \<and> sets_up (\<lambda>_. True) s0 0 viewer_env (Some setup_text) viewer_session ''track0'' a
     \<and> server_run [Request 0 (viewer_env, Some play_text, m), Producer a, Sender viewer_session ''track0'' viewer_env] s1 = Some s2
     \<and> a < length (heap (lib (server_world s0))) \<and> kind (heap (lib (server_world s0)) ! a) = H264
     \<and> \<not> is_active (heap (lib (server_world s0)) ! a) \<and> unused_track (heap (lib (server_world s0)) ! a)"
proof -
  obtain l sm a where l: "add_sources demo_files demo_frame_buf main_sources empty_library = (l, Done ())"
    "sm = (rtsp_server 8554 4 l)\<lparr>server_fd := 3, listening := True\<rparr>"
    "main_server demo_files demo_frame_buf 3 True True True = Done sm" "find_track ''fire'' ''track0'' l = Some a"
    "a < length (heap l)" "kind (heap l ! a) = H264" using demo_main by blast
  have "(0::int) \<le> 5" "(5::int) \<noteq> 3" by simp_all
  from demo_connected [OF l(2) this] obtain s0 where
    s0: "server_run (connect_events 5) sm = Some s0" "in_task 0 Queued s0" "serves 0 s0 = Some 0"
    "client_conn (clients s0 ! 0) = new_connection ''10.0.0.2''" "server_world s0 = server_world sm" by blast
  have w: "lib (server_world s0) = l" "\<not> session_exists viewer_session (server_world s0)"
    using session_fresh_before [of viewer_session 8554 4 l] by (simp_all add: s0(5) l(2)) (simp add: rtsp_server_def)
  have ports: "available_ports (ports (server_world s0)) = 15000 # map (\<lambda>k. 15000 + 2 * int k) [1..<501]"
    using demo_ports [of 8554 4 l] by (simp add: s0(5) l(2))
  have ok: "world_ok (server_world s0)" using main_server_on_file [OF l(3) demo_frame_buf_length] by (simp add: s0(5))
  have find: "find_track ''fire'' ''track0'' (lib (server_world s0)) = Some a" by (simp add: w(1) l(4))
  have opened: "on_file demo_files (heap l ! a)" "\<not> is_active (heap l ! a)" "unused_track (heap l ! a)"
    using add_sources_on_file [OF l(1) demo_frame_buf_length] l(5) by (simp_all add: empty_library_def list_all_length)
  obtain n st v where su: "server_exec (Request 0 (viewer_env, Some setup_text, n)) s0 = Some (put_handler_state 0 st s0)"
    "sets_up (\<lambda>_. True) s0 0 viewer_env (Some setup_text) viewer_session ''track0'' a"
    "get_session viewer_session (the_world st) = Some \<lparr>session_id = viewer_session, session_handlers = [(''track0'', v)]\<rparr>"
    "fresh_handler v" "handler_track v = a" "heap (lib (the_world st)) = registered viewer_session a (heap l)"
    using demo_setup [OF ok s0(2) _ s0(4) find ports w(2)] s0(3) by (auto simp: w(1))
  let ?s1 = "put_handler_state 0 st s0" and ?bs = "concat demo_nal_units"
  have url: "demo_files (url (heap l ! a)) = Some ?bs" by (simp add: demo_files_def)
  have track: "heap (lib (the_world st)) ! a = track_register_session viewer_session (heap l ! a)"
    "a < length (heap (lib (the_world st)))"
    using l(5) by (simp_all add: su(6) registered_def)
  obtain r0 where sub: "subscribed demo_files ?bs r0 viewer_session (track_register_session viewer_session (heap l ! a))"
    using subscribes [OF opened(1) url] by blast
  have task: "in_task 0 Queued ?s1" "serves 0 ?s1 \<noteq> None"
    using s0(2,3) by (simp_all add: in_task_def serves_def)
  obtain m s2 where s2: "server_run [Request 0 (viewer_env, Some play_text, m), Producer a,
      Sender viewer_session ''track0'' viewer_env] ?s1 = Some s2"
    using demo_play [OF task, of v ?bs r0] su(3-5) sub track opened(2) by (auto simp: track_register_simp)
  have t: "a < length (heap (lib (server_world s0)))" "kind (heap (lib (server_world s0)) ! a) = H264"
    "\<not> is_active (heap (lib (server_world s0)) ! a)" "unused_track (heap (lib (server_world s0)) ! a)"
    using l(5,6) opened(2,3) w(1) by simp_all
  show ?thesis using l(3) s0(1) su(1,2) s2 t
    by (intro exI [of _ sm] exI [of _ s0] exI [of _ ?s1] exI [of _ s2] exI [of _ n] exI [of _ m] exI [of _ a] conjI)
qed

lemma demo_connect_requests: "\<forall>c env input. Request c (env, input) \<in> set (connect_events 5) \<longrightarrow> env_files env = demo_files"
  by (simp add: connect_events_def)

lemma demo_nal_units_length: "int (length (concat demo_nal_units)) < 2 ^ 31"
  by (simp add: demo_nal_units_def)

theorem viewers_get_nal_units_witness:
  "\<exists>sm s0 s1 s2 n m a. main_server demo_files demo_frame_buf 3 True True True = Done sm
     \<and> server_run (connect_events 5) sm = Some s0
     \<and> server_exec (Request 0 (viewer_env, Some setup_text, n)) s0 = Some s1
     \<and> server_run [Request 0 (viewer_env, Some play_text, m), Producer a, Sender viewer_session ''track0'' viewer_env] s1 = Some s2
     \<and> (\<exists>rest. suffix rest (delivered demo_nal_units) \<and>
          prefix (depacketize (rtp_payloads (sent_by viewer_session ''track0''
            [Request 0 (viewer_env, Some play_text, m), Producer a, Sender viewer_session ''track0'' viewer_env] s1)) [])
            (map nal_unit rest))"
proof -
  let ?es = "\<lambda>m a. [Request 0 (viewer_env, Some play_text, m), Producer a, Sender viewer_session ''track0'' viewer_env]"
  from demo_viewer obtain sm s0 s1 s2 n m a where d: "main_server demo_files demo_frame_buf 3 True True True = Done sm"
    "server_run (connect_events 5) sm = Some s0" "server_exec (Request 0 (viewer_env, Some setup_text, n)) s0 = Some s1"
    "sets_up (\<lambda>_. True) s0 0 viewer_env (Some setup_text) viewer_session ''track0'' a" "server_run (?es m a) s1 = Some s2"
    "a < length (heap (lib (server_world s0)))" "kind (heap (lib (server_world s0)) ! a) = H264" by blast
  have "undisturbed demo_files (\<lambda>_. True) viewer_session ''track0'' (?es m a) s1"
    by (simp add: play_text_received keeps_viewing_def demo_request_def message_defs viewer_env_def demo_env_def
        del: server_exec.simps split: option.split)
  note watches = this
  have url: "demo_files (url (heap (lib (server_world s0)) ! a)) = Some (concat demo_nal_units)" by (simp add: demo_files_def)
  from viewers_get_nal_units [OF d(1) demo_frame_buf_length d(2) demo_connect_requests refl d(6,7) url demo_nal_units_ok
      demo_nal_units_length d(3-5) watches] obtain rest where "suffix rest (delivered demo_nal_units)"
    "prefix (depacketize (rtp_payloads (sent_by viewer_session ''track0'' (?es m a) s1)) []) (map nal_unit rest)"
    by (elim exE conjE)
  with d(1-3,5) show ?thesis by (intro exI conjI)
qed

end
