(* ===== verification/WholeFile.thy ===== *)
theory WholeFile
  imports Viewers
begin

text \<open>
  The other half of Viewers: that the file does arrive. A client that plays a track which nobody
  else watches gets all of it, when the threads of the server take turns from its PLAY on: the
  turns of Streaming are events of the server that are enabled, and send the same datagrams.
\<close>

section \<open>Turns of the server\<close>

definition server_turns :: "nat \<Rightarrow> nat \<Rightarrow> string \<Rightarrow> string \<Rightarrow> env \<Rightarrow> server_event list" where
  "server_turns n a sid k env = concat (replicate n [Producer a, Producer a, Sender sid k env, Sender sid k env])"

text \<open>The session has the one handler \<open>k\<close>, and \<open>(h, v)\<close> is what it works on.\<close>

definition plays :: "string \<Rightarrow> string \<Rightarrow> media_track list \<times> session_handler \<Rightarrow> server \<Rightarrow> bool" where
  "plays sid k hv s \<longleftrightarrow> heap (lib (server_world s)) = fst hv
     \<and> (\<exists>ss. get_session sid (server_world s) = Some ss \<and> map_of (session_handlers ss) k = Some (snd hv))"

lemma producer_plays:
  assumes "plays sid k (h, v) s" and "a < length h" and "track_producer_step (h ! a) = Done t"
  shows "\<exists>s'. server_exec (Producer a) s = Some s' \<and> plays sid k (h[a := t], v) s'"
  using assms by (auto simp: plays_def producer_event_def set_heap_def get_session_def Let_def)

lemma sender_plays:
  assumes "plays sid k (h, v) s" and "sender_step (env_inet env) sid (h, v) = Done ((h', v'), ds)"
  shows "\<exists>s'. server_exec (Sender sid k env) s = Some s' \<and> plays sid k (h', v') s' \<and> network s' = network s @ ds"
  using assms by (auto simp: plays_def sender_event_def set_heap_def get_session_def update_conv' Let_def)

lemma takes_turn_server:
  assumes "takes_turn (env_inet env) sid (h, v) (h', v') ds" and "handler_track v < length h" and "plays sid k (h, v) s"
  shows "\<exists>s'. plays sid k (h', v') s' \<and> (\<forall>es. server_run (server_turns 1 (handler_track v) sid k env @ es) s = server_run es s'
    \<and> sent_by sid k (server_turns 1 (handler_track v) sid k env @ es) s = ds @ sent_by sid k es s')"
proof -
  let ?a = "handler_track v"
  from assms(1) obtain t1 t2 v1 where t: "track_producer_step (h ! ?a) = Done t1" "track_producer_step t1 = Done t2"
    "sender_step (env_inet env) sid (h[?a := t2], v) = Done ((h[?a := t2], v1), [])"
    "sender_step (env_inet env) sid (h[?a := t2], v1) = Done ((h', v'), ds)" by (auto simp: takes_turn_def Let_def)
  obtain s1 where s1: "server_exec (Producer ?a) s = Some s1" "plays sid k (h[?a := t1], v) s1"
    using producer_plays [OF assms(3,2) t(1)] by blast
  obtain s2 where s2: "server_exec (Producer ?a) s1 = Some s2" "plays sid k (h[?a := t2], v) s2"
    using producer_plays [OF s1(2), of ?a t2] t(2) assms(2) by auto
  obtain s3 where s3: "server_exec (Sender sid k env) s2 = Some s3" "plays sid k (h[?a := t2], v1) s3" "network s3 = network s2"
    using sender_plays [OF s2(2) t(3)] by auto
  obtain s4 where s4: "server_exec (Sender sid k env) s3 = Some s4" "plays sid k (h', v') s4" "network s4 = network s3 @ ds"
    using sender_plays [OF s3(2) t(4)] by blast
  show ?thesis using s1(1) s2(1) s3(1,3) s4
    by (intro exI [of _ s4]) (simp add: server_turns_def del: server_exec.simps)
qed

lemma takes_turns_server:
  "takes_turns inet_ok sid n hv hv' ds \<Longrightarrow> env_inet env = inet_ok \<Longrightarrow> plays sid k hv s \<Longrightarrow>
   \<exists>s'. server_run (server_turns n (handler_track (snd hv)) sid k env) s = Some s' \<and> plays sid k hv' s'
     \<and> sent_by sid k (server_turns n (handler_track (snd hv)) sid k env) s = ds"
proof (induction arbitrary: s rule: takes_turns.induct)
  case (next_turn v h h1 v1 ds n hv ds')
  have turns: "server_turns (Suc n) a sid k env = server_turns 1 a sid k env @ server_turns n a sid k env" for a
    by (simp add: server_turns_def)
  from takes_turn_server [OF _ next_turn.hyps(1) next_turn.prems(2), of env h1 v1 ds] next_turn.hyps(2) next_turn.prems(1)
  obtain s1 where s1: "plays sid k (h1, v1) s1"
    "\<forall>es. server_run (server_turns 1 (handler_track v) sid k env @ es) s = server_run es s1
      \<and> sent_by sid k (server_turns 1 (handler_track v) sid k env @ es) s = ds @ sent_by sid k es s1" by blast
  from next_turn.IH [OF next_turn.prems(1) s1(1)] next_turn.hyps(3) s1(2) show ?case by (auto simp: turns)
qed (auto simp: server_turns_def)

section \<open>PLAY\<close>

lemma play_event:
  assumes "server_exec (Request c (env, incoming, n)) s = Some s'" and "received_request incoming = Some request"
    and "get_method request = PLAY" and "get_header_value ''Session'' request = sid"
    and "get_session sid (server_world s) = Some \<lparr>session_id = sid, session_handlers = [(k, v)]\<rparr>" and "fresh_handler v"
    and "track_start (env_files env) (heap (lib (server_world s)) ! handler_track v) = (t, Done ())"
  shows "plays sid k ((heap (lib (server_world s)))[handler_track v := t], v\<lparr>handler_active := True, sender_thread := Some sender.At_Test,
    handler_rtp := rtp_stop (handler_rtp v\<lparr>rtcp_send_thread := True, rtcp_receive_thread := True\<rparr>)\<rparr>) s'"
proof -
  have "start_handler (env_files env) (heap (lib (server_world s)), v) =
      (((heap (lib (server_world s)))[handler_track v := t], v\<lparr>handler_active := True, sender_thread := Some sender.At_Test,
        handler_rtp := rtp_stop (handler_rtp v\<lparr>rtcp_send_thread := True, rtcp_receive_thread := True\<rparr>)\<rparr>), Done ())"
    using assms(6,7) by (simp add: start_handler_def fresh_handler_def rtp_start_def Let_def)
  then show ?thesis
    using request_effect [OF assms(1,2)] assms(3-5)
    by (simp add: handle_request_def handle_play_def handler_state_def session_start_def Let_def update_response_def plays_def
        set_heap_def get_session_def update_conv')
qed

section \<open>The whole file\<close>

lemma whole_file_wire:
  assumes "world_ok (server_world s0)" and "idle_track mt files bs (heap (lib (server_world s0)) ! a)"
    and "unused_track (heap (lib (server_world s0)) ! a)"
    and "playable mt (new_reader bs (frame_buf (track_reader (heap (lib (server_world s0)) ! a)))) everything"
    and "server_exec (Request c (env, incoming, n)) s0 = Some s1" and "sets_up inet_ok s0 c env incoming sid k a"
    and "server_exec (Request c' (env', incoming', n')) s1 = Some s2" and "received_request incoming' = Some request"
    and "get_method request = PLAY" and "get_header_value ''Session'' request = sid" and "env_files env' = files"
    and "env_inet env'' = inet_ok"
  shows "\<exists>s3. server_run (server_turns (Suc (length everything)) a sid k env'') s2 = Some s3
    \<and> rtp_payloads (sent_by sid k (server_turns (Suc (length everything)) a sid k env'') s2) = concat (map (wire mt) everything)"
proof -
  let ?h = "heap (lib (server_world s0))" and ?r0 = "new_reader bs (frame_buf (track_reader (heap (lib (server_world s0)) ! a)))"
  from sets_up_world [OF assms(1,5,6)] obtain v where
    v: "get_session sid (server_world s1) = Some \<lparr>session_id = sid, session_handlers = [(k, v)]\<rparr>"
    "fresh_handler v" "handler_track v = a" "handler_ok inet_ok (handler_rtp v)" "rtp_sequence_number (handler_rtp v) = 0"
    and a: "a < length ?h" and heap: "heap (lib (server_world s1)) = registered sid a ?h" by blast
  define t where "t = fst (track_start files (track_register_session sid (?h ! a)))"
  note starts = idle_track_starts [OF assms(2), of sid, folded t_def]
  let ?v = "v\<lparr>handler_active := True, sender_thread := Some sender.At_Test,
    handler_rtp := rtp_stop (handler_rtp v\<lparr>rtcp_send_thread := True, rtcp_receive_thread := True\<rparr>)\<rparr>"
  have "track_start (env_files env') (heap (lib (server_world s1)) ! handler_track v) = (t, Done ())"
    using starts(1) a v(3) assms(11) by (simp add: heap registered_def)
  from play_event [OF assms(7-10) v(1,2) this] v(3) have play: "plays sid k (?h[a := t], ?v) s2"
    by (simp add: heap registered_def)
  have b: "between_turns sid (?h[a := t], ?v)" "track_reader (?h[a := t] ! a) = ?r0"
    using set_up_between_turns [OF assms(2,3) a, of ?v sid] v(3) by (simp_all add: t_def)
  have "list_all track_ok (?h[a := t])"
    using list_all_update [OF world_ok_heap [OF assms(1)], of t a] starts(2) by (simp add: delivering_def)
  then have p: "pipeline mt ?r0 inet_ok sid [] [] (?h[a := t], ?v)"
    using starts(2) a v by (simp add: pipeline_def rtp_stop_def handler_ok_def)
  from assms(4) obtain j where "read_frames (next_frame_of mt) frame_buf j ?r0 = Inr (everything, True)"
    by (auto simp: playable_def)
  with turns_all [OF p assms(4) b(1), of j everything] b(2) v(3) obtain hv' ds where
    t: "takes_turns inet_ok sid (Suc (length everything)) (?h[a := t], ?v) hv' ds"
    "rtp_payloads ds = concat (map (wire mt) everything)" by auto
  from takes_turns_server [OF t(1) assms(12) play] t(2) v(3) show ?thesis by auto
qed

text \<open>
  C2 (liveness). The whole file arrives, in the whole server. After any run of the server that
  \<open>main\<close> has set up, let a client set up a track of H.264 that is idle and on which nobody is
  registered, and play it. Then the turns of the producer and the sender, one more than the file has
  NAL units to deliver, can all be taken, and after them an RFC 6184 receiver of the session's
  datagrams has exactly those NAL units: complete, unchanged and in order. (Each of the file's units is,
  with its start code, at least four bytes shorter than 512 KiB, and the file smaller than 2 GiB.)
\<close>

theorem viewers_get_whole_file:
  assumes "main_server files buf0 fd reuse_ok bind_ok listen_ok = Done sm" and "length buf0 = MAX_FRAME_SIZE + 10"
    and "server_run es0 sm = Some s0" and "\<forall>c env input. Request c (env, input) \<in> set es0 \<longrightarrow> env_files env = files"
    and "t = heap (lib (server_world s0)) ! a" and "a < length (heap (lib (server_world s0)))"
    and "kind t = H264" and "\<not> is_active t" and "unused_track t" and "files (url t) = Some (concat nals)"
    and "\<forall>f\<in>set nals. wf_nal f \<and> plain_nal (nal_unit f)" and "int (length (concat nals)) < 2 ^ 31"
    and "server_exec (Request c (env, incoming, n)) s0 = Some s1" and "sets_up inet_ok s0 c env incoming sid k a"
    and "server_exec (Request c' (env', incoming', n')) s1 = Some s2" and "received_request incoming' = Some request"
    and "get_method request = PLAY" and "get_header_value ''Session'' request = sid" and "env_files env' = files"
    and "env_inet env'' = inet_ok" and "es = server_turns (Suc (length (delivered nals))) a sid k env''"
  shows "\<exists>s3. server_run es s2 = Some s3 \<and> depacketize (rtp_payloads (sent_by sid k es s2)) [] = map nal_unit (delivered nals)"
proof -
  have ok: "world_ok (server_world s0)" and "list_all (on_file files) (heap (lib (server_world s0)))"
    using run_on_file [OF assms(3,4)] main_server_on_file [OF assms(1,2)] by auto
  with assms(5,6) have "on_file files t" by (simp add: list_all_length)
  from on_file_idle [OF this assms(8,10)] assms(7) have idle: "idle_track H264 files (concat nals) t" by simp
  have "playable H264 (new_reader (concat nals) (frame_buf (track_reader t))) (delivered nals)"
    using assms(11,12) idle_track_buf [OF idle] by (intro playable_h264) auto
  from whole_file_wire [OF ok idle [unfolded assms(5)] assms(9) [unfolded assms(5)] this [unfolded assms(5)] assms(13-20)]
  obtain s3 where "server_run es s2 = Some s3" "rtp_payloads (sent_by sid k es s2) = concat (map (wire H264) (delivered nals))"
    unfolding assms(21) by blast
  moreover have "depacketize (concat (map (wire H264) (delivered nals))) [] = map nal_unit (delivered nals)"
    using assms(11) set_delivered [of nals] by (intro depacketize_wire) auto
  ultimately show ?thesis by simp
qed

section \<open>Witness\<close>

text \<open>The server of \<open>main\<close> and its client of Viewers, with one file of three NAL units.\<close>

theorem viewers_get_whole_file_witness:
  "\<exists>sm s0 s1 s2 s3 n m a. main_server demo_files demo_frame_buf 3 True True True = Done sm
     \<and> server_run (connect_events 5) sm = Some s0
     \<and> server_exec (Request 0 (viewer_env, Some setup_text, n)) s0 = Some s1
     \<and> server_exec (Request 0 (viewer_env, Some play_text, m)) s1 = Some s2
     \<and> server_run (server_turns (Suc (length (delivered demo_nal_units))) a viewer_session ''track0'' viewer_env) s2 = Some s3
     \<and> depacketize (rtp_payloads (sent_by viewer_session ''track0''
          (server_turns (Suc (length (delivered demo_nal_units))) a viewer_session ''track0'' viewer_env) s2)) [] =
        map nal_unit (delivered demo_nal_units)"
proof -
  from demo_viewer obtain sm s0 s1 s2' n m a where d: "main_server demo_files demo_frame_buf 3 True True True = Done sm"
    "server_run (connect_events 5) sm = Some s0" "server_exec (Request 0 (viewer_env, Some setup_text, n)) s0 = Some s1"
    "sets_up (\<lambda>_. True) s0 0 viewer_env (Some setup_text) viewer_session ''track0'' a"
    "server_run [Request 0 (viewer_env, Some play_text, m), Producer a, Sender viewer_session ''track0'' viewer_env] s1 = Some s2'"
    "a < length (heap (lib (server_world s0)))" "kind (heap (lib (server_world s0)) ! a) = H264"
    "\<not> is_active (heap (lib (server_world s0)) ! a)" "unused_track (heap (lib (server_world s0)) ! a)" by blast
  from d(5) obtain s2 where s2: "server_exec (Request 0 (viewer_env, Some play_text, m)) s1 = Some s2"
    by (auto simp del: server_exec.simps split: option.splits)
  have play: "get_method (demo_request PLAY [(''Session'', viewer_session)]) = PLAY"
    "get_header_value ''Session'' (demo_request PLAY [(''Session'', viewer_session)]) = viewer_session"
    by (simp_all add: demo_request_def message_defs)
  have env: "env_files viewer_env = demo_files" "env_inet viewer_env = (\<lambda>_. True)" by (simp_all add: viewer_env_def demo_env_def)
  have url: "demo_files (url (heap (lib (server_world s0)) ! a)) = Some (concat demo_nal_units)" by (simp add: demo_files_def)
  from viewers_get_whole_file [OF d(1) demo_frame_buf_length d(2) demo_connect_requests refl d(6-9) url demo_nal_units_ok
      demo_nal_units_length d(3,4) s2 play_text_received play env refl]
  show ?thesis using d(1-3) s2 by (elim exE conjE) (intro exI conjI)
qed

end
