(* ===== verification/EndOfFile.thy ===== *)
theory EndOfFile
  imports Streaming
begin

text \<open>
  What happens when the producer reaches the end of the file before the sender has caught up:
  \<open>run_producer\<close> tells the queue to exit, and \<open>consume\<close> then returns an empty item without looking
  at the queue. The producer pauses for 900000 / fps microseconds between two frames and the sender
  for 1000000 / fps, so the producer gets ahead until the queue is full, and what is in the queue
  at the end of the file is never sent.
\<close>

section \<open>After the end\<close>

text \<open>The producer has returned, and the session has not read the frames \<open>l\<close>.\<close>

definition ended :: "string \<Rightarrow> frame option list \<Rightarrow> media_track \<Rightarrow> bool" where
  "ended sid l t \<longleftrightarrow> track_ok t \<and> is_active t \<and> produce_thread t = Some Finished \<and> exit_flag (frame_queue t)
     \<and> pending (frame_queue t) sid = Some l"

text \<open>Whatever the other sessions and connections call, that is how it stays.\<close>

lemma ended_exec:
  assumes "ended sid l t" and "track_exec files c t = Done (f, t')"
    and "c \<noteq> Register sid" and "c \<noteq> Unregister sid" and "c \<noteq> Get sid"
  shows "ended sid l t'"
proof -
  have ok: "track_ok t'" using track_exec_ok [of t files c] assms(1,2) by (auto simp: ended_def)
  show ?thesis
  proof (cases c)
    case Start
    with assms(1,2) show ?thesis by (auto simp: ended_def track_exec_def track_start_is_active)
  next
    case (Register sid')
    have "cq_wf (frame_queue t)" using assms(1) by (simp add: ended_def track_ok_def)
    then have "pending (register_consumer sid' (frame_queue t)) sid = pending (frame_queue t) sid"
      using assms(3) Register by (simp add: pending_register)
    moreover have "t' = t\<lparr>frame_queue := register_consumer sid' (frame_queue t)\<rparr>"
      using assms(2) Register by (simp add: track_exec_def track_register_simp)
    moreover have "exit_flag (register_consumer sid' q) = exit_flag q" for q :: "frame option circular_queue"
      by (simp add: register_consumer_def)
    ultimately show ?thesis using assms(1) ok by (simp add: ended_def)
  next
    case (Unregister sid')
    obtain p where "map_of (consumer_positions (frame_queue t)) sid = Some p"
      using assms(1) by (auto simp: ended_def pending_def)
    then have "(sid, p) \<in> set (map_erase sid' (consumer_positions (frame_queue t)))"
      using assms(4) Unregister map_of_SomeD by (auto simp: map_erase_def)
    then have "map_erase sid' (consumer_positions (frame_queue t)) \<noteq> []" by auto
    moreover obtain t1 where t1: "track_unregister_session sid' t = Done t1"
      "map_erase sid' (consumer_positions (frame_queue t)) \<noteq> [] \<longrightarrow> t1 = t\<lparr>frame_queue := unregister_consumer sid' (frame_queue t)\<rparr>"
      using track_unregister_ok [of t sid'] assms(1) by (auto simp: ended_def)
    moreover have "t' = t1" using assms(2) Unregister t1(1) by (simp add: track_exec_def)
    ultimately have "t' = t\<lparr>frame_queue := unregister_consumer sid' (frame_queue t)\<rparr>" by simp
    moreover have "exit_flag (unregister_consumer sid' q) = exit_flag q" for q :: "frame option circular_queue"
      by (simp add: unregister_consumer_def)
    ultimately show ?thesis using assms(1,4) ok Unregister by (simp add: ended_def pending_unregister)
  next
    case (Get sid')
    let ?q = "fst (consume None sid' (frame_queue t))"
    have wf: "cq_wf (frame_queue t)" using assms(1) by (simp add: ended_def track_ok_def)
    have "t' = t\<lparr>frame_queue := ?q\<rparr>"
      using assms(2) Get by (auto simp: track_exec_def track_get_simp split: outcome.splits)
    moreover have "exit_flag ?q = exit_flag (frame_queue t)" "pending ?q sid = pending (frame_queue t) sid"
      using consume_frame [OF wf, of None sid' sid] assms(5) Get by auto
    ultimately show ?thesis using assms(1) ok by (simp add: ended_def)
  next
    case Producer_Step
    with assms(1,2) show ?thesis by (auto simp: ended_def track_exec_def track_step_end(2))
  qed
qed

text \<open>The session's sender gets nothing.\<close>

lemma ended_get:
  assumes "ended sid l t"
  shows "track_get_next_frame sid t = (t, Done None)"
proof -
  obtain p where "map_of (consumer_positions (frame_queue t)) sid = Some p"
    using assms by (auto simp: ended_def pending_def)
  with assms show ?thesis by (simp add: track_get_simp consume_def consumer_slot_def ended_def)
qed

lemma ended_stream_exec:
  assumes "list_all track_ok h" and "handler_track v < length h" and "ended sid l (h ! handler_track v)"
    and "by_others (length h) (handler_track v) sid e"
  shows "\<exists>h' v'. stream_exec files inet_ok sid e (h, v) = Done ((h', v'), []) \<and> list_all track_ok h' \<and> length h' = length h
    \<and> handler_track v' = handler_track v \<and> ended sid l (h' ! handler_track v)"
proof (cases e)
  case Sender_Step
  with assms(1-3) ended_get [OF assms(3)] show ?thesis
    by (cases "sender_thread v"; cases "the (sender_thread v)") (auto simp: stream_exec_def sender_step_def)
next
  case (Track_Call a c)
  with assms(4) have c: "a < length h" "a = handler_track v \<Longrightarrow> c \<noteq> Register sid \<and> c \<noteq> Unregister sid \<and> c \<noteq> Get sid"
    by auto
  have "track_ok (h ! a)" using assms(1) c(1) by (simp add: list_all_length)
  from track_exec_ok [OF this, of files c] obtain f t where
    t: "track_exec files c (h ! a) = Done (f, t)" "track_ok t" by blast
  have "ended sid l (h[a := t] ! handler_track v)"
    using assms(2,3) c ended_exec [of sid l "h ! a" files c f t] t(1) by (cases "a = handler_track v") auto
  then show ?thesis using Track_Call t list_all_update [OF assms(1) t(2)] by (auto simp: stream_exec_def)
next
  case Pause_Session
  with assms(1-3) show ?thesis by (auto simp: stream_exec_def)
qed

lemma ended_stream_run:
  "list_all track_ok h \<Longrightarrow> handler_track v < length h \<Longrightarrow> ended sid l (h ! handler_track v) \<Longrightarrow>
   \<forall>e\<in>set es. by_others (length h) (handler_track v) sid e \<Longrightarrow> \<exists>hv'. stream_run files inet_ok sid es (h, v) = Done (hv', [])"
proof (induction es arbitrary: h v)
  case (Cons e es)
  obtain h1 v1 where 1: "stream_exec files inet_ok sid e (h, v) = Done ((h1, v1), [])" "list_all track_ok h1"
    "length h1 = length h" "handler_track v1 = handler_track v" "ended sid l (h1 ! handler_track v)"
    using ended_stream_exec [OF Cons.prems(1-3), of e files inet_ok] Cons.prems(4) by auto
  from Cons.IH [of h1 v1] 1 Cons.prems(2,4) show ?case by auto
qed simp

section \<open>The producer gets ahead\<close>

text \<open>The producer is at its test, and the session is the track's only consumer.\<close>

definition ahead :: "string \<Rightarrow> frame option list \<Rightarrow> media_track \<Rightarrow> bool" where
  "ahead sid l t \<longleftrightarrow> track_ok t \<and> is_active t \<and> produce_thread t = Some Looping \<and> running (frame_queue t)
     \<and> pending (frame_queue t) = [sid \<mapsto> l]"

lemma ahead_frame:
  assumes "ahead sid l t" and "next_frame_of (kind t) (track_reader t) = Inr (n, r)" and "0 < n"
    and "Suc (length l) < length (buffer (frame_queue t))"
  shows "\<exists>t1 t2. track_producer_step t = Done t1 \<and> track_producer_step t1 = Done t2 \<and> kind t2 = kind t \<and> track_reader t2 = r
    \<and> ahead sid (l @ [Some (take (nat n) (frame_buf r))]) t2 \<and> length (buffer (frame_queue t2)) = length (buffer (frame_queue t))"
proof -
  let ?f = "take (nat n) (frame_buf r)" and ?q = "frame_queue t"
  have t: "track_ok t" "is_active t" "produce_thread t = Some Looping" "running ?q" "pending ?q = [sid \<mapsto> l]"
    using assms(1) by (simp_all add: ahead_def)
  define t1 where "t1 = t\<lparr>track_reader := r, produce_thread := Some (Producing ?f)\<rparr>"
  have s1: "track_producer_step t = Done t1" using track_step_read [OF t(3,2,1) assms(2)] assms(3) by (simp add: t1_def)
  have "\<nexists>s k. pending ?q s = Some k \<and> length k = length (buffer ?q) - 1"
    using t(5) assms(4) by (auto split: if_splits)
  then obtain q where q: "produce (Some ?f) ?q = (q, Done ())"
    using produce_running(1) [OF t(4), of "Some ?f"] by (cases "produce (Some ?f) ?q") auto
  define t2 where "t2 = t1\<lparr>frame_queue := q, produce_thread := Some Looping\<rparr>"
  have s2: "track_producer_step t1 = Done t2"
    using track_step_produce [of t1 ?f] q by (simp add: t1_def t2_def)
  have "track_ok t2" using track_step_ok [OF t(1)] track_step_ok [of t1] s1 s2 by auto
  moreover have "running q" using running_produce [OF t(4), of "Some ?f"] q by simp
  moreover have "pending q = [sid \<mapsto> l @ [Some ?f]]"
    using produce_running(2) [OF t(4) q] t(5) by (auto simp: fun_eq_iff)
  moreover have "length (buffer q) = length (buffer ?q)" using buffer_length(1) [of "Some ?f" ?q] q by simp
  ultimately show ?thesis using s1 s2 t(2)
    by (intro exI [of _ t1] exI [of _ t2]) (simp add: t1_def t2_def ahead_def)
qed

definition producer_alone :: "nat \<Rightarrow> nat \<Rightarrow> stream_event list" where
  "producer_alone k a = replicate (2 * k) (Track_Call a Producer_Step)"

lemma producer_stream:
  assumes "track_producer_step (h ! a) = Done t1" and "track_producer_step t1 = Done t2" and "a < length h"
  shows "stream_run files inet_ok sid (producer_alone (Suc k) a) (h, v) = stream_run files inet_ok sid (producer_alone k a) (h[a := t2], v)"
  using assms by (simp add: producer_alone_def stream_exec_def track_exec_def split: outcome.split)

lemma producer_runs_ahead:
  "reads_to (next_frame_of mt) frame_buf r fs r1 \<Longrightarrow> next_frame_of mt r1 = Inr (n, r2) \<Longrightarrow> n \<le> 0 \<Longrightarrow>
   a < length h \<Longrightarrow> ahead sid l (h ! a) \<Longrightarrow> kind (h ! a) = mt \<Longrightarrow> track_reader (h ! a) = r \<Longrightarrow>
   length l + length fs < length (buffer (frame_queue (h ! a))) \<Longrightarrow>
   \<exists>t. stream_run files inet_ok sid (producer_alone (Suc (length fs)) a) (h, v) = Done ((h[a := t], v), [])
     \<and> ended sid (l @ map Some fs) t"
proof (induction arbitrary: h l rule: reads_to.induct)
  case (none r)
  let ?t = "h ! a"
  have t: "track_ok ?t" "is_active ?t" "produce_thread ?t = Some Looping" "pending (frame_queue ?t) = [sid \<mapsto> l]"
    using none.prems(4) by (simp_all add: ahead_def)
  define t1 where "t1 = ?t\<lparr>track_reader := r2, produce_thread := Some Exiting\<rparr>"
  define t2 where "t2 = t1\<lparr>frame_queue := set_exit (frame_queue t1), produce_thread := Some Finished\<rparr>"
  have s: "track_producer_step ?t = Done t1" "track_producer_step t1 = Done t2"
    using track_step_read [OF t(3,2,1), of n r2] none.prems track_step_end(1) [of t1] by (simp_all add: t1_def t2_def)
  have "track_ok t2" using track_step_ok [OF t(1)] track_step_ok [of t1] s by auto
  then have "ended sid (l @ map Some []) t2" using t by (simp add: ended_def t1_def t2_def set_exit_def)
  moreover have "stream_run files inet_ok sid (producer_alone (Suc 0) a) (h, v) = Done ((h[a := t2], v), [])"
    using producer_stream [OF s none.prems(3), of files inet_ok sid 0 v] by (simp add: producer_alone_def)
  ultimately show ?case by auto
next
  case (one r m r1' fs r1)
  let ?t = "h ! a" and ?f = "take (nat m) (frame_buf r1')"
  have "next_frame_of (kind ?t) (track_reader ?t) = Inr (m, r1')" "Suc (length l) < length (buffer (frame_queue ?t))"
    using one.hyps(1) one.prems(5,6,7) by simp_all
  from ahead_frame [OF one.prems(4) this(1) one.hyps(2) this(2)] obtain t1 t2 where
    t: "track_producer_step ?t = Done t1" "track_producer_step t1 = Done t2" "kind t2 = kind ?t" "track_reader t2 = r1'"
    "ahead sid (l @ [Some ?f]) t2" "length (buffer (frame_queue t2)) = length (buffer (frame_queue ?t))" by blast
  have at: "h[a := t2] ! a = t2" using one.prems(3) by simp
  from one.IH [OF one.prems(1,2), of "h[a := t2]" "l @ [Some ?f]"] one.prems t(3-6) obtain t' where
    "stream_run files inet_ok sid (producer_alone (Suc (length fs)) a) (h[a := t2], v) = Done ((h[a := t2, a := t'], v), [])"
    "ended sid ((l @ [Some ?f]) @ map Some fs) t'" unfolding at by auto
  with producer_stream [OF t(1,2) one.prems(3), of files inet_ok sid "Suc (length fs)" v] show ?case by auto
qed

section \<open>The frames in the queue are lost\<close>

lemma between_turns_ahead:
  assumes "pipeline mt r0 inet_ok sid got wired (h, v)" and "between_turns sid (h, v)"
  shows "ahead sid [] (h ! handler_track v) \<and> kind (h ! handler_track v) = mt"
  using assms by (simp add: ahead_def between_turns_def pipeline_def delivering_def Let_def)

lemma wire_stops_early:
  assumes "list_all track_ok h" and "a < length h" and "idle_track mt files bs (h ! a)" and "unused_track (h ! a)"
    and "playable mt (new_reader bs (frame_buf (track_reader (h ! a)))) (before @ lost)"
    and "length lost < length (buffer (frame_queue (h ! a)))"
    and "session_add_media_track sys r buf0 track a p1 p2 ip0 p3 p4 (h, new_session sid) = ((h1, s1), Done ())"
    and "length buf0 = rtp_buf_size" and "inet_ok ip0" and "\<forall>e\<in>set es. by_others (length h) a sid e"
  shows "\<exists>h2 s2 v hv ds. session_start files (h1, s1) = ((h2, s2), Done ()) \<and> session_handlers s2 = [(track, v)]
    \<and> stream_run files inet_ok sid (turns (length before) a @ producer_alone (Suc (length lost)) a @ es) (h2, v) = Done (hv, ds)
    \<and> rtp_payloads ds = concat (map (wire mt) before)"
proof -
  let ?r0 = "new_reader bs (frame_buf (track_reader (h ! a)))"
  from set_up_and_play [OF assms(1-3,7,8), where inet_ok = inet_ok, OF assms(9)] obtain h2 v where
    h2: "h2 = h[a := fst (track_start files (track_register_session sid (h ! a)))]"
    and start: "session_start files (h1, s1) = ((h2, s1\<lparr>session_handlers := [(track, v)]\<rparr>), Done ())"
    and p: "pipeline mt ?r0 inet_ok sid [] [] (h2, v)"
    and v: "handler_track v = a" "handler_active v" "sender_thread v = Some At_Test" by blast
  from set_up_between_turns [OF assms(3,4,2) v, of sid] have
    b: "between_turns sid (h2, v)" "track_reader (h2 ! handler_track v) = ?r0" by (simp_all add: h2 v(1))
  have room: "length (buffer (frame_queue (h2 ! a))) = length (buffer (frame_queue (h ! a)))"
    using idle_track_starts(4) [OF assms(3), of sid] assms(2) by (simp add: h2)
  from assms(5) obtain k where "read_frames (next_frame_of mt) frame_buf k ?r0 = Inr (before @ lost, True)"
    by (auto simp: playable_def)
  from read_frames_reads [OF this] obtain r1 n r2 where
    r: "reads_to (next_frame_of mt) frame_buf ?r0 (before @ lost) r1" "next_frame_of mt r1 = Inr (n, r2)" "n \<le> 0" by blast
  from reads_to_append [OF r(1)] obtain rb where
    rb: "reads_to (next_frame_of mt) frame_buf ?r0 before rb" "reads_to (next_frame_of mt) frame_buf rb lost r1" by blast
  from turns_part [OF rb(1) p assms(5) b] obtain h' v' ds where
    1: "takes_turns inet_ok sid (length before) (h2, v) (h', v') ds" "pipeline mt ?r0 inet_ok sid before ds (h', v')"
    "between_turns sid (h', v')" "handler_track v' = a" "track_reader (h' ! a) = rb" "length h' = length h"
    "length (buffer (frame_queue (h' ! a))) = length (buffer (frame_queue (h ! a)))"
    using v(1) room by (auto simp: h2)
  have ahead: "ahead sid [] (h' ! a)" "kind (h' ! a) = mt" using between_turns_ahead [OF 1(2,3)] 1(4) by simp_all
  have "a < length h'" "length [] + length lost < length (buffer (frame_queue (h' ! a)))" using 1(6,7) assms(2,6) by simp_all
  from producer_runs_ahead [OF rb(2) r(2,3) this(1) ahead 1(5) this(2), of files inet_ok v'] obtain t where
    2: "stream_run files inet_ok sid (producer_alone (Suc (length lost)) a) (h', v') = Done ((h'[a := t], v'), [])"
    "ended sid (map Some lost) t" by auto
  have "list_all track_ok h'" "track_ok t" using 1(2) 2(2) by (simp_all add: pipeline_def ended_def)
  then have "list_all track_ok (h'[a := t])" by (rule list_all_update)
  from ended_stream_run [OF this, of v' sid "map Some lost" es files inet_ok] 2(2) 1(4,6) assms(2,10) obtain hv where
    3: "stream_run files inet_ok sid es (h'[a := t], v') = Done (hv, [])" by auto
  have "stream_run files inet_ok sid (turns (length before) a) (h2, v) = Done ((h', v'), ds)"
    using takes_turns_stream [OF 1(1), of files] v(1) by simp
  from stream_run_append [OF this stream_run_append [OF 2(1) 3]]
  have "stream_run files inet_ok sid (turns (length before) a @ producer_alone (Suc (length lost)) a @ es) (h2, v) = Done (hv, ds)"
    by simp
  moreover have "rtp_payloads ds = concat (map (wire mt) before)" using 1(2) by (simp add: pipeline_def)
  moreover have "session_handlers (s1\<lparr>session_handlers := [(track, v)]\<rparr>) = [(track, v)]" by simp
  ultimately show ?thesis using start by blast
qed

text \<open>
  C40 (error). The end of the file cuts the stream short. When the producer reaches it, up to a
  queueful of NAL units (24) may not have been sent yet; the producer then tells the queue to exit,
  and from that moment \<open>consume\<close> gives the session nothing, whatever is in the queue. So for
  every way to cut the file's last NAL units \<open>lost\<close> off there is a run, of the producer being ahead by
  that many, after which the client has the units before them, and never gets more, however the
  threads and the other connections go on. (The track is idle and nobody else is registered on it at the SETUP; each unit is, with its start
  code, at least four bytes shorter than 512 KiB, and the file smaller than 2 GiB.)
\<close>

theorem end_of_file_drops_frames:
  assumes "list_all track_ok h" and "a < length h" and "idle_track H264 files (concat nals) (h ! a)"
    and "unused_track (h ! a)"
    and "\<forall>f\<in>set nals. wf_nal f \<and> plain_nal (nal_unit f)" and "int (length (concat nals)) < 2 ^ 31"
    and "session_add_media_track sys r buf0 track a p1 p2 ip0 p3 p4 (h, new_session sid) = ((h1, s1), Done ())"
    and "length buf0 = rtp_buf_size" and "inet_ok ip0"
    and "delivered nals = before @ lost" and "length lost < length (buffer (frame_queue (h ! a)))"
    and "\<forall>e\<in>set es. by_others (length h) a sid e"
  shows "\<exists>h2 s2 v hv ds. session_start files (h1, s1) = ((h2, s2), Done ()) \<and> session_handlers s2 = [(track, v)]
    \<and> stream_run files inet_ok sid (turns (length before) a @ producer_alone (Suc (length lost)) a @ es) (h2, v) = Done (hv, ds)
    \<and> depacketize (rtp_payloads ds) [] = map nal_unit before"
proof -
  let ?r0 = "new_reader (concat nals) (frame_buf (track_reader (h ! a)))"
  have "playable H264 ?r0 (delivered nals)" using assms(5,6) idle_track_buf [OF assms(3)] by (intro playable_h264) auto
  from wire_stops_early [OF assms(1-4) this [unfolded assms(10)] assms(11,7,8), where inet_ok = inet_ok, OF assms(9,12)]
  obtain h2 s2 v hv ds where
    "session_start files (h1, s1) = ((h2, s2), Done ())" "session_handlers s2 = [(track, v)]"
    "stream_run files inet_ok sid (turns (length before) a @ producer_alone (Suc (length lost)) a @ es) (h2, v) = Done (hv, ds)"
    "rtp_payloads ds = concat (map (wire H264) before)" by blast
  moreover have "set before \<subseteq> set nals" using set_delivered [of nals] assms(10) by auto
  then have "depacketize (concat (map (wire H264) before)) [] = map nal_unit before"
    using assms(5) by (intro depacketize_wire) auto
  ultimately show ?thesis by auto
qed

section \<open>Witnesses\<close>

text \<open>Three NAL units, and the producer through with all of them before the sender takes its first step.\<close>

theorem end_of_file_drops_frames_witness:
  "\<exists>h1 s1 h2 s2 v hv ds.
     session_add_media_track (\<lambda>_. True) 7 (replicate rtp_buf_size 0) ''track0'' 0 6000 6001 ''10.0.0.2'' 5000 5001
       ([opened_track H264 (concat demo_nal_units)], new_session ''A'') = ((h1, s1), Done ())
     \<and> session_start (\<lambda>_. Some (concat demo_nal_units)) (h1, s1) = ((h2, s2), Done ()) \<and> session_handlers s2 = [(''track0'', v)]
     \<and> stream_run (\<lambda>_. Some (concat demo_nal_units)) (\<lambda>_. True) ''A''
         (producer_alone (Suc (length (delivered demo_nal_units))) 0 @ replicate 9 Sender_Step) (h2, v) = Done (hv, ds)
     \<and> depacketize (rtp_payloads ds) [] = [] \<and> delivered demo_nal_units \<noteq> []"
proof -
  let ?h = "[opened_track H264 (concat demo_nal_units)]"
  obtain h1 s1 where s: "session_add_media_track (\<lambda>_. True) 7 (replicate rtp_buf_size 0) ''track0'' 0 6000 6001 ''10.0.0.2''
      5000 5001 (?h, new_session ''A'') = ((h1, s1), Done ())"
    using set_up_succeeds by blast
  have len: "int (length (concat demo_nal_units)) < 2 ^ 31" "delivered demo_nal_units \<noteq> []" by (simp_all add: demo_nal_units_def)
  have "length (delivered demo_nal_units) \<le> length demo_nal_units" by (rule prefix_length_le [OF prefix_delivered])
  also have "\<dots> < length (buffer (frame_queue (?h ! 0)))"
    by (simp add: demo_nal_units_def opened_track_def track_open_def h264_open_def new_track_simps circular_queue_def)
  finally have room: "length (delivered demo_nal_units) < length (buffer (frame_queue (?h ! 0)))" .
  have "delivered demo_nal_units = [] @ delivered demo_nal_units" by simp
  from end_of_file_drops_frames [OF opened_track(1) _ opened_track(2,3) demo_nal_units_ok len(1) s _ _ this room,
      where inet_ok = "\<lambda>_. True" and es = "replicate 9 Sender_Step"] len(2) s
  show ?thesis by (fastforce simp: turns_def)
qed

end
