(* ===== verification/Pacing.thy ===== *)
theory Pacing
  imports EndOfFile
begin

text \<open>
  The two threads of a stream by the clock. \<open>run_producer\<close> sleeps for 900000 / fps microseconds after a
  frame, the sender for 1000000 / fps, and the steps themselves take no time here: so the producer
  wakes at the multiples of the first number, the sender at the multiples of the second (the producer
  first when they wake together), and the producer gets ahead by one frame in ten. The theory computes what of the file has been sent when the
  producer reaches its end and the stream is cut.
\<close>

section \<open>The pauses\<close>

definition track_media_fps :: "media_track \<Rightarrow> int" where
  "track_media_fps t = (case kind t of H264 \<Rightarrow> h264_media_fps | AAC \<Rightarrow> aac_media_fps)"

text \<open>Microseconds.\<close>

definition producer_pause :: "media_track \<Rightarrow> nat" where
  "producer_pause t = nat (900000 div track_media_fps t)"

definition sender_pause :: "media_track \<Rightarrow> nat" where
  "sender_pause t = nat (1000000 div track_media_fps t)"

lemma pauses:
  "kind t = H264 \<Longrightarrow> producer_pause t = 36000" "kind t = H264 \<Longrightarrow> sender_pause t = 40000"
  "kind t = AAC \<Longrightarrow> producer_pause t = 20930" "kind t = AAC \<Longrightarrow> sender_pause t = 23255"
  by (simp_all add: producer_pause_def sender_pause_def track_media_fps_def h264_media_fps_def aac_media_fps_def)

text \<open>
  The next \<open>n\<close> wake-ups, when the producer of the track at \<open>a\<close> wakes next at \<open>tp\<close> and the sender at
  \<open>ts\<close>. A wake-up is two steps: the producer reads a frame and puts it into the queue (or finds the
  end, and leaves); the sender tests \<open>is_active_\<close>, and gets and sends a frame.
\<close>

fun by_the_clock :: "nat \<Rightarrow> nat \<Rightarrow> nat \<Rightarrow> nat \<Rightarrow> nat \<Rightarrow> nat \<Rightarrow> stream_event list" where
  "by_the_clock P S a 0 tp ts = []"
| "by_the_clock P S a (Suc n) tp ts =
     (if tp \<le> ts then [Track_Call a Producer_Step, Track_Call a Producer_Step] @ by_the_clock P S a n (tp + P) ts
      else [Sender_Step, Sender_Step] @ by_the_clock P S a n tp (ts + S))"

lemma by_the_clock_by_others:
  "a < n \<Longrightarrow> \<forall>e\<in>set (by_the_clock P S a m tp ts). by_others n a sid e"
  by (induction m arbitrary: tp ts) auto

section \<open>One wake-up\<close>

text \<open>The sender takes the oldest frame of the queue.\<close>

lemma ahead_send:
  assumes "pipeline mt r0 inet_ok sid got wired (h, v)" and "playable mt r0 everything"
    and "ahead sid (Some f # l) (h ! handler_track v)" and "handler_active v" and "sender_thread v = Some At_Test"
  shows "\<exists>rtp ds t. stream_run files inet_ok sid [Sender_Step, Sender_Step] (h, v) =
      Done ((h[handler_track v := t], v\<lparr>sender_thread := Some At_Test, handler_rtp := rtp\<rparr>), ds)
    \<and> pipeline mt r0 inet_ok sid (got @ [f]) (wired @ ds)
        (h[handler_track v := t], v\<lparr>sender_thread := Some At_Test, handler_rtp := rtp\<rparr>)
    \<and> ahead sid l t \<and> kind t = mt \<and> track_reader t = track_reader (h ! handler_track v)
    \<and> length (buffer (frame_queue t)) = length (buffer (frame_queue (h ! handler_track v)))"
proof -
  let ?a = "handler_track v"
  define t where "t = h ! ?a"
  define q where "q = fst (consume None sid (frame_queue t))"
  define t1 where "t1 = t\<lparr>frame_queue := q\<rparr>"
  have a: "?a < length h" and d: "delivering mt r0 sid got t" using assms(1) by (auto simp: pipeline_def t_def)
  have t: "track_ok t" "is_active t" "produce_thread t = Some Looping" "running (frame_queue t)"
    "pending (frame_queue t) = [sid \<mapsto> Some f # l]" "kind t = mt"
    using assms(3) d by (simp_all add: ahead_def t_def delivering_def)
  then have get: "snd (consume None sid (frame_queue t)) = Done (Some f)" "pending q sid = Some l"
    using consume_running [OF t(4), of sid "Some f # l" None] by (simp_all add: q_def)
  have wf: "cq_wf (frame_queue t)" using t(1) by (simp add: track_ok_def)
  have q: "pending q = [sid \<mapsto> l]" "running q" "length (buffer q) = length (buffer (frame_queue t))" "exit_flag q = exit_flag (frame_queue t)"
    using consume_frame [OF wf, of None sid] running_consume [OF t(4), of None sid] get(2) t(5) buffer_length
    by (auto simp: q_def fun_eq_iff)
  have "cq_wf q" using cq_wf_consume [OF wf] by (simp add: q_def)
  then have "track_ok t1" using t(1) q(4) by (simp add: t1_def track_ok_def)
  then have ahead: "ahead sid l t1" using t q by (simp add: ahead_def t1_def)
  have "consume None sid (frame_queue t) = (q, Done (Some f))" using get(1) by (simp add: q_def prod_eq_iff)
  with delivering_get [OF d, of q "Some f"] have "delivering mt r0 sid (got @ [f]) t1" by (simp add: t1_def)
  from pipeline_send [OF assms(1,2) this] obtain rtp ds where
    rtp: "send_rtp_packet inet_ok f mt (handler_rtp v) = Inr (rtp, ds)"
    and p: "pipeline mt r0 inet_ok sid (got @ [f]) (wired @ ds) (h[?a := t1], v\<lparr>sender_thread := Some At_Test, handler_rtp := rtp\<rparr>)"
    by blast
  have "track_get_next_frame sid t = (t1, Done (Some f))" using get(1) by (simp add: track_get_simp t1_def q_def)
  then have "stream_run files inet_ok sid [Sender_Step, Sender_Step] (h, v) =
      Done ((h[?a := t1], v\<lparr>sender_thread := Some At_Test, handler_rtp := rtp\<rparr>), ds)"
    using assms(4,5) rtp t(6) by (simp add: stream_exec_def sender_step_def t_def [symmetric])
  with p ahead t(6) q(3) show ?thesis
    by (intro exI [of _ rtp] exI [of _ ds] exI [of _ t1]) (simp add: t1_def t_def)
qed

text \<open>The producer reads one frame more.\<close>

inductive_cases reads_to_ConsE: "reads_to next_frame buf r (f # fs) r1"

lemma ahead_read:
  assumes "pipeline mt r0 inet_ok sid got wired (h, v)" and "ahead sid l (h ! handler_track v)"
    and "reads_to (next_frame_of mt) frame_buf (track_reader (h ! handler_track v)) (f # fs) r1"
    and "Suc (length l) < length (buffer (frame_queue (h ! handler_track v)))"
  shows "\<exists>t. stream_run files inet_ok sid [Track_Call (handler_track v) Producer_Step, Track_Call (handler_track v) Producer_Step] (h, v) =
      Done ((h[handler_track v := t], v), [])
    \<and> pipeline mt r0 inet_ok sid got wired (h[handler_track v := t], v) \<and> ahead sid (l @ [Some f]) t
    \<and> reads_to (next_frame_of mt) frame_buf (track_reader t) fs r1
    \<and> length (buffer (frame_queue t)) = length (buffer (frame_queue (h ! handler_track v)))"
proof -
  let ?a = "handler_track v"
  have a: "?a < length h" and d: "delivering mt r0 sid got (h ! ?a)" and ok: "list_all track_ok h"
    using assms(1) by (auto simp: pipeline_def)
  from assms(3) obtain n r where r: "next_frame_of mt (track_reader (h ! ?a)) = Inr (n, r)" "0 < n" "f = take (nat n) (frame_buf r)"
    "reads_to (next_frame_of mt) frame_buf r fs r1" by (auto elim: reads_to_ConsE)
  have "next_frame_of (kind (h ! ?a)) (track_reader (h ! ?a)) = Inr (n, r)" using r(1) d by (simp add: delivering_def)
  from ahead_frame [OF assms(2) this r(2) assms(4)] obtain t1 t2 where
    t: "track_producer_step (h ! ?a) = Done t1" "track_producer_step t1 = Done t2" "track_reader t2 = r"
    "ahead sid (l @ [Some f]) t2" "length (buffer (frame_queue t2)) = length (buffer (frame_queue (h ! ?a)))"
    using r(3) by auto
  have "delivering mt r0 sid got t2" by (rule delivering_producer_step [OF delivering_producer_step [OF d t(1)] t(2)])
  moreover have "list_all track_ok (h[?a := t2])" using t(4) list_all_update [OF ok] by (simp add: ahead_def)
  ultimately have "pipeline mt r0 inet_ok sid got wired (h[?a := t2], v)" using assms(1) a by (simp add: pipeline_def)
  moreover have "stream_run files inet_ok sid [Track_Call ?a Producer_Step, Track_Call ?a Producer_Step] (h, v) =
      Done ((h[?a := t2], v), [])"
    using t(1,2) a by (simp add: stream_exec_def track_exec_def)
  ultimately show ?thesis using t r(4) by (intro exI [of _ t2]) simp
qed

section \<open>All wake-ups\<close>

text \<open>The sender's wake-ups before the time of the producer's wake-up number \<open>k\<close>: \<open>k * P / S\<close>, rounded up.\<close>

definition wake_ups_before :: "nat \<Rightarrow> nat \<Rightarrow> nat \<Rightarrow> nat" where
  "wake_ups_before P S k = (k * P + S - 1) div S"

lemma wake_ups_before_le_iff: "0 < S \<Longrightarrow> wake_ups_before P S k \<le> j \<longleftrightarrow> k * P \<le> j * S"
proof -
  assume S: "0 < S"
  have "wake_ups_before P S k \<le> j \<longleftrightarrow> k * P + S - 1 < Suc j * S"
    using S by (simp add: wake_ups_before_def flip: less_Suc_eq_le) (simp add: div_less_iff_less_mult)
  also have "\<dots> \<longleftrightarrow> k * P \<le> j * S" using S by auto
  finally show ?thesis .
qed

lemma wake_ups_before_le: "0 < S \<Longrightarrow> P \<le> S \<Longrightarrow> wake_ups_before P S k \<le> k"
  by (simp add: wake_ups_before_le_iff)

lemma clock_runs:
  assumes "playable mt r0 everything" and "next_frame_of mt r1 = Inr (m, r2)" and "m \<le> 0"
    and "0 < P" and "P \<le> S" and "\<forall>k < length everything. Suc (k - wake_ups_before P S k) < cells"
    and "\<forall>e\<in>set es. by_others tracks a sid e"
  shows "pipeline mt r0 inet_ok sid (take j everything) wired (h, v) \<Longrightarrow> j \<le> k \<Longrightarrow> k \<le> length everything \<Longrightarrow>
    handler_active v \<Longrightarrow> sender_thread v = Some At_Test \<Longrightarrow> handler_track v = a \<Longrightarrow> length h = tracks \<Longrightarrow>
    ahead sid (map Some (drop j (take k everything))) (h ! a) \<Longrightarrow>
    reads_to (next_frame_of mt) frame_buf (track_reader (h ! a)) (drop k everything) r1 \<Longrightarrow>
    length (buffer (frame_queue (h ! a))) = cells \<Longrightarrow> j = 0 \<or> (j - 1) * S < k * P \<Longrightarrow>
    length everything - k + (wake_ups_before P S (length everything) - j) < n \<Longrightarrow>
    \<exists>hv ds. stream_run files inet_ok sid (by_the_clock P S a n (k * P) (j * S) @ es) (h, v) = Done (hv, ds)
      \<and> rtp_payloads (wired @ ds) = concat (map (wire mt) (take (wake_ups_before P S (length everything)) everything))"
proof (induction n arbitrary: k j h v wired)
  case (Suc n)
  let ?N = "length everything"
  note prems = Suc.prems
  have S: "0 < S" using assms(4,5) by simp
  have a: "a < length h" and kind: "kind (h ! a) = mt" and payloads: "rtp_payloads wired = concat (map (wire mt) (take j everything))"
    using prems(1,6) by (auto simp: pipeline_def delivering_def)
  have wf: "cq_wf (frame_queue (h ! a))" using prems(8) by (simp add: ahead_def track_ok_def)
  consider "k * P \<le> j * S" "k < ?N" | "k * P \<le> j * S" "k = ?N" | "j * S < k * P" using prems(3) by linarith
  then show ?case
  proof cases
    case 1
    have "wake_ups_before P S k \<le> j" using 1(1) S by (simp add: wake_ups_before_le_iff)
    moreover have "length (drop j (take k everything)) = k - j" using prems(2,3) by simp
    ultimately have room: "Suc (length (map Some (drop j (take k everything)))) < length (buffer (frame_queue (h ! handler_track v)))"
      using assms(6) 1(2) prems(6,10) by (metis diff_le_mono2 le_less_trans length_map not_less_eq_eq)
    have "drop k everything = everything ! k # drop (Suc k) everything" using 1(2) by (rule Cons_nth_drop_Suc [symmetric])
    then have "reads_to (next_frame_of mt) frame_buf (track_reader (h ! handler_track v)) (everything ! k # drop (Suc k) everything) r1"
      using prems(6,9) by simp
    from ahead_read [OF prems(1) prems(8) [folded prems(6)] this room, of files] obtain t where
      t: "stream_run files inet_ok sid [Track_Call a Producer_Step, Track_Call a Producer_Step] (h, v) = Done ((h[a := t], v), [])"
      "pipeline mt r0 inet_ok sid (take j everything) wired (h[a := t], v)"
      "ahead sid (map Some (drop j (take k everything)) @ [Some (everything ! k)]) t"
      "reads_to (next_frame_of mt) frame_buf (track_reader t) (drop (Suc k) everything) r1"
      "length (buffer (frame_queue t)) = cells"
      using prems(6,10) by auto
    have "map Some (drop j (take k everything)) @ [Some (everything ! k)] = map Some (drop j (take (Suc k) everything))"
      using 1(2) prems(2,3) by (simp add: take_Suc_conv_app_nth)
    with t(3) have "ahead sid (map Some (drop j (take (Suc k) everything))) (h[a := t] ! a)" using a by simp
    moreover have "j = 0 \<or> (j - 1) * S < Suc k * P" using prems(11) by auto
    moreover have "?N - Suc k + (wake_ups_before P S ?N - j) < n" using prems(12) 1(2) by linarith
    ultimately obtain hv ds where
      2: "stream_run files inet_ok sid (by_the_clock P S a n (Suc k * P) (j * S) @ es) (h[a := t], v) = Done (hv, ds)"
      "rtp_payloads (wired @ ds) = concat (map (wire mt) (take (wake_ups_before P S ?N) everything))"
      using Suc.IH [OF t(2), of "Suc k"] prems(2,4-7) t(4,5) a 1(2) by auto
    have "by_the_clock P S a (Suc n) (k * P) (j * S) @ es =
        [Track_Call a Producer_Step, Track_Call a Producer_Step] @ by_the_clock P S a n (Suc k * P) (j * S) @ es"
      using 1(1) by (simp add: add.commute)
    with stream_run_append [OF t(1) 2(1)] 2(2) show ?thesis by (simp only: append_Nil) blast
  next
    case 2
    have "reads_to (next_frame_of mt) frame_buf (track_reader (h ! a)) [] r1" using prems(9) 2(2) by simp
    moreover have "length (map Some (drop j (take k everything))) + length ([] :: frame list) < length (buffer (frame_queue (h ! a)))"
      using pending_length [OF wf, of sid "map Some (drop j (take k everything))"] prems(8) by (simp add: ahead_def)
    ultimately obtain t where
      t: "stream_run files inet_ok sid (producer_alone (Suc (length ([] :: frame list))) a) (h, v) = Done ((h[a := t], v), [])"
      "ended sid (map Some (drop j (take k everything)) @ map Some []) t"
      using producer_runs_ahead [OF _ assms(2,3) a prems(8) kind refl, of "[]" files inet_ok v] by blast
    have "list_all track_ok (h[a := t])" using t(2) prems(1) list_all_update by (auto simp: pipeline_def ended_def)
    moreover have "\<forall>e\<in>set (by_the_clock P S a n (k * P + P) (j * S) @ es). by_others (length (h[a := t])) (handler_track v) sid e"
      using by_the_clock_by_others [where a = a and n = tracks and m = n and P = P and S = S and tp = "k * P + P" and ts = "j * S" and sid = sid] assms(7) prems(6,7) a by auto
    ultimately obtain hv where
      e: "stream_run files inet_ok sid (by_the_clock P S a n (k * P + P) (j * S) @ es) (h[a := t], v) = Done (hv, [])"
      using ended_stream_run [of "h[a := t]" v sid "map Some (drop j (take k everything))" "by_the_clock P S a n (k * P + P) (j * S) @ es" files inet_ok] t(2) a prems(6)
      by auto
    have "by_the_clock P S a (Suc n) (k * P) (j * S) @ es = producer_alone (Suc (length ([] :: frame list))) a @ by_the_clock P S a n (k * P + P) (j * S) @ es"
      using 2(1) by (simp add: producer_alone_def numeral_2_eq_2)
    with stream_run_append [OF t(1) e] have
      "stream_run files inet_ok sid (by_the_clock P S a (Suc n) (k * P) (j * S) @ es) (h, v) = Done (hv, [])" by simp
    moreover have "j = wake_ups_before P S ?N"
    proof (rule antisym)
      show "wake_ups_before P S ?N \<le> j" using 2 S by (simp add: wake_ups_before_le_iff)
      show "j \<le> wake_ups_before P S ?N"
      proof (rule ccontr)
        assume "\<not> j \<le> wake_ups_before P S ?N"
        then have "wake_ups_before P S ?N \<le> j - 1" "j \<noteq> 0" by auto
        with prems(11) 2(2) S show False by (simp add: wake_ups_before_le_iff)
      qed
    qed
    ultimately show ?thesis using payloads by (intro exI [of _ hv] exI [of _ "[]"]) simp
  next
    case 3
    have "j * S < k * S" using 3 assms(5) by (meson less_le_trans mult_le_mono2)
    then have j: "j < k" by simp
    have jN: "j < ?N" using j prems(3) by simp
    have "drop j (take k everything) = everything ! j # drop (Suc j) (take k everything)"
      using j prems(3) by (simp add: Cons_nth_drop_Suc [symmetric])
    then have "ahead sid (Some (everything ! j) # map Some (drop (Suc j) (take k everything))) (h ! handler_track v)"
      using prems(6,8) by simp
    from ahead_send [OF prems(1) assms(1) this prems(4,5), of files] obtain rtp ds t where
      t: "stream_run files inet_ok sid [Sender_Step, Sender_Step] (h, v) =
        Done ((h[a := t], v\<lparr>sender_thread := Some At_Test, handler_rtp := rtp\<rparr>), ds)"
      "pipeline mt r0 inet_ok sid (take j everything @ [everything ! j]) (wired @ ds)
        (h[a := t], v\<lparr>sender_thread := Some At_Test, handler_rtp := rtp\<rparr>)"
      "ahead sid (map Some (drop (Suc j) (take k everything))) t" "track_reader t = track_reader (h ! a)"
      "length (buffer (frame_queue t)) = cells"
      using prems(6,10) by auto
    have "take j everything @ [everything ! j] = take (Suc j) everything" using jN by (simp add: take_Suc_conv_app_nth)
    moreover have "wake_ups_before P S k > j" using wake_ups_before_le_iff [OF S, of P k j] 3 by linarith
    moreover have "wake_ups_before P S k \<le> wake_ups_before P S ?N"
      using prems(3) by (simp add: wake_ups_before_def div_le_mono diff_le_mono)
    then have "?N - k + (wake_ups_before P S ?N - Suc j) < n" using prems(12) \<open>wake_ups_before P S k > j\<close> by linarith
    ultimately obtain hv ds' where
      2: "stream_run files inet_ok sid (by_the_clock P S a n (k * P) (Suc j * S) @ es)
        (h[a := t], v\<lparr>sender_thread := Some At_Test, handler_rtp := rtp\<rparr>) = Done (hv, ds')"
      "rtp_payloads ((wired @ ds) @ ds') = concat (map (wire mt) (take (wake_ups_before P S ?N) everything))"
      using Suc.IH [of "Suc j" "wired @ ds" "h[a := t]" "v\<lparr>sender_thread := Some At_Test, handler_rtp := rtp\<rparr>" k]
        t prems(3,4,6,7,9,12) j a 3 by auto
    have "by_the_clock P S a (Suc n) (k * P) (j * S) @ es =
        [Sender_Step, Sender_Step] @ by_the_clock P S a n (k * P) (Suc j * S) @ es"
      using 3 by (simp add: add.commute)
    with stream_run_append [OF t(1) 2(1)] 2(2) show ?thesis by (metis append_assoc)
  qed
qed simp

lemma wake_ups_before_h264: "wake_ups_before 36000 40000 k = (9 * k + 9) div 10"
proof -
  have "wake_ups_before 36000 40000 k = (4000 * (9 * k) + 39999) div 4000 div 10"
    by (simp add: wake_ups_before_def flip: div_mult2_eq)
  also have "(4000 * (9 * k) + 39999) div 4000 = 9 * k + 9" by simp
  finally show ?thesis .
qed

text \<open>
  C3 (bounds). One frame in ten is never sent. A session alone on an idle H.264 track, its threads waking by
  the clock with the pauses of the code (36 and 40 milliseconds), gets the first nine tenths of the
  NAL units that the reader delivers, rounded up, whole and in order, and no more, whatever
  happens after the end: the producer gets ahead by one frame in ten, and when it reaches the
  end of the file, what it is ahead by is dropped with the queue. (For files of up to 240 NAL
  units, 10 for each cell of the queue but one, which is when the queue is full for the first time;
  each unit is, with its start code, at least four bytes shorter than 512 KiB.)
\<close>

theorem clock_cuts_stream:
  assumes "list_all track_ok h" and "a < length h" and "idle_track H264 files (concat nals) (h ! a)"
    and "unused_track (h ! a)"
    and "\<forall>f\<in>set nals. wf_nal f \<and> plain_nal (nal_unit f)" and "int (length (concat nals)) < 2 ^ 31"
    and "session_add_media_track sys r buf0 track a p1 p2 ip0 p3 p4 (h, new_session sid) = ((h1, s1), Done ())"
    and "length buf0 = rtp_buf_size" and "inet_ok ip0"
    and "length (delivered nals) \<le> 10 * (length (buffer (frame_queue (h ! a))) - 1)"
    and "2 * length (delivered nals) < n" and "\<forall>e\<in>set es. by_others (length h) a sid e"
  shows "\<exists>h2 s2 v hv ds. session_start files (h1, s1) = ((h2, s2), Done ()) \<and> session_handlers s2 = [(track, v)]
    \<and> stream_run files inet_ok sid (by_the_clock (producer_pause (h ! a)) (sender_pause (h ! a)) a n 0 0 @ es) (h2, v) = Done (hv, ds)
    \<and> depacketize (rtp_payloads ds) [] = map nal_unit (take ((9 * length (delivered nals) + 9) div 10) (delivered nals))"
proof -
  let ?N = "length (delivered nals)" and ?cells = "length (buffer (frame_queue (h ! a)))"
  let ?r0 = "new_reader (concat nals) (frame_buf (track_reader (h ! a)))"
  have play: "playable H264 ?r0 (delivered nals)" using assms(5,6) idle_track_buf [OF assms(3)] by (intro playable_h264) auto
  from set_up_and_play [OF assms(1-3,7,8), where inet_ok = inet_ok, OF assms(9)] obtain h2 v where
    h2: "h2 = h[a := fst (track_start files (track_register_session sid (h ! a)))]"
    and start: "session_start files (h1, s1) = ((h2, s1\<lparr>session_handlers := [(track, v)]\<rparr>), Done ())"
    and p: "pipeline H264 ?r0 inet_ok sid [] [] (h2, v)"
    and v: "handler_track v = a" "handler_active v" "sender_thread v = Some At_Test" by blast
  from set_up_between_turns [OF assms(3,4,2) v, of sid] have
    b: "between_turns sid (h2, v)" "track_reader (h2 ! a) = ?r0" by (simp_all add: h2)
  have cells: "length (buffer (frame_queue (h2 ! a))) = ?cells"
    using idle_track_starts(4) [OF assms(3), of sid] assms(2) by (simp add: h2)
  have ahead: "ahead sid (map Some (drop 0 (take 0 (delivered nals)))) (h2 ! a)"
    using between_turns_ahead [OF p b(1)] v(1) by simp
  from play obtain k where "read_frames (next_frame_of H264) frame_buf k ?r0 = Inr (delivered nals, True)"
    by (auto simp: playable_def)
  from read_frames_reads [OF this] obtain r1 m r2 where
    r: "reads_to (next_frame_of H264) frame_buf ?r0 (delivered nals) r1" "next_frame_of H264 r1 = Inr (m, r2)" "m \<le> 0" by blast
  have room: "\<forall>k < ?N. Suc (k - wake_ups_before 36000 40000 k) < ?cells"
    using assms(10) by (auto simp: wake_ups_before_h264)
  have "wake_ups_before 36000 40000 ?N \<le> ?N" by (rule wake_ups_before_le) simp_all
  then have "?N - 0 + (wake_ups_before 36000 40000 ?N - 0) < n" using assms(11) by linarith
  with clock_runs [OF play r(2,3) _ _ room assms(12), where v = v and h = h2 and j = 0 and k = 0 and wired = "[]"
      and inet_ok = inet_ok and files = files and n = n] p v ahead b(2) r(1) cells
  obtain hv ds where
    run: "stream_run files inet_ok sid (by_the_clock 36000 40000 a n 0 0 @ es) (h2, v) = Done (hv, ds)"
      "rtp_payloads ds = concat (map (wire H264) (take ((9 * ?N + 9) div 10) (delivered nals)))"
    by (auto simp: wake_ups_before_h264 h2)
  have "set (take ((9 * ?N + 9) div 10) (delivered nals)) \<subseteq> set nals"
    using set_take_subset [of "(9 * ?N + 9) div 10" "delivered nals"] set_delivered [of nals] by blast
  then have "depacketize (concat (map (wire H264) (take ((9 * ?N + 9) div 10) (delivered nals)))) [] =
      map nal_unit (take ((9 * ?N + 9) div 10) (delivered nals))"
    using assms(5) by (intro depacketize_wire) auto
  moreover have "producer_pause (h ! a) = 36000" "sender_pause (h ! a) = 40000"
    using assms(3) by (simp_all add: pauses idle_track_def)
  moreover have "session_handlers (s1\<lparr>session_handlers := [(track, v)]\<rparr>) = [(track, v)]" by simp
  ultimately show ?thesis using start run by metis
qed

section \<open>Witness\<close>

text \<open>
  Nine small NAL units and two of 400 kilobytes: the reader delivers all but the last, ten units,
  and the client gets nine of them.
\<close>

lemma filler_unit_ok:
  assumes "n + 8 \<le> MAX_FRAME_SIZE"
  shows "wf_nal (filler_unit n) \<and> plain_nal (nal_unit (filler_unit n))"
proof -
  have "nal_unit (filler_unit n) = replicate (Suc n) 0x41"
    unfolding filler_unit_def by (rule nal_unit_start_code) (simp add: start_codes_def)
  with filler_unit_wf [OF assms] show ?thesis by (simp add: plain_nal_def bit_simps)
qed

definition long_file :: "byte list list" where
  "long_file = replicate 9 (filler_unit 0) @ [filler_unit 400000, filler_unit 400000]"

lemma delivered_two_long:
  assumes "MAX_FRAME_SIZE \<le> 2 * length b"
  shows "delivered (replicate n s @ [b, b]) = replicate n s @ [b]"
proof (induction n)
  case (Suc n)
  obtain g gs where g: "replicate n s @ [b, b] = g # gs" by (cases "replicate n s @ [b, b]") auto
  have "MAX_FRAME_SIZE \<le> length (concat (replicate n s @ [b, b]))" using assms by simp
  with Suc.IH g show ?case by simp
qed simp

lemma long_file:
  "\<forall>f\<in>set long_file. wf_nal f \<and> plain_nal (nal_unit f)" "int (length (concat long_file)) < 2 ^ 31"
  "delivered long_file = replicate 9 (filler_unit 0) @ [filler_unit 400000]"
proof -
  show "\<forall>f\<in>set long_file. wf_nal f \<and> plain_nal (nal_unit f)"
    using filler_unit_ok [of 0] filler_unit_ok [of 400000] by (auto simp: long_file_def MAX_FRAME_SIZE_def)
  show "int (length (concat long_file)) < 2 ^ 31"
    by (simp add: long_file_def length_concat sum_list_replicate)
  show "delivered long_file = replicate 9 (filler_unit 0) @ [filler_unit 400000]"
    unfolding long_file_def by (rule delivered_two_long) (simp add: MAX_FRAME_SIZE_def)
qed

theorem clock_cuts_stream_witness:
  "\<exists>h1 s1 h2 s2 v hv ds.
     session_add_media_track (\<lambda>_. True) 7 (replicate rtp_buf_size 0) ''track0'' 0 6000 6001 ''10.0.0.2'' 5000 5001
       ([opened_track H264 (concat long_file)], new_session ''A'') = ((h1, s1), Done ())
     \<and> session_start (\<lambda>_. Some (concat long_file)) (h1, s1) = ((h2, s2), Done ()) \<and> session_handlers s2 = [(''track0'', v)]
     \<and> stream_run (\<lambda>_. Some (concat long_file)) (\<lambda>_. True) ''A''
         (by_the_clock (producer_pause (opened_track H264 (concat long_file))) (sender_pause (opened_track H264 (concat long_file))) 0 21 0 0
            @ replicate 9 Sender_Step) (h2, v) = Done (hv, ds)
     \<and> depacketize (rtp_payloads ds) [] = replicate 9 (nal_unit (filler_unit 0))"
proof -
  let ?h = "[opened_track H264 (concat long_file)]"
  obtain h1 s1 where s: "session_add_media_track (\<lambda>_. True) 7 (replicate rtp_buf_size 0) ''track0'' 0 6000 6001 ''10.0.0.2''
      5000 5001 (?h, new_session ''A'') = ((h1, s1), Done ())"
    using set_up_succeeds by blast
  have ten: "length (delivered long_file) = 10" by (simp add: long_file(3))
  have "length (buffer (frame_queue (?h ! 0))) = 25"
    by (simp add: opened_track_def track_open_def h264_open_def new_track_simps circular_queue_def)
  then have room: "length (delivered long_file) \<le> 10 * (length (buffer (frame_queue (?h ! 0))) - 1)" unfolding ten by simp
  have long: "2 * length (delivered long_file) < 21" unfolding ten by simp
  have "\<forall>e\<in>set (replicate 9 Sender_Step). by_others (length ?h) 0 ''A'' e" by simp
  from clock_cuts_stream [OF opened_track(1) _ opened_track(2,3) long_file(1,2) s _ _ room long this, where inet_ok = "\<lambda>_. True"]
  obtain h2 s2 v hv ds where
    "session_start (\<lambda>_. Some (concat long_file)) (h1, s1) = ((h2, s2), Done ())" "session_handlers s2 = [(''track0'', v)]"
    "stream_run (\<lambda>_. Some (concat long_file)) (\<lambda>_. True) ''A''
       (by_the_clock (producer_pause (?h ! 0)) (sender_pause (?h ! 0)) 0 21 0 0 @ replicate 9 Sender_Step) (h2, v) = Done (hv, ds)"
    "depacketize (rtp_payloads ds) [] = map nal_unit (take ((9 * length (delivered long_file) + 9) div 10) (delivered long_file))"
    by auto
  moreover have "take ((9 * length (delivered long_file) + 9) div 10) (delivered long_file) = replicate 9 (filler_unit 0)"
    unfolding ten by (simp add: long_file(3))
  ultimately show ?thesis using s by (simp add: map_replicate)
qed

end
