(* ===== verification/Sockets.thy ===== *)
theory Sockets
  imports RtpRtcpHandler
begin

text \<open>
  The UDP sockets of \<open>RtpRtcpHandler\<close> as resources: its constructor and its destructor at the
  level of descriptors, and how many descriptors a server has open after any number of handlers
  have been made and destroyed. What a system call returns is an argument (\<open>ret\<close>); of the kernel
  only this is assumed, where it is needed: \<open>socket\<close> returns a descriptor below the limit of the
  process that is not open. The rest of the constructor is \<open>rtp_rtcp_handler\<close> of RtpRtcpHandler, which
  takes only the verdicts of the calls; the first property relates the two.
\<close>

section \<open>The constructor and the destructor\<close>

record rtp_sockets =
  rtp_socket :: int
  rtcp_socket :: int

text \<open>
  The constructor: \<open>fds\<close> are the open descriptors. An exception leaves the sockets opened so far as
  they are: the object is not constructed, so its destructor does not run.
\<close>

definition construct_sockets :: "(sys_call \<Rightarrow> int) \<Rightarrow> int \<Rightarrow> int \<Rightarrow> int set \<Rightarrow> int set \<times> rtp_sockets result" where
  "construct_sockets ret server_rtp_port server_rtcp_port fds =
     (let rtp = ret Rtp_Socket; fds1 = insert rtp fds; rtcp = ret Rtcp_Socket; fds2 = insert rtcp fds1;
          rtp_bind = Rtp_Bind (word_of_int server_rtp_port); rtcp_bind = Rtcp_Bind (word_of_int server_rtcp_port) in
      if rtp < 0 then (fds, Inl (Runtime_Error (sys_error Rtp_Socket)))
      else if ret Rtp_Reuse < 0 then (fds1, Inl (Runtime_Error (sys_error Rtp_Reuse)))
      else if ret rtp_bind < 0 then (fds1, Inl (Runtime_Error (sys_error rtp_bind)))
      else if rtcp < 0 then (fds1, Inl (Runtime_Error (sys_error Rtcp_Socket)))
      else if ret Rtcp_Reuse < 0 then (fds2, Inl (Runtime_Error (sys_error Rtcp_Reuse)))
      else if ret Rtcp_Timeout < 0 then (fds2, Inl (Runtime_Error (sys_error Rtcp_Timeout)))
      else if ret rtcp_bind < 0 then (fds2, Inl (Runtime_Error (sys_error rtcp_bind)))
      else (fds2, Inr \<lparr>rtp_socket = rtp, rtcp_socket = rtcp\<rparr>))"

definition destroy_sockets :: "rtp_sockets \<Rightarrow> int set \<Rightarrow> int set" where
  "destroy_sockets h fds =
     (let fds1 = (if 0 \<le> rtp_socket h then fds - {rtp_socket h} else fds) in
      if 0 \<le> rtcp_socket h then fds1 - {rtcp_socket h} else fds1)"

section \<open>What is assumed of the kernel\<close>

text \<open>\<open>socket\<close> fails or returns a descriptor below the limit that is not open.\<close>

definition new_descriptor :: "int \<Rightarrow> int \<Rightarrow> int set \<Rightarrow> bool" where
  "new_descriptor limit fd fds \<longleftrightarrow> fd < 0 \<or> fd < limit \<and> fd \<notin> fds"

definition lawful :: "int \<Rightarrow> (sys_call \<Rightarrow> int) \<Rightarrow> int set \<Rightarrow> bool" where
  "lawful limit ret fds \<longleftrightarrow> new_descriptor limit (ret Rtp_Socket) fds
     \<and> new_descriptor limit (ret Rtcp_Socket) (insert (ret Rtp_Socket) fds)"

section \<open>Handlers come and go\<close>

text \<open>
  A server over time: handlers are constructed (by SETUP) and destroyed (when their session ends).
\<close>

datatype socket_op = Construct "sys_call \<Rightarrow> int" int int | Destroy nat

record socket_state =
  open_fds :: "int set"
  live :: "rtp_sockets list"

fun socket_exec :: "socket_op \<Rightarrow> socket_state \<Rightarrow> socket_state" where
  "socket_exec (Construct ret p1 p2) s =
     (case construct_sockets ret p1 p2 (open_fds s) of
        (fds, Inl e) \<Rightarrow> s\<lparr>open_fds := fds\<rparr>
      | (fds, Inr h) \<Rightarrow> s\<lparr>open_fds := fds, live := live s @ [h]\<rparr>)"
| "socket_exec (Destroy i) s =
     (if i < length (live s)
      then s\<lparr>open_fds := destroy_sockets (live s ! i) (open_fds s), live := take i (live s) @ drop (Suc i) (live s)\<rparr>
      else s)"

fun lawful_run :: "int \<Rightarrow> socket_op list \<Rightarrow> socket_state \<Rightarrow> bool" where
  "lawful_run limit [] s \<longleftrightarrow> True"
| "lawful_run limit (op # ops) s \<longleftrightarrow>
     (case op of Construct ret p1 p2 \<Rightarrow> lawful limit ret (open_fds s) | _ \<Rightarrow> True) \<and> lawful_run limit ops (socket_exec op s)"

text \<open>How many sockets a construction opens before it fails.\<close>

fun leaks :: "socket_op \<Rightarrow> nat" where
  "leaks (Construct ret p1 p2) =
     (case first_failure (\<lambda>c. 0 \<le> ret c) (handler_calls p1 p2) of
        None \<Rightarrow> 0
      | Some c \<Rightarrow> if c = Rtp_Socket then 0
                  else if c \<in> {Rtp_Reuse, Rtp_Bind (word_of_int p1), Rtcp_Socket} then 1 else 2)"
| "leaks (Destroy i) = 0"

section \<open>Lemmas\<close>

text \<open>The descriptors after a construction.\<close>

lemma construct_cases:
  assumes "construct_sockets ret p1 p2 fds = (fds', r)" and "lawful limit ret fds"
  shows "\<exists>new. fds' = fds \<union> set new \<and> distinct new \<and> set new \<inter> fds = {} \<and> set new \<subseteq> {0..<limit} \<and>
    (case r of Inl e \<Rightarrow> length new = leaks (Construct ret p1 p2)
     | Inr h \<Rightarrow> new = [rtp_socket h, rtcp_socket h] \<and> leaks (Construct ret p1 p2) = 0)"
proof -
  consider "ret Rtp_Socket < 0"
    | "0 \<le> ret Rtp_Socket" "ret Rtp_Reuse < 0 \<or> ret (Rtp_Bind (word_of_int p1)) < 0 \<or> ret Rtcp_Socket < 0"
    | "0 \<le> ret Rtp_Socket" "0 \<le> ret Rtp_Reuse" "0 \<le> ret (Rtp_Bind (word_of_int p1))" "0 \<le> ret Rtcp_Socket"
    by linarith
  then show ?thesis
  proof cases
    case 1
    with assms show ?thesis
      by (intro exI [of _ "[]"]) (auto simp: construct_sockets_def handler_calls_def)
  next
    case 2
    with assms show ?thesis
      by (intro exI [of _ "[ret Rtp_Socket]"])
        (auto simp: construct_sockets_def handler_calls_def Let_def lawful_def new_descriptor_def split: if_splits)
  next
    case 3
    with assms show ?thesis
      by (intro exI [of _ "[ret Rtp_Socket, ret Rtcp_Socket]"])
        (auto simp: construct_sockets_def handler_calls_def Let_def lawful_def new_descriptor_def split: if_splits)
  qed
qed

text \<open>
  The account of the open descriptors: those that were there before, those of the live handlers,
  and \<open>n\<close> that nobody knows.
\<close>

definition handles :: "rtp_sockets list \<Rightarrow> int list" where
  "handles hs = concat (map (\<lambda>h. [rtp_socket h, rtcp_socket h]) hs)"

lemma handles_simps [simp]:
  "handles [] = []" "handles (h # hs) = rtp_socket h # rtcp_socket h # handles hs"
  "handles (hs @ hs') = handles hs @ handles hs'"
  by (simp_all add: handles_def)

lemma length_handles [simp]: "length (handles hs) = 2 * length hs"
  by (induction hs) auto

definition accounted :: "int \<Rightarrow> int set \<Rightarrow> nat \<Rightarrow> socket_state \<Rightarrow> bool" where
  "accounted limit base n s \<longleftrightarrow> (\<exists>lost. length lost = n \<and> distinct (lost @ handles (live s))
     \<and> set (lost @ handles (live s)) \<inter> base = {} \<and> set (lost @ handles (live s)) \<subseteq> {0..<limit}
     \<and> open_fds s = base \<union> set (lost @ handles (live s)))"

lemma accounted_exec:
  assumes "accounted limit base n s"
    and "case op of Construct ret p1 p2 \<Rightarrow> lawful limit ret (open_fds s) | _ \<Rightarrow> True"
  shows "accounted limit base (n + leaks op) (socket_exec op s)"
proof -
  from assms(1) obtain lost where lost: "length lost = n" "distinct (lost @ handles (live s))"
    "set (lost @ handles (live s)) \<inter> base = {}" "set (lost @ handles (live s)) \<subseteq> {0..<limit}"
    "open_fds s = base \<union> set (lost @ handles (live s))" unfolding accounted_def by blast
  show ?thesis
  proof (cases op)
    case (Construct ret p1 p2)
    obtain fds r where c: "construct_sockets ret p1 p2 (open_fds s) = (fds, r)" by (metis prod.exhaust)
    have law: "lawful limit ret (open_fds s)" using assms(2) Construct by simp
    from construct_cases [OF c law] obtain new where new: "fds = open_fds s \<union> set new" "distinct new"
      "set new \<inter> open_fds s = {}" "set new \<subseteq> {0..<limit}"
      "case r of Inl e \<Rightarrow> length new = leaks (Construct ret p1 p2)
        | Inr h \<Rightarrow> new = [rtp_socket h, rtcp_socket h] \<and> leaks (Construct ret p1 p2) = 0" by blast
    show ?thesis
    proof (cases r)
      case (Inl e)
      have "accounted limit base (n + length new) (s\<lparr>open_fds := fds\<rparr>)"
        unfolding accounted_def using lost new(1-4) by (intro exI [of _ "lost @ new"]) auto
      with Inl Construct c new(5) show ?thesis by simp
    next
      case (Inr h)
      have "accounted limit base n (s\<lparr>open_fds := fds, live := live s @ [h]\<rparr>)"
        unfolding accounted_def using lost new Inr by (intro exI [of _ lost]) auto
      with Inr Construct c new(5) show ?thesis by simp
    qed
  next
    case (Destroy i)
    show ?thesis
    proof (cases "i < length (live s)")
      case True
      have split: "live s = take i (live s) @ live s ! i # drop (Suc i) (live s)"
        using True by (rule id_take_nth_drop)
      then have h: "handles (live s) = handles (take i (live s)) @ [rtp_socket (live s ! i), rtcp_socket (live s ! i)]
          @ handles (drop (Suc i) (live s))"
        by (metis append_Cons append_Nil handles_simps(2,3))
      then have "0 \<le> rtp_socket (live s ! i)" "0 \<le> rtcp_socket (live s ! i)" using lost(4) by auto
      then have "accounted limit base n (socket_exec op s)"
        unfolding accounted_def using lost True unfolding h Destroy
        by (intro exI [of _ lost]) (auto simp: destroy_sockets_def)
      then show ?thesis by (simp add: Destroy)
    qed (use assms(1) Destroy in simp)
  qed
qed

lemma accounted_run:
  "accounted limit base n s \<Longrightarrow> lawful_run limit ops s \<Longrightarrow>
   accounted limit base (n + sum_list (map leaks ops)) (fold socket_exec ops s)"
proof (induction ops arbitrary: n s)
  case (Cons op ops)
  then show ?case using Cons.IH [OF accounted_exec [OF Cons.prems(1)]] by (simp add: add.assoc)
qed simp

section \<open>Properties\<close>

text \<open>
  The constructor at the level of descriptors fails and succeeds exactly as the
  one that takes verdicts, with the same exception; and when it succeeds, the destructor closes
  what it opened, and nothing else: the process has the same descriptors open as before.
\<close>

lemma sockets_returned:
  assumes "lawful limit ret fds"
  shows "case construct_sockets ret p1 p2 fds of
      (fds', Inl e) \<Rightarrow> rtp_rtcp_handler (\<lambda>c. 0 \<le> ret c) ssrc0 buf0 p1 p2 ip0 p3 p4 increment = Inl e
    | (fds', Inr h) \<Rightarrow> (\<exists>v. rtp_rtcp_handler (\<lambda>c. 0 \<le> ret c) ssrc0 buf0 p1 p2 ip0 p3 p4 increment = Inr v)
        \<and> destroy_sockets h fds' = fds"
  using assms
  by (auto simp: construct_sockets_def destroy_sockets_def rtp_rtcp_handler_def handler_calls_def Let_def
      lawful_def new_descriptor_def split: if_splits)

lemma sockets_returned_witness:
  "case construct_sockets (\<lambda>c. if c = Rtp_Socket then 5 else if c = Rtcp_Socket then 6 else 0) 15000 15001 {0, 1, 2, 3} of
     (fds', Inl e) \<Rightarrow> False
   | (fds', Inr h) \<Rightarrow> fds' = {0, 1, 2, 3, 5, 6} \<and> destroy_sockets h fds' = {0, 1, 2, 3}"
  using sockets_returned [where limit = 1024 and ret = "\<lambda>c. if c = Rtp_Socket then 5 else if c = Rtcp_Socket then 6 else 0"
      and fds = "{0, 1, 2, 3}" and ?p1.0 = 15000 and ?p2.0 = 15001]
  by (auto simp: lawful_def new_descriptor_def construct_sockets_def Let_def rtp_rtcp_handler_def handler_calls_def)

text \<open>
  C36 (error). The account of the descriptors of a server, over any sequence of handlers made and
  destroyed: besides those that were open before and two for each live handler, every socket
  that a failing constructor had opened stays open for ever. The process can afford only as many
  failures (a port taken by another program fails every time, after one socket) as its limit
  leaves; then \<open>socket\<close> fails, and with it every further SETUP of every client.
\<close>

theorem failing_handlers_leak:
  assumes "0 \<le> limit" and "base \<subseteq> {0..<limit}" and "lawful_run limit ops \<lparr>open_fds = base, live = []\<rparr>"
    and "s = fold socket_exec ops \<lparr>open_fds = base, live = []\<rparr>"
  shows "card (open_fds s) = card base + 2 * length (live s) + sum_list (map leaks ops)
    \<and> int (sum_list (map leaks ops)) \<le> limit - int (card base)
    \<and> (\<forall>ret p1 p2. int (card (open_fds s)) = limit \<and> lawful limit ret (open_fds s) \<longrightarrow>
         construct_sockets ret p1 p2 (open_fds s) = (open_fds s, Inl (Runtime_Error (sys_error Rtp_Socket))))"
proof -
  have "accounted limit base 0 \<lparr>open_fds = base, live = []\<rparr>" by (simp add: accounted_def)
  from accounted_run [OF this assms(3)] assms(4) have "accounted limit base (sum_list (map leaks ops)) s" by simp
  then obtain lost where lost: "length lost = sum_list (map leaks ops)" "distinct (lost @ handles (live s))"
    "set (lost @ handles (live s)) \<inter> base = {}" "set (lost @ handles (live s)) \<subseteq> {0..<limit}"
    "open_fds s = base \<union> set (lost @ handles (live s))" unfolding accounted_def by blast
  have card: "card (open_fds s) = card base + 2 * length (live s) + sum_list (map leaks ops)"
    using lost(1) distinct_card [OF lost(2)] card_Un_disjoint [OF finite_subset [OF assms(2) finite_atLeastLessThan_int] finite_set, of "lost @ handles (live s)"] lost(3)
    by (simp add: lost(5) Int_commute)
  have below: "open_fds s \<subseteq> {0..<limit}" using assms(2) lost(4,5) by auto
  from card_mono [OF finite_atLeastLessThan_int this] assms(1) have bound: "int (card (open_fds s)) \<le> limit" by simp
  have "construct_sockets ret p1 p2 (open_fds s) = (open_fds s, Inl (Runtime_Error (sys_error Rtp_Socket)))"
    if full: "int (card (open_fds s)) = limit" and "lawful limit ret (open_fds s)" for ret p1 p2
  proof -
    have "open_fds s = {0..<limit}" using below full by (intro card_subset_eq) auto
    with that(2) have "ret Rtp_Socket < 0" by (auto simp: lawful_def new_descriptor_def)
    then show ?thesis by (simp add: construct_sockets_def)
  qed
  with card bound show ?thesis by auto
qed

text \<open>A handler is made and destroyed; in between, another finds its RTCP port taken.\<close>

definition demo_sockets :: "socket_op list" where
  "demo_sockets =
     [Construct (\<lambda>c. if c = Rtp_Socket then 4 else if c = Rtcp_Socket then 5 else 0) 15000 15001,
      Construct (\<lambda>c. if c = Rtp_Socket then 6 else if c = Rtcp_Socket then 7 else if c = Rtcp_Bind 15003 then -1 else 0) 15002 15003,
      Destroy 0]"

theorem failing_handlers_leak_witness:
  "fold socket_exec demo_sockets \<lparr>open_fds = {0, 1, 2, 3}, live = []\<rparr> = \<lparr>open_fds = {0, 1, 2, 3, 6, 7}, live = []\<rparr>
   \<and> card (open_fds (fold socket_exec demo_sockets \<lparr>open_fds = {0, 1, 2, 3}, live = []\<rparr>)) = 4 + 2 * 0 + 2"
proof -
  let ?s = "\<lparr>open_fds = {0, 1, 2, 3}, live = []\<rparr>"
  have run: "fold socket_exec demo_sockets ?s = \<lparr>open_fds = {0, 1, 2, 3, 6, 7}, live = []\<rparr>"
    by (auto simp: demo_sockets_def construct_sockets_def destroy_sockets_def Let_def)
  have "lawful_run 1024 demo_sockets ?s"
    by (simp add: demo_sockets_def construct_sockets_def destroy_sockets_def lawful_def new_descriptor_def Let_def)
  from failing_handlers_leak [OF _ _ this refl]
  have "card (open_fds (fold socket_exec demo_sockets ?s)) = 4 + 2 * 0 + sum_list (map leaks demo_sockets)"
    by (simp add: run)
  moreover have "sum_list (map leaks demo_sockets) = 2" by (simp add: demo_sockets_def handler_calls_def)
  ultimately show ?thesis using run by simp
qed

end
