(* ===== verification/TrackRaces.thy ===== *)
theory TrackRaces
  imports MediaTrack
begin

text \<open>
  \<open>start\<close> and \<open>unregister_session\<close> of a track, statement by statement. Nothing but the queue is
  protected by a mutex, and two connections' threads may be in these methods at the same time;
  here a caller is a program counter, and the callers and the producer step in any order, each
  statement on the track's members at once (sequential consistency, which the language does
  not even promise for racing accesses). \<open>MediaTrack\<close> models each method as one step; the first
  lemma says that this is what a caller without company sees.
\<close>

section \<open>Statements\<close>

datatype caller =
    At_Active_Test        \<comment> \<open>\<open>start\<close>: at \<open>if (is_active_) return\<close>\<close>
  | At_Set_Active
  | At_Exit_Test
  | At_Set_Run
  | At_Open
  | At_New_Thread
  | At_Remove string      \<comment> \<open>\<open>unregister_session\<close>: at \<open>unregister_consumer\<close>\<close>
  | At_Consumer_Test
  | At_Clear_Active       \<comment> \<open>\<open>stop\<close>\<close>
  | At_Set_Exit
  | At_Join
  | At_Set_Exit_Again
  | At_Close
  | Call_Returned
  | Call_Threw cpp_error

definition track_close :: "media_track \<Rightarrow> media_track" where
  "track_close t = (case kind t of H264 \<Rightarrow> h264_close t | AAC \<Rightarrow> aac_close t)"

fun caller_step :: "(string \<Rightarrow> byte list option) \<Rightarrow> caller \<Rightarrow> media_track \<Rightarrow> (caller \<times> media_track) outcome" where
  "caller_step files At_Active_Test t = Done (if is_active t then Call_Returned else At_Set_Active, t)"
| "caller_step files At_Set_Active t = Done (At_Exit_Test, t\<lparr>is_active := True\<rparr>)"
| "caller_step files At_Exit_Test t = Done (if is_exit (frame_queue t) then At_Set_Run else At_Open, t)"
| "caller_step files At_Set_Run t = Done (At_Open, t\<lparr>frame_queue := set_run (frame_queue t)\<rparr>)"
| "caller_step files At_Open t =
     (if is_open (in_file (track_reader t)) then Done (At_New_Thread, t)
      else case track_open files t of
          (t1, Done _) \<Rightarrow> Done (At_New_Thread, t1)
        | (t1, Wait) \<Rightarrow> Wait
        | (t1, Fail e) \<Rightarrow> Done (Call_Threw e, t1))"
| "caller_step files At_New_Thread t =
     (case reset_thread (Some Looping) t of
        (t1, Done _) \<Rightarrow> Done (Call_Returned, t1) | (t1, Wait) \<Rightarrow> Wait | (t1, Fail e) \<Rightarrow> Fail e)"
| "caller_step files (At_Remove sid) t =
     Done (At_Consumer_Test, t\<lparr>frame_queue := unregister_consumer sid (frame_queue t)\<rparr>)"
| "caller_step files At_Consumer_Test t =
     Done (if no_consumer (frame_queue t) then At_Clear_Active else Call_Returned, t)"
| "caller_step files At_Clear_Active t = Done (At_Set_Exit, t\<lparr>is_active := False\<rparr>)"
| "caller_step files At_Set_Exit t = Done (At_Join, t\<lparr>frame_queue := set_exit (frame_queue t)\<rparr>)"
| "caller_step files At_Join t =
     (case join_thread track_producer_step t of
        Done t1 \<Rightarrow> Done (At_Set_Exit_Again, t1) | Wait \<Rightarrow> Wait | Fail e \<Rightarrow> Fail e)"
| "caller_step files At_Set_Exit_Again t = Done (At_Close, t\<lparr>frame_queue := set_exit (frame_queue t)\<rparr>)"
| "caller_step files At_Close t = Done (Call_Returned, track_close t)"
| "caller_step files Call_Returned t = Wait"
| "caller_step files (Call_Threw e) t = Wait"

text \<open>Callers and the producer in turns; a step that waits leaves everything as it is.\<close>

datatype mover = Caller nat | Producer | New_Consumer string

definition race_step :: "(string \<Rightarrow> byte list option) \<Rightarrow> mover \<Rightarrow> caller list \<times> media_track \<Rightarrow> (caller list \<times> media_track) outcome" where
  "race_step files m st =
     (let (cs, t) = st in
      case m of
        Caller i \<Rightarrow>
          (if i < length cs then
             (case caller_step files (cs ! i) t of
                Done (c, t1) \<Rightarrow> Done (cs[i := c], t1) | Wait \<Rightarrow> Done st | Fail e \<Rightarrow> Fail e)
           else Done st)
      | Producer \<Rightarrow>
          (case track_producer_step t of Done t1 \<Rightarrow> Done (cs, t1) | Wait \<Rightarrow> Done st | Fail e \<Rightarrow> Fail e)
      | New_Consumer sid \<Rightarrow> Done (cs, track_register_session sid t))"

fun race_run :: "(string \<Rightarrow> byte list option) \<Rightarrow> mover list \<Rightarrow> caller list \<times> media_track \<Rightarrow> (caller list \<times> media_track) outcome" where
  "race_run files [] st = Done st"
| "race_run files (m # ms) st =
     (case race_step files m st of Done st1 \<Rightarrow> race_run files ms st1 | r \<Rightarrow> r)"

section \<open>A caller alone\<close>

lemma track_start_eq:
  "track_start files t =
     (if is_active t then (t, Done ())
      else let t1 = t\<lparr>is_active := True, frame_queue := (if is_exit (frame_queue t) then set_run (frame_queue t) else frame_queue t)\<rparr> in
        if is_open (in_file (track_reader t)) then reset_thread (Some Looping) t1
        else case track_open files t1 of (t2, Done _) \<Rightarrow> reset_thread (Some Looping) t2 | r \<Rightarrow> r)"
  by (cases "kind t")
    (auto simp: track_start_def h264_start_def aac_start_def track_open_def Let_def split: prod.splits outcome.splits)

lemma producer_step_kind:
  "h264_producer_step t = Done t' \<Longrightarrow> kind t' = kind t" "aac_producer_step t = Done t' \<Longrightarrow> kind t' = kind t"
  by (auto simp: h264_producer_step_def aac_producer_step_def
      split: option.splits producer.splits if_splits sum.splits prod.splits outcome.splits)

lemma run_producer_kind:
  assumes "\<And>t. kind t = mt \<Longrightarrow> step t = step' t" and "\<And>t t'. step t = Done t' \<Longrightarrow> kind t' = kind t"
  shows "kind t = mt \<Longrightarrow> run_producer step k t = run_producer step' k t"
proof (induction k arbitrary: t)
  case 0
  show ?case by (simp add: run_producer.simps)
next
  case (Suc k)
  have "step t = Done t' \<Longrightarrow> run_producer step k t' = run_producer step' k t'" for t'
    using Suc.IH Suc.prems assms(2) by metis
  with assms(1) [OF Suc.prems] show ?case
    by (subst (1 2) run_producer.simps) (auto split: outcome.splits)
qed

lemma join_thread_kind:
  "kind t = H264 \<Longrightarrow> join_thread h264_producer_step t = join_thread track_producer_step t"
  "kind t = AAC \<Longrightarrow> join_thread aac_producer_step t = join_thread track_producer_step t"
  using run_producer_kind [of H264 h264_producer_step track_producer_step t 3] producer_step_kind(1)
    run_producer_kind [of AAC aac_producer_step track_producer_step t 3] producer_step_kind(2)
  by (auto simp: join_thread_def track_producer_step_def)

lemma run_producer_keeps_kind: "run_producer track_producer_step k t = Done t' \<Longrightarrow> kind t' = kind t"
proof (induction k arbitrary: t)
  case 0
  then show ?case by (auto simp: run_producer.simps split: if_splits)
next
  case (Suc k)
  have "track_producer_step t = Done t1 \<Longrightarrow> kind t1 = kind t" for t1
    using producer_step_kind by (auto simp: track_producer_step_def split: media_type.splits)
  with Suc show ?case by (subst (asm) run_producer.simps) (fastforce split: if_splits outcome.splits)
qed

lemma join_keeps_kind: "join_thread track_producer_step t = Done t' \<Longrightarrow> kind t' = kind t"
  by (auto simp: join_thread_def split: if_splits outcome.splits dest: run_producer_keeps_kind)

lemma track_unregister_eq:
  "track_unregister_session sid t =
     (let q = unregister_consumer sid (frame_queue t) in
      if no_consumer q then
        (case join_thread track_producer_step (t\<lparr>is_active := False, frame_queue := set_exit q\<rparr>) of
           Done t1 \<Rightarrow> Done (track_close (t1\<lparr>frame_queue := set_exit (frame_queue t1)\<rparr>)) | r \<Rightarrow> r)
      else Done (t\<lparr>frame_queue := q\<rparr>))"
  using join_keeps_kind
  by (cases "kind t")
    (auto simp: track_unregister_session_def h264_unregister_session_def aac_unregister_session_def h264_stop_def
      aac_stop_def track_close_def Let_def join_thread_kind split: outcome.splits)

text \<open>
  A caller that is not interrupted does what the one-step model of its method
  does: seven statements of \<open>start\<close> or of \<open>unregister_session\<close> leave the track that
  \<open>track_start\<close> or \<open>track_unregister_session\<close> gives, with the same exception or failure, and wait
  exactly when those do.
\<close>

lemma calls_alone:
  "race_run files (replicate 7 (Caller 0)) ([At_Active_Test], t) =
     (case track_start files t of
        (t', Done _) \<Rightarrow> Done ([Call_Returned], t')
      | (t', Fail (Runtime_Error m)) \<Rightarrow> Done ([Call_Threw (Runtime_Error m)], t')
      | (t', Fail e) \<Rightarrow> Fail e
      | (t', Wait) \<Rightarrow> Wait)
   \<and> race_run files (replicate 7 (Caller 0)) ([At_Remove sid], t) =
     (case track_unregister_session sid t of
        Done t' \<Rightarrow> Done ([Call_Returned], t')
      | Wait \<Rightarrow> Done ([At_Join], t\<lparr>frame_queue := set_exit (unregister_consumer sid (frame_queue t)), is_active := False\<rparr>)
      | Fail e \<Rightarrow> Fail e)"
proof
  have seven: "replicate 7 m = [m, m, m, m, m, m, m]" for m :: mover by (simp add: numeral_eq_Suc)
  show "race_run files (replicate 7 (Caller 0)) ([At_Active_Test], t) =
     (case track_start files t of
        (t', Done _) \<Rightarrow> Done ([Call_Returned], t')
      | (t', Fail (Runtime_Error m)) \<Rightarrow> Done ([Call_Threw (Runtime_Error m)], t')
      | (t', Fail e) \<Rightarrow> Fail e
      | (t', Wait) \<Rightarrow> Wait)"
    by (auto simp: seven race_step_def track_start_eq Let_def reset_thread_def is_exit_def set_run_def track_open_def
        h264_open_def aac_open_def split: media_type.splits option.splits)
  show "race_run files (replicate 7 (Caller 0)) ([At_Remove sid], t) =
     (case track_unregister_session sid t of
        Done t' \<Rightarrow> Done ([Call_Returned], t')
      | Wait \<Rightarrow> Done ([At_Join], t\<lparr>frame_queue := set_exit (unregister_consumer sid (frame_queue t)), is_active := False\<rparr>)
      | Fail e \<Rightarrow> Fail e)"
    by (auto simp: seven race_step_def track_unregister_eq Let_def split: outcome.splits)
qed

section \<open>A caller that leaves\<close>

text \<open>
  What holds of the track at each statement of \<open>unregister_session\<close>, while the producer runs on and
  other sessions register.
\<close>

definition leaving_ok :: "caller \<Rightarrow> media_track \<Rightarrow> bool" where
  "leaving_ok c t \<longleftrightarrow>
     cq_wf (frame_queue t) \<and> reader_ok (track_reader t) \<and> (produce_thread t = Some Finished \<longrightarrow> exit_flag (frame_queue t)) \<and>
     (case c of
        At_Set_Exit \<Rightarrow> \<not> is_active t
      | At_Join \<Rightarrow> \<not> is_active t \<and> exit_flag (frame_queue t)
      | At_Set_Exit_Again \<Rightarrow> \<not> is_active t \<and> produce_thread t = None
      | At_Close \<Rightarrow> \<not> is_active t \<and> produce_thread t = None
      | At_Remove sid \<Rightarrow> track_ok t
      | At_Consumer_Test \<Rightarrow> track_ok t
      | At_Clear_Active \<Rightarrow> track_ok t
      | Call_Returned \<Rightarrow> track_ok t
      | _ \<Rightarrow> False)"

lemma track_join_returns:
  assumes "cq_wf (frame_queue t)" and "exit_flag (frame_queue t)" and "\<not> is_active t"
  shows "\<exists>q. join_thread track_producer_step t = Done (t\<lparr>frame_queue := q, produce_thread := None\<rparr>) \<and> cq_wf q"
  using h264_track.join_returns [OF assms] aac_track.join_returns [OF assms]
  by (cases "kind t") (auto simp: join_thread_kind)

lemma queue_flags:
  "exit_flag (set_exit q)" "exit_flag (unregister_consumer sid q) = exit_flag q" "exit_flag (fst (produce x q)) = exit_flag q"
  by (simp_all add: set_exit_def unregister_consumer_def produce_def Let_def)

lemma leaving_caller:
  assumes "leaving_ok c t"
  shows "caller_step files c t = Wait \<or> (\<exists>c' t'. caller_step files c t = Done (c', t') \<and> leaving_ok c' t')"
  using assms
proof (cases c)
  case At_Join
  with assms track_join_returns [of t] show ?thesis by (auto simp: leaving_ok_def)
next
  case At_Close
  then show ?thesis using assms
    by (auto simp: leaving_ok_def track_close_def h264_close_def aac_close_def track_ok_def reader_ok_def closed_file_def
        split: media_type.split)
qed (auto simp: leaving_ok_def track_ok_def cq_wf_set_exit cq_wf_unregister queue_flags)

lemma leaving_producer:
  assumes "leaving_ok c t"
  shows "track_producer_step t = Wait \<or> (\<exists>t'. track_producer_step t = Done t' \<and> leaving_ok c t')"
proof (cases "is_active t \<or> produce_thread t = None")
  case True
  then show ?thesis
    using assms track_step_ok [of t] track_step_inactive(2) [of t]
    by (auto simp: leaving_ok_def track_ok_def split: caller.splits)
next
  case False
  then obtain p where p: "produce_thread t = Some p" and "\<not> is_active t" by auto
  have wf: "cq_wf (frame_queue t)" using assms by (simp add: leaving_ok_def)
  have c: "c = At_Set_Exit \<or> c = At_Join" using assms False by (auto simp: leaving_ok_def track_ok_def split: caller.splits)
  show ?thesis
  proof (cases p)
    case Looping
    with p \<open>\<not> is_active t\<close> c assms show ?thesis by (auto simp: track_step_inactive(1) leaving_ok_def)
  next
    case (Producing f)
    have "track_producer_step t = Wait \<or>
        track_producer_step t = Done (t\<lparr>frame_queue := fst (produce (Some f) (frame_queue t)), produce_thread := Some Looping\<rparr>)"
      using track_step_produce [of t f] p Producing h264_track.produce_never_fails [OF wf, of "Some f"]
      by (cases "produce (Some f) (frame_queue t)"; cases "snd (produce (Some f) (frame_queue t))") auto
    with c assms cq_wf_produce [OF wf, of "Some f"] show ?thesis by (auto simp: leaving_ok_def queue_flags)
  next
    case Exiting
    with p c assms cq_wf_set_exit [OF wf] show ?thesis by (auto simp: track_step_end(1) leaving_ok_def queue_flags)
  next
    case Finished
    with p show ?thesis by (simp add: track_step_end(2))
  qed
qed

lemma leaving_register: "leaving_ok c t \<Longrightarrow> leaving_ok c (track_register_session sid t)"
  by (auto simp: leaving_ok_def track_register_simp track_ok_def register_consumer_def
      intro: cq_wf_register [unfolded register_consumer_def] split: caller.splits)

lemma leaving_run:
  assumes "leaving_ok c t"
  shows "\<exists>c' t'. race_run files ms ([c], t) = Done ([c'], t') \<and> leaving_ok c' t'"
  using assms
proof (induction ms arbitrary: c t)
  case (Cons m ms)
  have "\<exists>c1 t1. race_step files m ([c], t) = Done ([c1], t1) \<and> leaving_ok c1 t1"
  proof (cases m)
    case (Caller i)
    with leaving_caller [OF Cons.prems, of files] Cons.prems show ?thesis
      by (auto simp: race_step_def)
  next
    case Producer
    with leaving_producer [OF Cons.prems] Cons.prems show ?thesis by (auto simp: race_step_def)
  next
    case (New_Consumer sid)
    with leaving_register [OF Cons.prems, of sid] show ?thesis by (simp add: race_step_def)
  qed
  with Cons.IH show ?case by fastforce
qed simp

text \<open>
  C13 (safety). A session may leave a track at any time: while its \<open>unregister_session\<close> runs, the
  producer may take steps and other sessions may register, between any two of its statements,
  and nothing is destroyed or read out of bounds; when it returns, the track is as all other
  methods expect it: a track that is then inactive has no producer thread, so that the next
  \<open>start\<close> makes one, and one that waits in the join is always brought back by the exit flag.
\<close>

theorem leaving_is_safe:
  assumes "track_ok t"
  shows "\<exists>c t'. race_run files ms ([At_Remove sid], t) = Done ([c], t')
    \<and> (c = Call_Returned \<longrightarrow> track_ok t' \<and> (is_active t' \<or> produce_thread t' = None))
    \<and> (c = At_Join \<longrightarrow> (\<exists>t''. caller_step files c t' = Done (At_Set_Exit_Again, t'')))"
proof -
  have "leaving_ok (At_Remove sid) t" using assms by (simp add: leaving_ok_def track_ok_def)
  from leaving_run [OF this, of files ms] obtain c t' where
    run: "race_run files ms ([At_Remove sid], t) = Done ([c], t')" and ok: "leaving_ok c t'" by blast
  have "c = At_Join \<longrightarrow> (\<exists>t''. caller_step files c t' = Done (At_Set_Exit_Again, t''))"
    using track_join_returns [of t'] ok by (auto simp: leaving_ok_def)
  moreover have "c = Call_Returned \<longrightarrow> track_ok t' \<and> (is_active t' \<or> produce_thread t' = None)"
    using ok by (auto simp: leaving_ok_def track_ok_def)
  ultimately show ?thesis using run by blast
qed

section \<open>Callers that start\<close>

lemma track_step_active: "track_producer_step t = Done t' \<Longrightarrow> is_active t' = is_active t"
  by (cases "kind t") (auto simp: track_producer_step_def h264_producer_step_def aac_producer_step_def
      split: option.splits producer.splits if_splits sum.splits prod.splits outcome.splits)

lemma starts_of_active:
  assumes "is_active t" and "track_ok t" and "set cs \<subseteq> {At_Active_Test, Call_Returned}"
  shows "\<exists>cs' t'. race_run files ms (cs, t) = Done (cs', t') \<and> set cs' \<subseteq> {At_Active_Test, Call_Returned} \<and> is_active t'"
  using assms
proof (induction ms arbitrary: cs t)
  case (Cons m ms)
  have "\<exists>cs1 t1. race_step files m (cs, t) = Done (cs1, t1) \<and> set cs1 \<subseteq> {At_Active_Test, Call_Returned}
      \<and> is_active t1 \<and> track_ok t1"
  proof (cases m)
    case (Caller i)
    have "set (cs[i := Call_Returned]) \<subseteq> {At_Active_Test, Call_Returned}"
      using Cons.prems(3) set_update_subset_insert [of cs i Call_Returned] by blast
    moreover have "cs ! i = At_Active_Test \<or> cs ! i = Call_Returned" if "i < length cs"
      using Cons.prems(3) nth_mem [OF that] by blast
    ultimately show ?thesis using Caller Cons.prems by (auto simp: race_step_def)
  next
    case Producer
    with track_step_ok [OF Cons.prems(2)] track_step_active [of t] Cons.prems show ?thesis
      by (auto simp: race_step_def)
  next
    case (New_Consumer sid)
    with Cons.prems cq_wf_register [of "frame_queue t" sid] show ?thesis
      by (simp add: race_step_def track_register_simp track_ok_def register_consumer_def)
  qed
  with Cons.IH show ?case by fastforce
qed simp

text \<open>Where a \<open>start\<close> is, and how many statements it has left at most.\<close>

fun statements_to_go :: "caller \<Rightarrow> nat" where
  "statements_to_go At_Set_Active = 5"
| "statements_to_go At_Exit_Test = 4"
| "statements_to_go At_Set_Run = 3"
| "statements_to_go At_Open = 2"
| "statements_to_go At_New_Thread = 1"
| "statements_to_go c = 0"

definition behind_the_test :: "caller set" where
  "behind_the_test = {At_Set_Active, At_Exit_Test, At_Set_Run, At_Open, At_New_Thread, Call_Returned}"

text \<open>
  Two \<open>start\<close> calls \<open>i\<close> and \<open>k\<close> behind their tests, among other calls of \<open>start\<close>: at most one of
  them has created the producer thread, and a call that may return has.
\<close>

definition two_starts :: "(string \<Rightarrow> byte list option) \<Rightarrow> nat \<Rightarrow> nat \<Rightarrow> caller list \<times> media_track \<Rightarrow> bool" where
  "two_starts files i k st \<longleftrightarrow>
     (let (cs, t) = st in
      i \<noteq> k \<and> i < length cs \<and> k < length cs \<and> set cs \<subseteq> insert At_Active_Test behind_the_test
      \<and> cs ! i \<in> behind_the_test \<and> cs ! k \<in> behind_the_test
      \<and> cq_wf (frame_queue t) \<and> reader_ok (track_reader t) \<and> files (url t) \<noteq> None
      \<and> (produce_thread t = None \<or> is_active t)
      \<and> (\<forall>c\<in>set cs. c \<in> {At_Exit_Test, At_Set_Run, At_Open, At_New_Thread} \<longrightarrow> is_active t)
      \<and> (produce_thread t = None \<longrightarrow> 1 \<le> statements_to_go (cs ! i) \<and> 1 \<le> statements_to_go (cs ! k))
      \<and> \<not> (statements_to_go (cs ! i) = 0 \<and> statements_to_go (cs ! k) = 0))"

definition turns_for :: "nat \<Rightarrow> mover list \<Rightarrow> nat" where
  "turns_for i ms = length (filter (\<lambda>m. m = Caller i) ms)"

lemma start_caller_step:
  assumes "c \<in> insert At_Active_Test behind_the_test" and "cq_wf (frame_queue t)" and "reader_ok (track_reader t)"
    and "files (url t) \<noteq> None" and "produce_thread t = None \<or> is_active t"
    and "c \<in> {At_Exit_Test, At_Set_Run, At_Open, At_New_Thread} \<longrightarrow> is_active t"
  shows "caller_step files c t = Wait \<and> c = Call_Returned
    \<or> caller_step files c t = Fail Terminate \<and> c = At_New_Thread
    \<or> (\<exists>c' t'. caller_step files c t = Done (c', t') \<and> c' \<in> insert At_Active_Test behind_the_test
        \<and> cq_wf (frame_queue t') \<and> reader_ok (track_reader t') \<and> url t' = url t
        \<and> (produce_thread t' = None \<or> is_active t')
        \<and> (c' \<in> {At_Exit_Test, At_Set_Run, At_Open, At_New_Thread} \<longrightarrow> is_active t')
        \<and> (is_active t \<longrightarrow> is_active t')
        \<and> (c \<in> behind_the_test \<longrightarrow> c' \<in> behind_the_test \<and> statements_to_go c' \<le> statements_to_go c - 1
            \<and> (statements_to_go c' = 0 \<longrightarrow> c = At_New_Thread \<and> produce_thread t = None))
        \<and> (produce_thread t' = None \<longleftrightarrow> produce_thread t = None \<and> c \<noteq> At_New_Thread))"
proof (cases "c = At_Open")
  case True
  then show ?thesis using assms
    by (cases "kind t") (auto simp: behind_the_test_def track_open_def h264_open_def aac_open_def reader_ok_def)
next
  case False
  have run: "cq_wf (set_run (frame_queue t))" using assms(2) by (simp add: cq_wf_def set_run_def)
  from False assms(1) consider "c = At_Active_Test" | "c = At_Set_Active" | "c = At_Exit_Test" | "c = At_Set_Run"
    | "c = At_New_Thread" | "c = Call_Returned" by (auto simp: behind_the_test_def)
  then show ?thesis
    using assms(2-6) run by cases (auto simp: behind_the_test_def reset_thread_def)
qed

lemma two_starts_producer:
  assumes "cq_wf (frame_queue t)" and "reader_ok (track_reader t)" and "produce_thread t = None \<or> is_active t"
  shows "track_producer_step t = Wait \<or> (\<exists>t'. track_producer_step t = Done t' \<and> cq_wf (frame_queue t')
    \<and> reader_ok (track_reader t') \<and> url t' = url t \<and> is_active t' = is_active t
    \<and> (produce_thread t' = None \<longleftrightarrow> produce_thread t = None))"
proof -
  have keeps: "track_producer_step t = Done t' \<Longrightarrow> url t' = url t \<and> produce_thread t \<noteq> None \<and> produce_thread t' \<noteq> None" for t'
    by (cases "kind t") (auto simp: track_producer_step_def h264_producer_step_def aac_producer_step_def
        split: option.splits producer.splits if_splits sum.splits prod.splits outcome.splits)
  show ?thesis
  proof (cases "produce_thread t = Some Finished")
    case False
    with assms have "track_ok t" by (auto simp: track_ok_def)
    from track_step_ok [OF this] keeps track_step_active show ?thesis by (fastforce simp: track_ok_def)
  qed (simp add: track_step_end(2))
qed

lemma two_starts_step:
  assumes "two_starts files i k st"
  shows "race_step files m st = Fail Terminate
    \<or> (\<exists>st'. race_step files m st = Done st' \<and> two_starts files i k st'
        \<and> (\<forall>l\<in>{i, k}. statements_to_go (fst st' ! l) \<le> statements_to_go (fst st ! l) - turns_for l [m]))"
proof -
  obtain cs t where st: "st = (cs, t)" by (cases st)
  have a: "i \<noteq> k" "i < length cs" "k < length cs" "set cs \<subseteq> insert At_Active_Test behind_the_test"
    "cs ! i \<in> behind_the_test" "cs ! k \<in> behind_the_test"
    "cq_wf (frame_queue t)" "reader_ok (track_reader t)" "files (url t) \<noteq> None" "produce_thread t = None \<or> is_active t"
    "\<forall>c\<in>set cs. c \<in> {At_Exit_Test, At_Set_Run, At_Open, At_New_Thread} \<longrightarrow> is_active t"
    "produce_thread t = None \<longrightarrow> 1 \<le> statements_to_go (cs ! i) \<and> 1 \<le> statements_to_go (cs ! k)"
    "\<not> (statements_to_go (cs ! i) = 0 \<and> statements_to_go (cs ! k) = 0)"
    using assms by (simp_all add: two_starts_def st)
  show ?thesis
  proof (cases m)
    case (Caller l)
    show ?thesis
    proof (cases "l < length cs")
      case True
      let ?c = "cs ! l"
      have "?c \<in> set cs" using True by simp
      with a(4,11) have c: "?c \<in> insert At_Active_Test behind_the_test"
        "?c \<in> {At_Exit_Test, At_Set_Run, At_Open, At_New_Thread} \<longrightarrow> is_active t" by (blast, blast)
      from start_caller_step [where files = files, OF c(1) a(7-10) c(2)] show ?thesis
      proof (elim disjE exE)
        assume "caller_step files ?c t = Wait \<and> ?c = Call_Returned"
        with Caller True assms st show ?thesis by (auto simp: race_step_def turns_for_def)
      next
        assume "caller_step files ?c t = Fail Terminate \<and> ?c = At_New_Thread"
        then have "caller_step files ?c t = Fail Terminate" ..
        with Caller True st show ?thesis by (simp add: race_step_def)
      next
        fix c' t'
        assume "caller_step files ?c t = Done (c', t') \<and> c' \<in> insert At_Active_Test behind_the_test
          \<and> cq_wf (frame_queue t') \<and> reader_ok (track_reader t') \<and> url t' = url t
          \<and> (produce_thread t' = None \<or> is_active t')
          \<and> (c' \<in> {At_Exit_Test, At_Set_Run, At_Open, At_New_Thread} \<longrightarrow> is_active t')
          \<and> (is_active t \<longrightarrow> is_active t')
          \<and> (?c \<in> behind_the_test \<longrightarrow> c' \<in> behind_the_test \<and> statements_to_go c' \<le> statements_to_go ?c - 1
              \<and> (statements_to_go c' = 0 \<longrightarrow> ?c = At_New_Thread \<and> produce_thread t = None))
          \<and> (produce_thread t' = None \<longleftrightarrow> produce_thread t = None \<and> ?c \<noteq> At_New_Thread)"
        then have 3: "caller_step files ?c t = Done (c', t')" "c' \<in> insert At_Active_Test behind_the_test"
          "cq_wf (frame_queue t')" "reader_ok (track_reader t')" "url t' = url t" "produce_thread t' = None \<or> is_active t'"
          "c' \<in> {At_Exit_Test, At_Set_Run, At_Open, At_New_Thread} \<longrightarrow> is_active t'"
          "is_active t \<longrightarrow> is_active t'"
          "?c \<in> behind_the_test \<longrightarrow> c' \<in> behind_the_test \<and> statements_to_go c' \<le> statements_to_go ?c - 1
            \<and> (statements_to_go c' = 0 \<longrightarrow> ?c = At_New_Thread \<and> produce_thread t = None)"
          "produce_thread t' = None \<longleftrightarrow> produce_thread t = None \<and> ?c \<noteq> At_New_Thread"
          by - (elim conjE, assumption)+
        have run: "race_step files m st = Done (cs[l := c'], t')" using 3(1) Caller True st by (simp add: race_step_def)
        have sub: "set (cs[l := c']) \<subseteq> insert c' (set cs)" by (rule set_update_subset_insert)
        with a(4) 3(2) have "set (cs[l := c']) \<subseteq> insert At_Active_Test behind_the_test" by blast
        moreover have "\<forall>c\<in>set (cs[l := c']). c \<in> {At_Exit_Test, At_Set_Run, At_Open, At_New_Thread} \<longrightarrow> is_active t'"
          using sub a(11) 3(7,8) by blast
        moreover have go: "cs[l := c'] ! n \<in> behind_the_test \<and>
            statements_to_go (cs[l := c'] ! n) \<le> statements_to_go (cs ! n) - turns_for n [m]" if "n \<in> {i, k}" for n
          using that a(2,3,5,6) 3(9) Caller by (cases "n = l") (auto simp: turns_for_def)
        moreover have new: "statements_to_go ?c = 1 \<longleftrightarrow> ?c = At_New_Thread" by (cases ?c) auto
        have "produce_thread t' = None \<longrightarrow>
            1 \<le> statements_to_go (cs[l := c'] ! i) \<and> 1 \<le> statements_to_go (cs[l := c'] ! k)"
          using a(2,3,5,6,12) 3(9,10) by (cases "l = i"; cases "l = k") (auto simp: Suc_le_eq)
        moreover have "\<not> (statements_to_go (cs[l := c'] ! i) = 0 \<and> statements_to_go (cs[l := c'] ! k) = 0)"
          using a(1-3,5,6,12,13) 3(9) by (cases "l = i"; cases "l = k") auto
        ultimately have "two_starts files i k (cs[l := c'], t')"
          using a(1-3,9) 3(3-6) by (simp add: two_starts_def)
        with run go st show ?thesis by auto
      qed
    qed (use Caller assms a(2,3) st in \<open>auto simp: race_step_def turns_for_def\<close>)
  next
    case Producer
    from two_starts_producer [OF a(7,8,10)] assms Producer st show ?thesis
      by (auto simp: race_step_def turns_for_def two_starts_def)
  next
    case (New_Consumer sid)
    with assms cq_wf_register [of "frame_queue t" sid] st show ?thesis
      by (auto simp: race_step_def turns_for_def two_starts_def track_register_simp register_consumer_def)
  qed
qed

lemma two_starts_run:
  assumes "two_starts files i k st"
  shows "race_run files ms st = Fail Terminate
    \<or> (\<exists>st'. race_run files ms st = Done st' \<and> two_starts files i k st'
        \<and> (\<forall>l\<in>{i, k}. statements_to_go (fst st' ! l) \<le> statements_to_go (fst st ! l) - turns_for l ms))"
  using assms
proof (induction ms arbitrary: st)
  case (Cons m ms)
  have turns: "turns_for l (m # ms) = turns_for l [m] + turns_for l ms" for l by (simp add: turns_for_def)
  from two_starts_step [OF Cons.prems, of m] show ?case
  proof (elim disjE exE conjE)
    fix st1
    assume st1: "race_step files m st = Done st1" "two_starts files i k st1"
      "\<forall>l\<in>{i, k}. statements_to_go (fst st1 ! l) \<le> statements_to_go (fst st ! l) - turns_for l [m]"
    from Cons.IH [OF st1(2)] st1(1,3) show ?thesis unfolding turns by fastforce
  qed simp
qed (simp add: turns_for_def)

text \<open>
  C14 (error). Sessions that play the same track at the same time. When it is active
  already, any number of \<open>start\<close> calls, in any order with the producer, get no further than
  their test. When it is not active, two calls can both pass their tests, since the test is as far
  from the assignment in the one as in the other. And when, among any number of calls of \<open>start\<close>, two
  have passed their tests while the track had no producer, none has gone further, and its file can be opened, then in every
  schedule, with the producer, new sessions and the other calls in between (but no session leaving), that gives each of the two five
  turns, the server ends: the later one's \<open>reset\<close> destroys a producer thread that nobody has
  joined.
\<close>

theorem racing_starts:
  assumes "track_ok t"
  shows "(is_active t \<longrightarrow> (\<exists>cs t'. race_run files ms (replicate n At_Active_Test, t) = Done (cs, t')
        \<and> set cs \<subseteq> {At_Active_Test, Call_Returned} \<and> is_active t'))
    \<and> (\<not> is_active t \<longrightarrow> race_run files [Caller 0, Caller 1] (replicate (n + 2) At_Active_Test, t)
        = Done ([At_Set_Active, At_Set_Active] @ replicate n At_Active_Test, t))
    \<and> (produce_thread t = None \<and> files (url t) \<noteq> None
        \<and> i \<noteq> k \<and> i < length cs \<and> k < length cs \<and> cs ! i = At_Set_Active \<and> cs ! k = At_Set_Active
        \<and> set cs \<subseteq> {At_Active_Test, At_Set_Active, Call_Returned} \<and> 5 \<le> turns_for i ms \<and> 5 \<le> turns_for k ms
        \<longrightarrow> race_run files ms (cs, t) = Fail Terminate)"
proof (intro conjI impI)
  assume "is_active t"
  then show "\<exists>cs t'. race_run files ms (replicate n At_Active_Test, t) = Done (cs, t')
        \<and> set cs \<subseteq> {At_Active_Test, Call_Returned} \<and> is_active t'"
    using assms(1) by (intro starts_of_active) auto
next
  assume "\<not> is_active t"
  then show "race_run files [Caller 0, Caller 1] (replicate (n + 2) At_Active_Test, t)
        = Done ([At_Set_Active, At_Set_Active] @ replicate n At_Active_Test, t)"
    by (simp add: race_step_def)
next
  assume a: "produce_thread t = None \<and> files (url t) \<noteq> None
        \<and> i \<noteq> k \<and> i < length cs \<and> k < length cs \<and> cs ! i = At_Set_Active \<and> cs ! k = At_Set_Active
        \<and> set cs \<subseteq> {At_Active_Test, At_Set_Active, Call_Returned} \<and> 5 \<le> turns_for i ms \<and> 5 \<le> turns_for k ms"
  then have "two_starts files i k (cs, t)"
    using assms by (auto simp: two_starts_def behind_the_test_def track_ok_def)
  from two_starts_run [OF this, of ms] a show "race_run files ms (cs, t) = Fail Terminate"
    by (auto simp: two_starts_def)
qed

section \<open>Witnesses\<close>

definition race_track :: media_track where
  "race_track = new_track H264 demo_frame_buf ''track0'' ''v.h264''"

lemma race_track: "track_ok race_track" "\<not> is_active race_track"
  using new_track_ok [OF demo_frame_buf_length, of H264] by (simp_all add: race_track_def new_track_simps)

theorem racing_starts_witness:
  "race_run (\<lambda>_. Some [0, 0, 1, 9]) (concat (replicate 5 [Caller 0, Producer, Caller 1, New_Consumer ''C'', Caller 2]))
     ([At_Set_Active, At_Set_Active, At_Active_Test], race_track) = Fail Terminate"
proof -
  have "turns_for l (concat (replicate 5 [Caller 0, Producer, Caller 1, New_Consumer ''C'', Caller 2])) = 5" if "l \<in> {0, 1}" for l
    using that by (auto simp: turns_for_def numeral_eq_Suc)
  moreover have "produce_thread race_track = None" using race_track by (simp add: track_ok_def)
  ultimately show ?thesis
    using racing_starts [OF race_track(1), where i = 0 and k = 1 and cs = "[At_Set_Active, At_Set_Active, At_Active_Test]"
        and files = "\<lambda>_. Some [0, 0, 1, 9]" and ms = "concat (replicate 5 [Caller 0, Producer, Caller 1, New_Consumer ''C'', Caller 2])"]
    by simp
qed

theorem leaving_is_safe_witness:
  "\<exists>c t'. race_run (\<lambda>_. None) [Caller 0, New_Consumer ''B'', Producer, Caller 0] ([At_Remove ''A''], race_track) = Done ([c], t')
     \<and> (c = Call_Returned \<longrightarrow> track_ok t')"
  using leaving_is_safe [OF race_track(1), of "\<lambda>_. None" "[Caller 0, New_Consumer ''B'', Producer, Caller 0]" "''A''"] by blast

end
