(* ===== verification/SessionRaces.thy ===== *)
theory SessionRaces
  imports Session TrackRaces
begin

text \<open>
  Requests on one session at the same time. A PLAY, a PAUSE and a TEARDOWN name their session in a
  header, so two connections can be in \<open>start\<close>, \<open>pause\<close> and \<open>stop\<close> of one session, and none of its
  members is protected by a mutex. Here a request is a program counter in the body of the loop over
  the session's handlers, and requests, sender and producer step in any order. \<open>Session\<close> models each
  body as one step; the first lemma says that this is what a request without company sees.
  (\<open>start\<close> of the track is one step here; TrackRaces splits it.)
\<close>

section \<open>Statements\<close>

datatype requester =
    Play_Test            \<comment> \<open>\<open>start\<close>: at \<open>if (!v->is_active_)\<close>\<close>
  | Play_Mark
  | Play_Track
  | Play_Rtp
  | Play_Sender          \<comment> \<open>at \<open>v->sender_thread_.reset(new std::thread(...))\<close>\<close>
  | Play_Rtp_Stop
  | Pause_Clear
  | Stop_Clear           \<comment> \<open>\<open>stop\<close>: at \<open>v->is_active_ = false\<close>\<close>
  | Stop_Test
  | Stop_Join
  | Stop_Reset
  | Request_Returned
  | Request_Threw cpp_error

text \<open>
  What the requests share: the tracks, the handler, and whether the thread object in
  \<open>sender_thread_\<close> has been joined but not yet reset (it is then not joinable, and destroying it
  is harmless).
\<close>

type_synonym shared = "media_track list \<times> session_handler \<times> bool"

fun request_step :: "(string \<Rightarrow> byte list option) \<Rightarrow> requester \<Rightarrow> shared \<Rightarrow> (requester \<times> shared) outcome" where
  "request_step files Play_Test (h, v, j) = Done (if handler_active v then Request_Returned else Play_Mark, h, v, j)"
| "request_step files Play_Mark (h, v, j) = Done (Play_Track, h, v\<lparr>handler_active := True\<rparr>, j)"
| "request_step files Play_Track (h, v, j) =
     (case track_start files (h ! handler_track v) of
        (t, Done _) \<Rightarrow> Done (Play_Rtp, h[handler_track v := t], v, j)
      | (t, Wait) \<Rightarrow> Wait
      | (t, Fail (Runtime_Error m)) \<Rightarrow> Done (Request_Threw (Runtime_Error m), h[handler_track v := t], v, j)
      | (t, Fail e) \<Rightarrow> Fail e)"
| "request_step files Play_Rtp (h, v, j) =
     (case rtp_start (handler_rtp v) of
        Inl e \<Rightarrow> Fail e
      | Inr rtp \<Rightarrow> Done (Play_Sender, h, v\<lparr>handler_rtp := rtp\<rparr>, j))"
| "request_step files Play_Sender (h, v, j) =
     (if sender_thread v \<noteq> None \<and> \<not> j then Fail Terminate
      else Done (Play_Rtp_Stop, h, v\<lparr>sender_thread := Some At_Test\<rparr>, False))"
| "request_step files Play_Rtp_Stop (h, v, j) = Done (Request_Returned, h, v\<lparr>handler_rtp := rtp_stop (handler_rtp v)\<rparr>, j)"
| "request_step files Pause_Clear (h, v, j) = Done (Request_Returned, h, v\<lparr>handler_active := False\<rparr>, j)"
| "request_step files Stop_Clear (h, v, j) = Done (Stop_Test, h, v\<lparr>handler_active := False\<rparr>, j)"
| "request_step files Stop_Test (h, v, j) =
     Done (if sender_thread v \<noteq> None \<and> \<not> j then Stop_Join else Request_Returned, h, v, j)"
| "request_step files Stop_Join (h, v, j) =
     (if sender_thread v = None then Fail (Undefined ''null pointer'')
      else if j then Done (Request_Threw (Runtime_Error ''std::system_error''), h, v, j)
      else if sender_thread v = Some Sender_Returned then Done (Stop_Reset, h, v, True)
      else Wait)"
| "request_step files Stop_Reset (h, v, j) =
     (if sender_thread v \<noteq> None \<and> \<not> j then Fail Terminate
      else Done (Request_Returned, h, v\<lparr>sender_thread := None\<rparr>, False))"
| "request_step files Request_Returned st = Wait"
| "request_step files (Request_Threw e) st = Wait"

text \<open>
  Requests, the sender and the track's producer in turns; a step that waits leaves everything as it
  is. What the sender puts on the wire is not looked at here.
\<close>

datatype turn = Request nat | Sender_Turn | Producer_Turn

definition contest_step :: "(string \<Rightarrow> byte list option) \<Rightarrow> (string \<Rightarrow> bool) \<Rightarrow> string \<Rightarrow> turn \<Rightarrow>
    requester list \<times> shared \<Rightarrow> (requester list \<times> shared) outcome" where
  "contest_step files inet_ok sid m st =
     (let (cs, h, v, j) = st in
      case m of
        Request i \<Rightarrow>
          (if i < length cs then
             (case request_step files (cs ! i) (h, v, j) of
                Done (c, sh) \<Rightarrow> Done (cs[i := c], sh) | Wait \<Rightarrow> Done st | Fail e \<Rightarrow> Fail e)
           else Done st)
      | Sender_Turn \<Rightarrow>
          (case sender_step inet_ok sid (h, v) of
             Done ((h1, v1), ds) \<Rightarrow> Done (cs, h1, v1, j) | Wait \<Rightarrow> Done st | Fail e \<Rightarrow> Fail e)
      | Producer_Turn \<Rightarrow>
          (case track_producer_step (h ! handler_track v) of
             Done t \<Rightarrow> Done (cs, h[handler_track v := t], v, j) | Wait \<Rightarrow> Done st | Fail e \<Rightarrow> Fail e))"

fun contest :: "(string \<Rightarrow> byte list option) \<Rightarrow> (string \<Rightarrow> bool) \<Rightarrow> string \<Rightarrow> turn list \<Rightarrow>
    requester list \<times> shared \<Rightarrow> (requester list \<times> shared) outcome" where
  "contest files inet_ok sid [] st = Done st"
| "contest files inet_ok sid (m # ms) st =
     (case contest_step files inet_ok sid m st of Done st1 \<Rightarrow> contest files inet_ok sid ms st1 | r \<Rightarrow> r)"

section \<open>A request alone\<close>

lemma track_start_returns: "snd (track_start files t) \<noteq> Wait"
  by (auto simp: track_start_eq Let_def reset_thread_def track_open_def h264_open_def aac_open_def
      split: media_type.splits option.splits)

text \<open>A sender whose handler is not active: its next step is its last, or the one before the last.\<close>

lemma inactive_sender_step:
  assumes "\<not> handler_active v" and "sender_step inet_ok sid (h, v) = Done ((h', v'), ds)"
  shows "\<not> handler_active v' \<and> (sender_thread v' = Some Sender_Returned \<or> sender_thread v' = Some At_Test)
    \<and> (sender_thread v = Some At_Test \<longrightarrow> sender_thread v' = Some Sender_Returned)"
  using assms by (auto simp: sender_step_def split: option.splits sender.splits prod.splits outcome.splits sum.splits cpp_error.splits)

lemma sender_at_rest [simp]:
  "sender_thread v = None \<Longrightarrow> sender_step inet_ok sid (h, v) = Wait"
  "sender_thread v = Some Sender_Returned \<Longrightarrow> sender_step inet_ok sid (h, v) = Wait"
  "sender_thread v = Some At_Test \<Longrightarrow> sender_step inet_ok sid (h, v) =
     Done ((h, v\<lparr>sender_thread := Some (if handler_active v then In_Get else Sender_Returned)\<rparr>), [])"
  by (simp_all add: sender_step_def)

lemma stop_alone:
  "contest files inet_ok sid [Request 0, Request 0, Sender_Turn, Sender_Turn, Request 0, Request 0] ([Stop_Clear], h, v, False) =
     (case stop_handler inet_ok sid (h, v) of
        Done ((h', v'), _) \<Rightarrow> Done ([Request_Returned], h', v', False)
      | Wait \<Rightarrow> Done ([Stop_Join], h, v\<lparr>handler_active := False\<rparr>, False)
      | Fail e \<Rightarrow> Fail e)"
proof -
  let ?v = "v\<lparr>handler_active := False\<rparr>"
  consider "sender_thread v = None" | "sender_thread v = Some At_Test" | "sender_thread v = Some Sender_Returned"
    | "sender_thread v = Some In_Get"
    by (cases "sender_thread v") (auto intro: sender.exhaust)
  then show ?thesis
  proof cases
    case 4
    show ?thesis
    proof (cases "sender_step inet_ok sid (h, ?v)")
      case (Done r)
      obtain h1 v1 ds where r: "r = ((h1, v1), ds)" by (cases r) auto
      from inactive_sender_step [of ?v inet_ok sid h h1 v1 ds] Done r
      have "\<not> handler_active v1" "sender_thread v1 = Some Sender_Returned \<or> sender_thread v1 = Some At_Test" by simp_all
      with 4 Done r show ?thesis
        by (auto simp: contest_step_def stop_handler_def numeral_2_eq_2 run_sender.simps [where k = "Suc (Suc 0)"]
            run_sender.simps [where k = "Suc 0"] run_sender.simps [where k = 0])
    qed (use 4 in \<open>auto simp: contest_step_def stop_handler_def numeral_2_eq_2 run_sender.simps [where k = "Suc (Suc 0)"]\<close>)
  qed (simp_all add: contest_step_def stop_handler_def numeral_2_eq_2 run_sender.simps [where k = "Suc (Suc 0)"]
            run_sender.simps [where k = "Suc 0"] run_sender.simps [where k = 0])
qed

text \<open>
  A request that is not interrupted does what the one-step model of its method does to
  a handler: six statements of \<open>start\<close> give \<open>start_handler\<close>, with the same exception or failure, and
  \<open>stop\<close>, with two steps of the sender while it is in the join, gives \<open>stop_handler\<close>, and waits in
  the join exactly when that waits.
\<close>

lemma requests_alone:
  "contest files inet_ok sid (replicate 6 (Request 0)) ([Play_Test], h, v, False) =
     (case start_handler files (h, v) of
        ((h', v'), Done _) \<Rightarrow> Done ([Request_Returned], h', v', False)
      | ((h', v'), Fail (Runtime_Error m)) \<Rightarrow> Done ([Request_Threw (Runtime_Error m)], h', v', False)
      | (_, Fail e) \<Rightarrow> Fail e
      | (_, Wait) \<Rightarrow> Wait)
   \<and> contest files inet_ok sid [Request 0, Request 0, Sender_Turn, Sender_Turn, Request 0, Request 0] ([Stop_Clear], h, v, False) =
     (case stop_handler inet_ok sid (h, v) of
        Done ((h', v'), _) \<Rightarrow> Done ([Request_Returned], h', v', False)
      | Wait \<Rightarrow> Done ([Stop_Join], h, v\<lparr>handler_active := False\<rparr>, False)
      | Fail e \<Rightarrow> Fail e)"
proof
  have six: "replicate 6 m = [m, m, m, m, m, m]" for m :: turn by (simp add: numeral_eq_Suc)
  let ?t = "track_start files (h ! handler_track v)"
  obtain t r where t: "?t = (t, r)" by (cases ?t)
  with track_start_returns [of files "h ! handler_track v"] have r: "r \<noteq> Wait" by simp
  show "contest files inet_ok sid (replicate 6 (Request 0)) ([Play_Test], h, v, False) =
     (case start_handler files (h, v) of
        ((h', v'), Done _) \<Rightarrow> Done ([Request_Returned], h', v', False)
      | ((h', v'), Fail (Runtime_Error m)) \<Rightarrow> Done ([Request_Threw (Runtime_Error m)], h', v', False)
      | (_, Fail e) \<Rightarrow> Fail e
      | (_, Wait) \<Rightarrow> Wait)"
  proof (cases "handler_active v")
    case True
    then show ?thesis by (simp add: six contest_step_def start_handler_def)
  next
    case False
    show ?thesis
    proof (cases r)
      case (Fail e)
      with False t show ?thesis
        by (cases e) (simp_all add: six contest_step_def start_handler_def Let_def)
    qed (use False t r in \<open>auto simp: six contest_step_def start_handler_def Let_def rtp_start_def\<close>)
  qed
  show "contest files inet_ok sid [Request 0, Request 0, Sender_Turn, Sender_Turn, Request 0, Request 0] ([Stop_Clear], h, v, False) =
     (case stop_handler inet_ok sid (h, v) of
        Done ((h', v'), _) \<Rightarrow> Done ([Request_Returned], h', v', False)
      | Wait \<Rightarrow> Done ([Stop_Join], h, v\<lparr>handler_active := False\<rparr>, False)
      | Fail e \<Rightarrow> Fail e)"
    by (rule stop_alone)
qed

section \<open>What the threads leave alone\<close>

abbreviation rtcp_threads :: "rtp_handler \<Rightarrow> bool \<times> bool" where
  "rtcp_threads rtp \<equiv> (rtcp_send_thread rtp, rtcp_receive_thread rtp)"

lemma transmit_keeps_rtcp: "transmit inet_ok h mt l parts n = Inr (h', d) \<Longrightarrow> rtcp_threads h' = rtcp_threads h"
  by (auto simp: transmit_def bump_sequence_def bind_result_Inr_iff Let_def split: if_splits)

lemma fragments_keep_rtcp: "send_fragments inet_ok p sc off first h = Inr (h', ps) \<Longrightarrow> rtcp_threads h' = rtcp_threads h"
proof (induction inet_ok p sc off first h arbitrary: h' ps rule: send_fragments.induct)
  case (1 inet_ok p sc off first h)
  show ?case
  proof (cases "off < length p")
    case True
    with "1.prems" obtain x parts l n h1 d ps1 off1 where
      t: "transmit inet_ok h H264 l parts n = Inr (h1, d)" and
      "send_fragments inet_ok p sc off1 False h1 = Inr (h', ps1)"
      and x: "read_at p sc = Inr x" "off1 = off + min (max_payload_size - 2) (length p - off)"
      "l = (off + min (max_payload_size - 2) (length p - off) = length p)"
      "parts = [(sizeof_RTPHeader, [fu_indicator x]), (sizeof_RTPHeader + 1, [fu_header first l x]),
         (sizeof_RTPHeader + 2, take (min (max_payload_size - 2) (length p - off)) (drop off p))]"
      "n = sizeof_RTPHeader + 2 + min (max_payload_size - 2) (length p - off)"
      by (subst (asm) send_fragments.simps) (auto simp: bind_result_Inr_iff Let_def)
    with "1.IH" [OF True refl refl refl] have "rtcp_threads h' = rtcp_threads h1" by simp
    with transmit_keeps_rtcp [OF t] show ?thesis by simp
  next
    case False
    with "1.prems" show ?thesis by (subst (asm) send_fragments.simps) simp
  qed
qed

lemma send_h264_keeps_rtcp:
  assumes "send_h264 inet_ok f rtp = Inr (rtp', ds)"
  shows "rtcp_threads rtp' = rtcp_threads rtp"
proof -
  from assms obtain sc where sc: "start_code_length f = Inr sc" by (auto simp: send_h264_def bind_result_Inr_iff)
  show ?thesis
  proof (cases sc)
    case None
    with assms sc show ?thesis by (simp add: send_h264_def)
  next
    case (Some n)
    show ?thesis
    proof (cases "max_payload_size < length f - n")
      case True
      with assms sc Some show ?thesis
        by (auto simp: send_h264_def bind_result_Inr_iff dest!: fragments_keep_rtcp)
    next
      case False
      with assms sc Some obtain h1 p x where
        t: "transmit inet_ok rtp H264 True [(sizeof_RTPHeader, drop n f)] (sizeof_RTPHeader + length f - n) = Inr (h1, p)"
        and "rtp' = (if (x :: byte) AND 0x1F \<noteq> 7 \<and> x AND 0x1F \<noteq> 8
                   then h1\<lparr>timestamp := timestamp h1 + timestamp_increment h1\<rparr> else h1)
                  \<lparr>total_rtp_packet_sent := total_rtp_packet_sent h1 + 1\<rparr>"
        by (auto simp: send_h264_def bind_result_Inr_iff Let_def simp del: if_split)
      with transmit_keeps_rtcp [OF t] show ?thesis by simp
    qed
  qed
qed

lemma send_keeps_rtcp: "send_rtp_packet inet_ok f mt rtp = Inr (rtp', ds) \<Longrightarrow> rtcp_threads rtp' = rtcp_threads rtp"
  by (cases mt)
    (auto simp: send_rtp_packet_def send_aac_def bind_result_Inr_iff Let_def dest!: send_h264_keeps_rtcp transmit_keeps_rtcp)

text \<open>A step of the sender changes its track's queue, its own position and the counters of its packets.\<close>

lemma sender_turn:
  assumes "track_ok (h ! handler_track v)" and "sender_step inet_ok sid (h, v) = Done ((h', v'), ds)"
  shows "\<exists>q. h' = h[handler_track v := (h ! handler_track v)\<lparr>frame_queue := q\<rparr>] \<and> cq_wf q
    \<and> exit_flag q = exit_flag (frame_queue (h ! handler_track v))
    \<and> handler_track v' = handler_track v \<and> handler_active v' = handler_active v
    \<and> sender_thread v \<noteq> None \<and> sender_thread v \<noteq> Some Sender_Returned \<and> sender_thread v' \<noteq> None
    \<and> rtcp_threads (handler_rtp v') = rtcp_threads (handler_rtp v)"
proof -
  let ?t = "h ! handler_track v" let ?q = "frame_queue ?t"
  have wf: "cq_wf ?q" using assms(1) by (simp add: track_ok_def)
  have same: "h = h[handler_track v := ?t\<lparr>frame_queue := ?q\<rparr>]" by simp
  consider "sender_thread v = None" | "sender_thread v = Some At_Test" | "sender_thread v = Some Sender_Returned"
    | "sender_thread v = Some In_Get"
    by (cases "sender_thread v") (auto intro: sender.exhaust)
  then show ?thesis
  proof cases
    case 2
    with assms(2) wf show ?thesis by (intro exI [of _ ?q]) auto
  next
    case 4
    have "cq_wf (fst (consume None sid ?q)) \<and> exit_flag (fst (consume None sid ?q)) = exit_flag ?q"
      using cq_wf_consume [OF wf, of None sid] consume_frame [OF wf, of None sid] by simp
    with 4 assms(2) show ?thesis
      by (intro exI [of _ "fst (consume None sid ?q)"])
        (auto simp: sender_step_def track_get_simp split: prod.splits outcome.splits option.splits sum.splits cpp_error.splits
          dest: send_keeps_rtcp)
  qed (use assms(2) in simp_all)
qed

lemma track_ok_queue:
  "track_ok t \<Longrightarrow> cq_wf q \<Longrightarrow> exit_flag q = exit_flag (frame_queue t) \<Longrightarrow> track_ok (t\<lparr>frame_queue := q\<rparr>)"
  by (simp add: track_ok_def)

section \<open>PLAY at the same time\<close>

text \<open>A track whose \<open>start\<close> does not throw: it is active, or its file is open or can be opened.\<close>

definition openable :: "(string \<Rightarrow> byte list option) \<Rightarrow> media_track \<Rightarrow> bool" where
  "openable files t \<longleftrightarrow> track_ok t \<and> (is_active t \<or> is_open (in_file (track_reader t)) \<or> files (url t) \<noteq> None)"

lemma openable_start:
  assumes "openable files t"
  shows "\<exists>t'. track_start files t = (t', Done ()) \<and> openable files t'"
proof -
  obtain t' r where t': "track_start files t = (t', r)" "track_ok t'" "is_active t'"
    using track_start_ok [of t files] assms by (auto simp: openable_def)
  have "r = Done ()"
  proof (cases "is_active t")
    case True
    with t'(1) show ?thesis by (simp add: track_start_is_active)
  next
    case False
    with assms have "produce_thread t = None" "is_open (in_file (track_reader t)) \<or> files (url t) \<noteq> None"
      by (simp_all add: openable_def track_ok_def)
    with False t'(1) show ?thesis
      by (cases "kind t"; cases "is_open (in_file (track_reader t))")
        (auto simp: track_start_eq Let_def reset_thread_def track_open_def h264_open_def aac_open_def open_file_def)
  qed
  with t' show ?thesis by (simp add: openable_def)
qed

lemma openable_step:
  assumes "openable files t" and "track_producer_step t = r"
  shows "r = Wait \<or> (\<exists>t'. r = Done t' \<and> openable files t')"
proof (cases "is_active t")
  case True
  then show ?thesis using assms track_step_ok [of t] track_step_active [of t] by (auto simp: openable_def)
next
  case False
  with assms show ?thesis by (auto simp: openable_def track_ok_def track_step_inactive(2))
qed

lemma openable_queue:
  "openable files t \<Longrightarrow> cq_wf q \<Longrightarrow> exit_flag q = exit_flag (frame_queue t) \<Longrightarrow> openable files (t\<lparr>frame_queue := q\<rparr>)"
  by (auto simp: openable_def track_ok_queue)

text \<open>Where a PLAY is that has passed its test, and how many statements it has left.\<close>

definition past_test :: "requester set" where
  "past_test = {Play_Mark, Play_Track, Play_Rtp, Play_Sender, Play_Rtp_Stop, Request_Returned}"

fun statements_left :: "requester \<Rightarrow> nat" where
  "statements_left Play_Mark = 5"
| "statements_left Play_Track = 4"
| "statements_left Play_Rtp = 3"
| "statements_left Play_Sender = 2"
| "statements_left Play_Rtp_Stop = 1"
| "statements_left c = 0"

definition plays_and_pauses :: "requester set" where
  "plays_and_pauses = {Play_Test, Pause_Clear} \<union> past_test"

lemma play_or_pause_step:
  assumes "c \<in> plays_and_pauses" and "openable files (h ! handler_track v)" and "handler_track v < length h"
    and "request_step files c (h, v, False) = r"
  shows "r = Wait \<and> c = Request_Returned \<or> (\<exists>e. r = Fail e) \<or>
    (\<exists>c' h' v'. r = Done (c', h', v', False) \<and> length h' = length h \<and> handler_track v' = handler_track v
       \<and> openable files (h' ! handler_track v) \<and> c' \<in> plays_and_pauses
       \<and> (c \<in> past_test \<longrightarrow> c' \<in> past_test \<and> statements_left c' = statements_left c - 1)
       \<and> (sender_thread v \<noteq> None \<longrightarrow> sender_thread v' \<noteq> None)
       \<and> (c = Play_Sender \<longrightarrow> sender_thread v = None \<and> sender_thread v' \<noteq> None))"
proof -
  consider "c = Play_Track" | "c = Play_Sender" | "c \<noteq> Play_Track" "c \<noteq> Play_Sender" by blast
  then show ?thesis
  proof cases
    case 1
    with openable_start [OF assms(2)] assms(3,4) show ?thesis
      by (auto simp: plays_and_pauses_def past_test_def)
  next
    case 2
    show ?thesis
    proof (cases "sender_thread v = None")
      case True
      with 2 assms(2,4) show ?thesis
        by (intro disjI2 exI [of _ Play_Rtp_Stop] exI [of _ h] exI [of _ "v\<lparr>sender_thread := Some At_Test\<rparr>"])
          (auto simp: plays_and_pauses_def past_test_def)
    qed (use 2 assms(4) in auto)
  qed (use assms in \<open>auto simp: plays_and_pauses_def past_test_def rtp_start_def split: if_splits\<close>)
qed

text \<open>
  Two PLAYs past their tests: only one of them can have created the sender.
\<close>

definition two_plays :: "(string \<Rightarrow> byte list option) \<Rightarrow> nat \<Rightarrow> nat \<Rightarrow> requester list \<times> shared \<Rightarrow> bool" where
  "two_plays files i k st \<longleftrightarrow>
     (let (cs, h, v, j) = st in
      i \<noteq> k \<and> i < length cs \<and> k < length cs \<and> set cs \<subseteq> plays_and_pauses \<and> cs ! i \<in> past_test \<and> cs ! k \<in> past_test
      \<and> handler_track v < length h \<and> openable files (h ! handler_track v) \<and> \<not> j
      \<and> (sender_thread v = None \<longrightarrow> 2 \<le> statements_left (cs ! i) \<and> 2 \<le> statements_left (cs ! k))
      \<and> \<not> (statements_left (cs ! i) \<le> 1 \<and> statements_left (cs ! k) \<le> 1))"

definition turns_of :: "nat \<Rightarrow> turn list \<Rightarrow> nat" where
  "turns_of i ms = length (filter (\<lambda>m. m = Request i) ms)"

lemma two_plays_step:
  assumes "two_plays files i k (cs, h, v, j)" and "contest_step files inet_ok sid m (cs, h, v, j) = r"
  shows "(\<exists>e. r = Fail e) \<or> (\<exists>cs' sh'. r = Done (cs', sh') \<and> two_plays files i k (cs', sh')
    \<and> (\<forall>l\<in>{i, k}. statements_left (cs' ! l) = statements_left (cs ! l) - turns_of l [m]))"
proof (cases m)
  case (Request l)
  show ?thesis
  proof (cases "l < length cs")
    case True
    have a: "i \<noteq> k" "i < length cs" "k < length cs" "set cs \<subseteq> plays_and_pauses" "cs ! i \<in> past_test" "cs ! k \<in> past_test"
      "handler_track v < length h" "openable files (h ! handler_track v)" "\<not> j"
      "sender_thread v = None \<longrightarrow> 2 \<le> statements_left (cs ! i) \<and> 2 \<le> statements_left (cs ! k)"
      "\<not> (statements_left (cs ! i) \<le> 1 \<and> statements_left (cs ! k) \<le> 1)"
      using assms(1) by (auto simp: two_plays_def)
    have "cs ! l \<in> plays_and_pauses" using a(4) True nth_mem by blast
    note step = play_or_pause_step [OF this a(8,7) refl]
    have two: "statements_left c = 2 \<longleftrightarrow> c = Play_Sender" for c by (cases c) auto
    consider "request_step files (cs ! l) (h, v, False) = Wait" "cs ! l = Request_Returned"
      | e where "request_step files (cs ! l) (h, v, False) = Fail e"
      | c' h' v' where "request_step files (cs ! l) (h, v, False) = Done (c', h', v', False)" "length h' = length h"
        "handler_track v' = handler_track v" "openable files (h' ! handler_track v)" "c' \<in> plays_and_pauses"
        "cs ! l \<in> past_test \<longrightarrow> c' \<in> past_test \<and> statements_left c' = statements_left (cs ! l) - 1"
        "sender_thread v \<noteq> None \<longrightarrow> sender_thread v' \<noteq> None"
        "cs ! l = Play_Sender \<longrightarrow> sender_thread v = None \<and> sender_thread v' \<noteq> None"
      using step by blast
    then show ?thesis
    proof cases
      case 1
      with Request True assms a(9) show ?thesis by (auto simp: contest_step_def turns_of_def)
    next
      case 2
      with Request True assms(2) a(9) have "r = Fail e" by (auto simp: contest_step_def)
      then show ?thesis by simp
    next
      case 3
      have r: "r = Done (cs[l := c'], h', v', False)" using 3(1) Request True assms(2) a(9) by (simp add: contest_step_def)
      have "set (cs[l := c']) \<subseteq> plays_and_pauses"
        using a(4) 3(5) set_update_subset_insert [of cs l c'] by blast
      moreover have "cs[l := c'] ! n \<in> past_test \<and> statements_left (cs[l := c'] ! n) = statements_left (cs ! n) - turns_of n [m]"
        if "n \<in> {i, k}" for n
        using that a(2,3,5,6) 3(6) Request by (cases "n = l") (auto simp: turns_of_def)
      moreover have "sender_thread v' = None \<longrightarrow>
          2 \<le> statements_left (cs[l := c'] ! i) \<and> 2 \<le> statements_left (cs[l := c'] ! k)"
        "\<not> (statements_left (cs[l := c'] ! i) \<le> 1 \<and> statements_left (cs[l := c'] ! k) \<le> 1)"
        using a(1-3,5,6,10,11) 3(6-8) two [of "cs ! i"] two [of "cs ! k"]
        by (cases "l = i"; cases "l = k"; force)+
      ultimately show ?thesis using r a(1-3,7) 3(2-4) by (simp add: two_plays_def)
    qed
  next
    case False
    with Request assms show ?thesis by (auto simp: contest_step_def turns_of_def two_plays_def)
  qed
next
  case Sender_Turn
  have a: "handler_track v < length h" "openable files (h ! handler_track v)" using assms(1) by (auto simp: two_plays_def)
  show ?thesis
  proof (cases "sender_step inet_ok sid (h, v)")
    case (Done x)
    obtain h' v' ds where x: "x = ((h', v'), ds)" by (cases x) auto
    obtain q where q: "h' = h[handler_track v := (h ! handler_track v)\<lparr>frame_queue := q\<rparr>]" "cq_wf q"
      "exit_flag q = exit_flag (frame_queue (h ! handler_track v))" "handler_track v' = handler_track v"
      "sender_thread v \<noteq> None" "sender_thread v' \<noteq> None"
      using sender_turn [of h v inet_ok sid h' v' ds] Done x a(2) by (auto simp: openable_def)
    with assms Done x a openable_queue [OF a(2) q(2,3)] Sender_Turn show ?thesis
      by (auto simp: contest_step_def two_plays_def turns_of_def)
  qed (use assms Sender_Turn in \<open>auto simp: contest_step_def turns_of_def\<close>)
next
  case Producer_Turn
  have "openable files (h ! handler_track v)" using assms(1) by (auto simp: two_plays_def)
  from openable_step [OF this refl] assms Producer_Turn show ?thesis
    by (auto simp: contest_step_def two_plays_def turns_of_def)
qed

lemma two_plays_contest:
  "two_plays files i k st \<Longrightarrow> (\<exists>e. contest files inet_ok sid ms st = Fail e) \<or>
    (\<exists>st'. contest files inet_ok sid ms st = Done st' \<and> two_plays files i k st'
      \<and> (\<forall>l\<in>{i, k}. statements_left (fst st' ! l) = statements_left (fst st ! l) - turns_of l ms))"
proof (induction ms arbitrary: st)
  case Nil
  then show ?case by (simp add: turns_of_def)
next
  case (Cons m ms)
  obtain cs h v j where st: "st = (cs, h, v, j)" by (cases st) auto
  from two_plays_step [OF Cons.prems [unfolded st], of inet_ok sid m] consider
      e where "contest_step files inet_ok sid m st = Fail e"
    | cs' sh' where "contest_step files inet_ok sid m st = Done (cs', sh')" "two_plays files i k (cs', sh')"
      "\<forall>l\<in>{i, k}. statements_left (cs' ! l) = statements_left (cs ! l) - turns_of l [m]"
    unfolding st by blast
  then show ?case
  proof cases
    case 2
    have "turns_of l (m # ms) = turns_of l [m] + turns_of l ms" for l by (simp add: turns_of_def)
    with Cons.IH [OF 2(2)] 2(1,3) st show ?thesis by auto
  qed simp
qed

text \<open>
  C16 (error). Two PLAYs of one session, whose track is active or has a file that can be opened, at
  the same time end the server. Once two requests have passed
  the test of \<open>is_active_\<close>, both will create a sender, and the second one's \<open>reset\<close> destroys the
  thread of the first, which nobody has joined (or, before that, one of them starts RTCP threads
  while those of the other are there): in every schedule that lets both finish, whatever the
  sender, the producer, other PLAYs and PAUSEs do in between, the program fails. The test does
  not keep the second one out, since it is as far from the assignment as the first.
\<close>

theorem racing_plays:
  assumes "i \<noteq> k" and "i < length cs" and "k < length cs" and "cs ! i = Play_Mark" and "cs ! k = Play_Mark"
    and "set cs \<subseteq> {Play_Test, Play_Mark, Pause_Clear, Request_Returned}"
    and "handler_track v < length h" and "openable files (h ! handler_track v)"
    and "5 \<le> turns_of i ms" and "5 \<le> turns_of k ms"
  shows "(\<exists>e. contest files inet_ok sid ms (cs, h, v, False) = Fail e)
    \<and> contest files inet_ok sid [Request i, Request k] (cs[i := Play_Test, k := Play_Test], h, v\<lparr>handler_active := False\<rparr>, False)
        = Done (cs, h, v\<lparr>handler_active := False\<rparr>, False)"
proof
  have "two_plays files i k (cs, h, v, False)"
    using assms(1-8) by (auto simp: two_plays_def plays_and_pauses_def past_test_def)
  from two_plays_contest [OF this, of inet_ok sid ms] consider
      e where "contest files inet_ok sid ms (cs, h, v, False) = Fail e"
    | cs' sh' where "contest files inet_ok sid ms (cs, h, v, False) = Done (cs', sh')" "two_plays files i k (cs', sh')"
      "statements_left (cs' ! i) = 0" "statements_left (cs' ! k) = 0"
    using assms(4,5,9,10) by auto
  then show "\<exists>e. contest files inet_ok sid ms (cs, h, v, False) = Fail e"
    by cases (auto simp: two_plays_def)
  have "cs[i := Play_Test, k := Play_Test, i := Play_Mark, k := Play_Mark] = cs"
    using assms(1,4,5) by (metis list_update_id list_update_overwrite list_update_swap)
  then show "contest files inet_ok sid [Request i, Request k] (cs[i := Play_Test, k := Play_Test], h, v\<lparr>handler_active := False\<rparr>, False)
        = Done (cs, h, v\<lparr>handler_active := False\<rparr>, False)"
    using assms(1-3) by (auto simp: contest_step_def)
qed

section \<open>PLAY and TEARDOWN at the same time\<close>

text \<open>
  The first PLAY of a handler (request 0), the \<open>stop\<close> of a TEARDOWN (request 1; \<open>terminate_session\<close>
  runs it under \<open>sessions_mutex_\<close>, so there is one at a time), and any number of PAUSEs.
\<close>

fun first_play :: "requester \<Rightarrow> session_handler \<Rightarrow> bool" where
  "first_play Play_Sender v \<longleftrightarrow> sender_thread v = None \<and> rtcp_threads (handler_rtp v) = (True, True)"
| "first_play Play_Rtp_Stop v \<longleftrightarrow> rtcp_threads (handler_rtp v) = (True, True)"
| "first_play Request_Returned v \<longleftrightarrow> rtcp_threads (handler_rtp v) = (False, False)"
| "first_play c v \<longleftrightarrow> sender_thread v = None \<and> rtcp_threads (handler_rtp v) = (False, False)
     \<and> (c \<in> past_test \<union> {Play_Test} \<or> (\<exists>m. c = Request_Threw (Runtime_Error m)))"

fun one_stop :: "requester \<Rightarrow> session_handler \<Rightarrow> bool \<Rightarrow> bool" where
  "one_stop Stop_Join v j \<longleftrightarrow> sender_thread v \<noteq> None \<and> \<not> j"
| "one_stop Stop_Reset v j \<longleftrightarrow> sender_thread v = Some Sender_Returned \<and> j"
| "one_stop c v j \<longleftrightarrow> c \<in> {Stop_Clear, Stop_Test, Request_Returned} \<and> \<not> j"

definition play_and_stop :: "requester list \<times> shared \<Rightarrow> bool" where
  "play_and_stop st \<longleftrightarrow>
     (let (cs, h, v, j) = st in
      2 \<le> length cs \<and> first_play (cs ! 0) v \<and> one_stop (cs ! 1) v j \<and> (\<forall>i. 2 \<le> i \<and> i < length cs \<longrightarrow> cs ! i \<in> {Pause_Clear, Request_Returned})
      \<and> handler_track v < length h \<and> track_ok (h ! handler_track v))"

lemma pause_ignored [simp]:
  "first_play c (v\<lparr>handler_active := b\<rparr>) = first_play c v"
  "one_stop c (v\<lparr>handler_active := b\<rparr>) j = one_stop c v j"
  by (cases c; simp)+

lemma play_and_stop_step:
  assumes "play_and_stop (cs, h, v, j)" and "contest_step files inet_ok sid m (cs, h, v, j) = r"
  shows "(\<exists>st'. r = Done st' \<and> play_and_stop st') \<or> (m = Sender_Turn \<and> (\<exists>e. sender_step inet_ok sid (h, v) = Fail e))"
proof -
  have a: "2 \<le> length cs" "first_play (cs ! 0) v" "one_stop (cs ! 1) v j"
    "\<forall>i. 2 \<le> i \<and> i < length cs \<longrightarrow> cs ! i \<in> {Pause_Clear, Request_Returned}"
    "handler_track v < length h" "track_ok (h ! handler_track v)"
    using assms(1) by (auto simp: play_and_stop_def)
  show ?thesis
  proof (cases m)
    case (Request i)
    consider "i = 0" | "i = 1" | "2 \<le> i" by linarith
    then show ?thesis
    proof cases
      case 1
      from track_start_ok [OF a(6), of files] obtain t r1 where
        "track_start files (h ! handler_track v) = (t, r1)" "track_ok t" "r1 = Done () \<or> (\<exists>e. r1 = Fail (Runtime_Error e))" by blast
      with 1 a Request assms(2) show ?thesis
        by (cases "cs ! 0"; cases "cs ! 1"; cases "handler_active v")
          (auto simp: contest_step_def play_and_stop_def past_test_def rtp_start_def rtp_stop_def)
    next
      case 2
      with a Request assms(2) show ?thesis
        by (cases "cs ! 1"; cases "cs ! 0"; cases "sender_thread v")
          (auto simp: contest_step_def play_and_stop_def past_test_def)
    next
      case 3
      show ?thesis
      proof (cases "i < length cs")
        case True
        with a(4) 3 have "cs ! i = Pause_Clear \<or> cs ! i = Request_Returned" by simp
        with True 3 a Request assms(2) show ?thesis
          by (elim disjE) (auto simp: contest_step_def play_and_stop_def nth_list_update)
      qed (use Request assms in \<open>auto simp: contest_step_def\<close>)
    qed
  next
    case Sender_Turn
    show ?thesis
    proof (cases "sender_step inet_ok sid (h, v)")
      case (Done x)
      obtain h' v' ds where x: "x = ((h', v'), ds)" by (cases x) auto
      obtain q where q: "h' = h[handler_track v := (h ! handler_track v)\<lparr>frame_queue := q\<rparr>]" "cq_wf q"
        "exit_flag q = exit_flag (frame_queue (h ! handler_track v))" "handler_track v' = handler_track v"
        "sender_thread v \<noteq> None" "sender_thread v \<noteq> Some Sender_Returned" "sender_thread v' \<noteq> None"
        "rtcp_threads (handler_rtp v') = rtcp_threads (handler_rtp v)"
        using sender_turn [OF a(6), of inet_ok sid h' v' ds] Done x by auto
      have "first_play (cs ! 0) v'" "one_stop (cs ! 1) v' j"
        using a(2,3) q(5-8) by (cases "cs ! 0"; auto; fail | cases "cs ! 1"; auto; fail)+
      with assms(2) Done x a q Sender_Turn track_ok_queue [OF a(6) q(2,3)] show ?thesis
        by (auto simp: contest_step_def play_and_stop_def)
    qed (use assms Sender_Turn in \<open>auto simp: contest_step_def\<close>)
  next
    case Producer_Turn
    with track_step_ok [OF a(6)] a assms(2) show ?thesis by (auto simp: contest_step_def play_and_stop_def)
  qed
qed

lemma play_and_stop_contest:
  "play_and_stop st \<Longrightarrow> (\<exists>st'. contest files inet_ok sid ms st = Done st' \<and> play_and_stop st')
    \<or> (\<exists>ms1 ms2 cs h v j e. ms = ms1 @ Sender_Turn # ms2 \<and> contest files inet_ok sid ms1 st = Done (cs, h, v, j)
        \<and> sender_step inet_ok sid (h, v) = Fail e)"
proof (induction ms arbitrary: st)
  case (Cons m ms)
  obtain cs h v j where st: "st = (cs, h, v, j)" by (cases st) auto
  from play_and_stop_step [OF Cons.prems [unfolded st] refl, of files inet_ok sid m] consider
      st1 where "contest_step files inet_ok sid m st = Done st1" "play_and_stop st1"
    | e where "m = Sender_Turn" "sender_step inet_ok sid (h, v) = Fail e"
    unfolding st by blast
  then show ?case
  proof cases
    case 1
    from Cons.IH [OF 1(2)] show ?thesis
    proof (elim disjE exE conjE)
      fix ms1 ms2 cs h v j e
      assume "ms = ms1 @ Sender_Turn # ms2" "contest files inet_ok sid ms1 st1 = Done (cs, h, v, j)"
        "sender_step inet_ok sid (h, v) = Fail e"
      with 1(1) show ?thesis
        by (intro disjI2 exI [of _ "m # ms1"] exI [of _ ms2] exI [of _ cs] exI [of _ h] exI [of _ v] exI [of _ j] exI [of _ e]) simp
    qed (use 1(1) in auto)
  next
    case 2
    then show ?thesis using st
      by (intro disjI2 exI [of _ "[]"] exI [of _ ms] exI [of _ cs] exI [of _ h] exI [of _ v] exI [of _ j] exI [of _ e]) simp
  qed
qed simp

text \<open>
  C15 (safety). TEARDOWN during the first PLAY of a session is harmless: \<open>start\<close>, \<open>stop\<close> and any number
  of PAUSEs, in any order with the sender and the producer, neither destroy a thread nor join one
  that is not there; a run that fails, fails in the sender's own step (a frame that cannot be sent).
  When both have returned no RTCP thread is left, and the handle is empty or holds a thread that
  the session's destructor can join. TEARDOWN during a later PLAY is not: \<open>stop\<close> has cleared
  \<open>is_active_\<close> and waits in the join, so a PLAY passes its test, and destroys the thread that \<open>stop\<close> is
  joining.
\<close>

theorem play_during_teardown:
  assumes "handler_track v < length h" and "track_ok (h ! handler_track v)"
  shows "(fresh_handler v \<longrightarrow>
      (\<exists>cs h' v' j. contest files inet_ok sid ms ([Play_Test, Stop_Clear] @ replicate n Pause_Clear, h, v, False) = Done (cs, h', v', j)
         \<and> track_ok (h' ! handler_track v')
         \<and> (cs ! 0 = Request_Returned \<and> cs ! 1 = Request_Returned \<longrightarrow> \<not> j \<and> rtcp_threads (handler_rtp v') = (False, False)))
      \<or> (\<exists>ms1 ms2 cs h' v' j e. ms = ms1 @ Sender_Turn # ms2
         \<and> contest files inet_ok sid ms1 ([Play_Test, Stop_Clear] @ replicate n Pause_Clear, h, v, False) = Done (cs, h', v', j)
         \<and> sender_step inet_ok sid (h', v') = Fail e))
    \<and> (playing_handler v \<and> openable files (h ! handler_track v) \<longrightarrow>
       contest files inet_ok sid ([Request 1, Request 1] @ replicate 5 (Request 0)) ([Play_Test, Stop_Clear], h, v, False) = Fail Terminate)"
proof (intro conjI impI)
  assume "fresh_handler v"
  then have "play_and_stop ([Play_Test, Stop_Clear] @ replicate n Pause_Clear, h, v, False)"
    using assms by (auto simp: play_and_stop_def fresh_handler_def nth_append nth_Cons')
  from play_and_stop_contest [OF this, of files inet_ok sid ms]
  show "(\<exists>cs h' v' j. contest files inet_ok sid ms ([Play_Test, Stop_Clear] @ replicate n Pause_Clear, h, v, False) = Done (cs, h', v', j)
         \<and> track_ok (h' ! handler_track v')
         \<and> (cs ! 0 = Request_Returned \<and> cs ! 1 = Request_Returned \<longrightarrow> \<not> j \<and> rtcp_threads (handler_rtp v') = (False, False)))
      \<or> (\<exists>ms1 ms2 cs h' v' j e. ms = ms1 @ Sender_Turn # ms2
         \<and> contest files inet_ok sid ms1 ([Play_Test, Stop_Clear] @ replicate n Pause_Clear, h, v, False) = Done (cs, h', v', j)
         \<and> sender_step inet_ok sid (h', v') = Fail e)"
    by (elim disjE exE conjE) (auto simp: play_and_stop_def)
next
  assume "playing_handler v \<and> openable files (h ! handler_track v)"
  moreover from this obtain t where "track_start files (h ! handler_track v) = (t, Done ())" using openable_start by blast
  moreover have "replicate 5 m = [m, m, m, m, m]" for m :: turn by (simp add: numeral_eq_Suc)
  ultimately show "contest files inet_ok sid ([Request 1, Request 1] @ replicate 5 (Request 0)) ([Play_Test, Stop_Clear], h, v, False) = Fail Terminate"
    by (auto simp: contest_step_def playing_handler_def rtp_start_def)
qed

section \<open>Witnesses\<close>

lemma demo_openable: "openable (\<lambda>_. Some [0, 0, 1, 9, 9]) demo_track"
  using new_track_ok [OF demo_frame_buf_length, of H264 "''track0''" "''v.h264''"]
  by (simp add: openable_def demo_track_def)

text \<open>Two PLAYs in step, with the sender and the producer between their statements.\<close>

theorem racing_plays_witness:
  "\<exists>e. contest (\<lambda>_. Some [0, 0, 1, 9, 9]) (\<lambda>_. True) ''A'' (concat (replicate 5 [Request 0, Sender_Turn, Request 1, Producer_Turn]))
     ([Play_Mark, Play_Mark], [demo_track], demo_session_handler, False) = Fail e"
proof -
  have "turns_of l (concat (replicate 5 [Request 0, Sender_Turn, Request 1, Producer_Turn])) = 5" if "l \<in> {0, 1}" for l
    using that by (auto simp: turns_of_def numeral_eq_Suc)
  then show ?thesis
    using racing_plays [where i = 0 and k = 1 and cs = "[Play_Mark, Play_Mark]" and v = demo_session_handler and h = "[demo_track]"
        and sid = "''A''" and inet_ok = "\<lambda>_. True" and files = "\<lambda>_. Some [0, 0, 1, 9, 9]"
        and ms = "concat (replicate 5 [Request 0, Sender_Turn, Request 1, Producer_Turn])"] demo_openable
    by (simp add: demo_session_handler_def)
qed

theorem play_during_teardown_witness:
  "(\<exists>cs h' v' j. contest (\<lambda>_. Some [0, 0, 1, 9, 9]) (\<lambda>_. True) ''A'' [Request 0, Request 1, Request 2, Request 0, Producer_Turn, Request 0]
       ([Play_Test, Stop_Clear, Pause_Clear], [demo_track], demo_session_handler, False) = Done (cs, h', v', j))
   \<and> contest (\<lambda>_. Some [0, 0, 1, 9, 9]) (\<lambda>_. True) ''A'' ([Request 1, Request 1] @ replicate 5 (Request 0))
       ([Play_Test, Stop_Clear], [demo_track], demo_session_handler\<lparr>handler_active := True, sender_thread := Some In_Get,
         handler_rtp := rtp_stop demo_handler\<rparr>, False) = Fail Terminate"
proof
  let ?files = "\<lambda>_. Some [0, 0, 1, 9, 9]" and ?ms = "[Request 0, Request 1, Request 2, Request 0, Producer_Turn, Request 0]"
  let ?v = "demo_session_handler\<lparr>handler_active := True, sender_thread := Some In_Get, handler_rtp := rtp_stop demo_handler\<rparr>"
  have track: "handler_track demo_session_handler < length [demo_track]" "handler_track ?v < length [demo_track]"
    "track_ok ([demo_track] ! handler_track demo_session_handler)" "track_ok ([demo_track] ! handler_track ?v)"
    "openable ?files ([demo_track] ! handler_track ?v)"
    using demo_openable by (simp_all add: demo_session_handler_def openable_def)
  have "fresh_handler demo_session_handler" using demo_session_fresh by (simp add: demo_session_def)
  moreover have "[Play_Test, Stop_Clear] @ replicate 1 Pause_Clear = [Play_Test, Stop_Clear, Pause_Clear]" by simp
  moreover have "Sender_Turn \<notin> set ?ms" by simp
  then have "?ms \<noteq> ms1 @ Sender_Turn # ms2" for ms1 ms2 by (metis in_set_conv_decomp)
  ultimately show "\<exists>cs h' v' j. contest ?files (\<lambda>_. True) ''A'' ?ms
       ([Play_Test, Stop_Clear, Pause_Clear], [demo_track], demo_session_handler, False) = Done (cs, h', v', j)"
    using play_during_teardown [OF track(1,3), of ?files "\<lambda>_. True" "''A''" ?ms 1] by metis
  have "playing_handler ?v" by (simp add: playing_handler_def rtp_stop_def)
  with track(5) show "contest ?files (\<lambda>_. True) ''A'' ([Request 1, Request 1] @ replicate 5 (Request 0))
       ([Play_Test, Stop_Clear], [demo_track], ?v, False) = Fail Terminate"
    using play_during_teardown [OF track(2,4), of ?files "\<lambda>_. True" "''A''"] by blast
qed

end
