(* ===== verification/ManagerRaces.thy ===== *)
theory ManagerRaces
  imports ConnectionHandler
begin

text \<open>
  The \<open>SessionManager\<close> between two calls. Each of its methods holds \<open>sessions_mutex_\<close>, but PLAY, PAUSE and
  TEARDOWN make two calls, \<open>session_exists\<close> and then \<open>get_session\<close> or \<open>terminate_session\<close>, and the
  requests of other connections can come in between. \<open>ConnectionHandler\<close> handles a request in one
  step; here it is the two calls, of any number of requests in any order. (A \<open>terminate_session\<close> that
  waits in a join does so with the mutex held; here it has then not begun, and Deadlock looks at that. SETUP, which alone makes
  sessions, is not among the requests here.)
\<close>

section \<open>Calls\<close>

datatype visit = Visit_Play | Visit_Pause | Visit_Teardown

datatype visitor =
    Asks visit string    \<comment> \<open>at \<open>session_exists\<close>\<close>
  | Acts visit string    \<comment> \<open>at the second call\<close>
  | Answered status_code
  | Visit_Threw cpp_error

fun visitor_step :: "env \<Rightarrow> visitor \<Rightarrow> world \<Rightarrow> (visitor \<times> world) outcome" where
  "visitor_step env (Asks a sid) w = Done (if session_exists sid w then Acts a sid else Answered NotFound, w)"
| "visitor_step env (Acts Visit_Play sid) w =
     (case get_session sid w of
        None \<Rightarrow> Fail (Undefined ''null pointer'')
      | Some s \<Rightarrow>
          let ((h, s1), r) = session_start (env_files env) (heap (lib w), s);
              w1 = set_heap h (w\<lparr>sessions := umap_put sid s1 (sessions w)\<rparr>) in
          (case r of
             Done _ \<Rightarrow> Done (Answered OK, w1)
           | Wait \<Rightarrow> Wait
           | Fail (Runtime_Error m) \<Rightarrow> Done (Visit_Threw (Runtime_Error m), w1)
           | Fail e \<Rightarrow> Fail e))"
| "visitor_step env (Acts Visit_Pause sid) w =
     (case get_session sid w of
        None \<Rightarrow> Fail (Undefined ''null pointer'')
      | Some s \<Rightarrow> Done (Answered OK, w\<lparr>sessions := umap_put sid (session_pause s) (sessions w)\<rparr>))"
| "visitor_step env (Acts Visit_Teardown sid) w =
     (case terminate_session (env_inet env) sid w of
        Done (w1, ds) \<Rightarrow> Done (Answered OK, w1)
      | Wait \<Rightarrow> Wait
      | Fail e \<Rightarrow> Fail e)"
| "visitor_step env (Answered c) w = Wait"
| "visitor_step env (Visit_Threw e) w = Wait"

text \<open>A schedule names the request that takes the next step; a step that waits changes nothing.\<close>

fun visits :: "env \<Rightarrow> nat list \<Rightarrow> visitor list \<times> world \<Rightarrow> (visitor list \<times> world) outcome" where
  "visits env [] st = Done st"
| "visits env (i # ms) (cs, w) =
     (if i < length cs then
        (case visitor_step env (cs ! i) w of
           Done (c, w1) \<Rightarrow> visits env ms (cs[i := c], w1) | Wait \<Rightarrow> visits env ms (cs, w) | Fail e \<Rightarrow> Fail e)
      else visits env ms (cs, w))"

section \<open>A request alone\<close>

text \<open>The two calls of a request without company leave the world that its handler leaves, with the same answer.\<close>

lemma play_alone:
  assumes "handle_play env request st = (st', r)"
  shows "visits env [0, 0] ([Asks Visit_Play (get_header_value ''Session'' request)], the_world st) =
    (case r of
       Done _ \<Rightarrow> Done ([Answered (msg_status_code (response st'))], the_world st')
     | Wait \<Rightarrow> Done ([Acts Visit_Play (get_header_value ''Session'' request)], the_world st)
     | Fail (Runtime_Error m) \<Rightarrow> Done ([Visit_Threw (Runtime_Error m)], the_world st')
     | Fail e \<Rightarrow> Fail e)"
  using assms
  by (cases "get_session (get_header_value ''Session'' request) (the_world st)")
    (auto simp: handle_play_def session_exists_def get_session_def update_response_def Let_def set_status_code_def set_headers_def set_cseq_def set_protocol_def
      split: prod.splits outcome.splits cpp_error.splits)

lemma pause_alone:
  assumes "handle_pause request st = (st', r)"
  shows "r = Done () \<and> visits env [0, 0] ([Asks Visit_Pause (get_header_value ''Session'' request)], the_world st) =
    Done ([Answered (msg_status_code (response st'))], the_world st')"
  using assms
  by (cases "get_session (get_header_value ''Session'' request) (the_world st)")
    (auto simp: handle_pause_def session_exists_def get_session_def update_response_def Let_def set_status_code_def set_headers_def set_cseq_def set_protocol_def)

lemma teardown_alone:
  assumes "handle_teardown env request st = (st', r)"
  shows "visits env [0, 0] ([Asks Visit_Teardown (get_header_value ''Session'' request)], the_world st) =
    (case r of
       Done _ \<Rightarrow> Done ([Answered (msg_status_code (response st'))], the_world st')
     | Wait \<Rightarrow> Done ([Acts Visit_Teardown (get_header_value ''Session'' request)], the_world st)
     | Fail e \<Rightarrow> Fail e)"
  using assms
  by (auto simp: handle_teardown_def update_response_def Let_def set_status_code_def set_headers_def set_cseq_def set_protocol_def split: prod.splits outcome.splits if_splits)

section \<open>A session that ends in between\<close>

lemma map_of_delete_other: "map_of (umap_erase k m) k' = (if k' = k then None else map_of m k')"
  by (simp add: delete_conv')

lemma terminate_sessions:
  "terminate_session inet_ok sid w = Done (w', ds) \<Longrightarrow> sessions w' = sessions w \<or> sessions w' = umap_erase sid (sessions w)"
  by (auto simp: terminate_session_def set_heap_def split: option.splits outcome.splits)

text \<open>None of the three requests brings a session into being.\<close>

lemma visitor_step_creates_none:
  assumes "\<not> session_exists sid w" and "visitor_step env c w = Done (c', w')"
  shows "\<not> session_exists sid w'"
  using assms
proof (cases "(env, c, w)" rule: visitor_step.cases)
  case (2 env' sid' w1)
  with assms show ?thesis
    by (auto simp: session_exists_def get_session_def set_heap_def Let_def update_conv'
        split: option.splits prod.splits outcome.splits cpp_error.splits if_splits)
next
  case (3 env' sid' w1)
  with assms show ?thesis
    by (auto simp: session_exists_def get_session_def update_conv' split: option.splits if_splits)
next
  case (4 env' sid' w1)
  with assms terminate_sessions [of "env_inet env" sid' w w'] show ?thesis
    by (auto simp: session_exists_def map_of_delete_other split: outcome.splits)
qed auto

lemma lost_visitor_fails:
  assumes "a \<noteq> Visit_Teardown" and "\<not> session_exists sid w"
  shows "visitor_step env (Acts a sid) w = Fail (Undefined ''null pointer'')"
  using assms by (cases a) (simp_all add: session_exists_def get_session_def)

lemma lost_visit_fails:
  assumes "a \<noteq> Visit_Teardown"
  shows "\<not> session_exists sid w \<Longrightarrow> i < length cs \<Longrightarrow> cs ! i = Acts a sid \<Longrightarrow> i \<in> set ms \<Longrightarrow> \<exists>e. visits env ms (cs, w) = Fail e"
proof (induction ms arbitrary: cs w)
  case (Cons k ms)
  show ?case
  proof (cases "k = i")
    case True
    with lost_visitor_fails [OF assms Cons.prems(1)] Cons.prems(2,3) show ?thesis by simp
  next
    case False
    then have i: "i \<in> set ms" using Cons.prems(4) by simp
    show ?thesis
    proof (cases "k < length cs")
      case True
      show ?thesis
      proof (cases "visitor_step env (cs ! k) w")
        case (Done r)
        obtain c w1 where r: "r = (c, w1)" by (cases r)
        have "\<not> session_exists sid w1" using visitor_step_creates_none [OF Cons.prems(1)] Done r by blast
        from Cons.IH [OF this _ _ i, of "cs[k := c]"] Cons.prems(2,3) False True Done r show ?thesis by simp
      qed (use True Cons.IH [OF Cons.prems(1-3) i] in simp_all)
    qed (use Cons.IH [OF Cons.prems(1-3) i] in simp)
  qed
qed simp

text \<open>
  C18 (error). A TEARDOWN between the two calls of another request for the same session ends the server. A
  PLAY or PAUSE that has been told that its session exists does not test what \<open>get_session\<close>
  returns; when a TEARDOWN (of another connection, or the destructor of the session's own) has
  removed the session by then, every schedule in which that request goes on fails, whatever
  other PLAYs, PAUSEs and TEARDOWNs do, since none of them makes a session; if it goes on at
  once, it fails on the null pointer. A second TEARDOWN in the same place is harmless: both
  are answered with OK.
\<close>

theorem visits_lose_their_session:
  assumes "world_ok w" and "get_session sid w = Some s"
    and "\<forall>(k, v)\<in>set (session_handlers s). sender_thread v \<noteq> Some In_Get"
  shows "\<exists>w'. \<not> session_exists sid w' \<and> (\<forall>a.
      visits env [0, 1, 1] ([Asks a sid, Asks Visit_Teardown sid] @ cs, w) = Done ([Acts a sid, Answered OK] @ cs, w')
    \<and> (a \<noteq> Visit_Teardown \<longrightarrow> visitor_step env (Acts a sid) w' = Fail (Undefined ''null pointer'')
        \<and> (\<forall>ms. 0 \<in> set ms \<longrightarrow> (\<exists>e. visits env ms ([Acts a sid, Answered OK] @ cs, w') = Fail e)))
    \<and> (a = Visit_Teardown \<longrightarrow> visits env [0] ([Acts a sid, Answered OK] @ cs, w') = Done ([Answered OK, Answered OK] @ cs, w')))"
proof -
  from terminate_cleans_up [OF assms, of "env_inet env"] obtain w' where
    w': "terminate_session (env_inet env) sid w = Done (w', [])" "\<not> session_exists sid w'" by blast
  have "session_exists sid w" using assms(2) by (simp add: session_exists_def get_session_def)
  with w'(1) have run: "visits env [0, 1, 1] ([Asks a sid, Asks Visit_Teardown sid] @ cs, w) = Done ([Acts a sid, Answered OK] @ cs, w')" for a
    by simp
  have "\<exists>e. visits env ms ([Acts a sid, Answered OK] @ cs, w') = Fail e" if "a \<noteq> Visit_Teardown" "0 \<in> set ms" for a ms
    using lost_visit_fails [OF that(1) w'(2), of 0] that(2) by simp
  moreover have "terminate_session (env_inet env) sid w' = Done (w', [])"
    using w'(2) by (simp add: terminate_session_def session_exists_def)
  ultimately show ?thesis using run w'(2) lost_visitor_fails [OF _ w'(2)]
    by (intro exI [of _ w']) auto
qed

section \<open>Witness\<close>

theorem visits_lose_their_session_witness:
  "\<exists>w' e. visits demo_env [0, 1, 1] ([Asks Visit_Play ''A'', Asks Visit_Teardown ''A'', Asks Visit_Pause ''B''], demo_world) =
      Done ([Acts Visit_Play ''A'', Answered OK, Asks Visit_Pause ''B''], w')
    \<and> visits demo_env [2, 0] ([Acts Visit_Play ''A'', Answered OK, Asks Visit_Pause ''B''], w') = Fail e"
proof -
  have "get_session ''A'' demo_world = Some demo_session" by (simp add: get_session_def demo_world_def)
  moreover have "\<forall>(k, v)\<in>set (session_handlers demo_session). sender_thread v \<noteq> Some In_Get"
    by (simp add: demo_session_def demo_session_handler_def)
  ultimately obtain w' where "\<forall>a.
      visits demo_env [0, 1, 1] ([Asks a ''A'', Asks Visit_Teardown ''A''] @ [Asks Visit_Pause ''B''], demo_world) =
        Done ([Acts a ''A'', Answered OK] @ [Asks Visit_Pause ''B''], w')
    \<and> (a \<noteq> Visit_Teardown \<longrightarrow> visitor_step demo_env (Acts a ''A'') w' = Fail (Undefined ''null pointer'')
        \<and> (\<forall>ms. 0 \<in> set ms \<longrightarrow> (\<exists>e. visits demo_env ms ([Acts a ''A'', Answered OK] @ [Asks Visit_Pause ''B''], w') = Fail e)))"
    using visits_lose_their_session [OF demo_world_ok, of "''A''" demo_session demo_env "[Asks Visit_Pause ''B'']"] by blast
  note w' = spec [OF this, of Visit_Play]
  then have "\<exists>e. visits demo_env [2, 0] ([Acts Visit_Play ''A'', Answered OK] @ [Asks Visit_Pause ''B''], w') = Fail e" by simp
  with w' show ?thesis by auto
qed

end
