(* ===== verification/Deadlock.thy ===== *)
theory Deadlock
  imports SetupRequests Pacing
begin

text \<open>
  \<open>sessions_mutex_\<close> of the SessionManager. \<open>session_exists\<close>, \<open>get_session\<close> and \<open>create_session\<close> hold it for a
  moment; \<open>terminate_session\<close> holds it while \<open>Session::stop\<close> joins the senders one after the other. Here a
  request is the calls it makes on the manager, and requests, senders and producers step in any order;
  while one of them is inside \<open>terminate_session\<close>, the others wait at the mutex. What a request does
  with the session that \<open>get_session\<close> or \<open>create_session\<close> has returned (\<open>start\<close>, \<open>pause\<close>,
  \<open>add_media_track\<close>) is one step with that call; SessionRaces and ManagerRaces look between them.
\<close>

section \<open>Requests and the mutex\<close>

text \<open>
  What a request wants of the manager: a SETUP comes with the name and the address of the track, the server's
  port, and the client's address and ports. The destructor of a connection calls \<open>terminate_session\<close> without asking whether
  the session exists.
\<close>

datatype errand = To_Setup string nat int string int int | To_Play | To_Pause | To_Teardown

datatype locker =
    Asks_Exists errand string        \<comment> \<open>at \<open>session_exists\<close>\<close>
  | At_Second errand string bool     \<comment> \<open>at the second call, with the answer of the first\<close>
  | At_Terminate string
  | Stopping string "string list"    \<comment> \<open>has the mutex, in \<open>stop\<close>: the handlers it has not stopped yet\<close>
  | Joining string string "string list"   \<comment> \<open>has the mutex, joins the sender of a handler\<close>
  | Served
  | Refused                          \<comment> \<open>404\<close>
  | Locker_Threw cpp_error

record server_locks =
  locked_world :: world
  sessions_mutex :: "nat option"
  lockers :: "locker list"

definition stored_handler :: "string \<Rightarrow> string \<Rightarrow> world \<Rightarrow> session_handler option" where
  "stored_handler sid k w =
     (case map_of (sessions w) sid of None \<Rightarrow> None | Some s \<Rightarrow> map_of (session_handlers s) k)"

definition store_handler :: "string \<Rightarrow> string \<Rightarrow> session_handler \<Rightarrow> world \<Rightarrow> world" where
  "store_handler sid k v w =
     (case map_of (sessions w) sid of
        None \<Rightarrow> w
      | Some s \<Rightarrow> w\<lparr>sessions := umap_put sid (s\<lparr>session_handlers := umap_put k v (session_handlers s)\<rparr>) (sessions w)\<rparr>)"

text \<open>\<open>start\<close> and \<open>add_media_track\<close> on the session that the manager has returned, and \<open>stop\<close>'s caller, \<open>erase\<close>.\<close>

definition play_stored :: "env \<Rightarrow> string \<Rightarrow> world \<Rightarrow> (locker \<times> world) outcome" where
  "play_stored env sid w =
     (case get_session sid w of
        None \<Rightarrow> Fail (Undefined ''null pointer'')
      | Some s \<Rightarrow>
          let ((h, s1), r) = session_start (env_files env) (heap (lib w), s);
              w1 = set_heap h (w\<lparr>sessions := umap_put sid s1 (sessions w)\<rparr>) in
          (case r of
             Done _ \<Rightarrow> Done (Served, w1)
           | Wait \<Rightarrow> Wait
           | Fail (Runtime_Error m) \<Rightarrow> Done (Locker_Threw (Runtime_Error m), w1)
           | Fail e \<Rightarrow> Fail e))"

definition setup_stored :: "env \<Rightarrow> string \<Rightarrow> string \<Rightarrow> nat \<Rightarrow> int \<Rightarrow> string \<Rightarrow> int \<Rightarrow> int \<Rightarrow> world \<Rightarrow> (locker \<times> world) outcome" where
  "setup_stored env sid track a server_port ip0 client_rtp_port client_rtcp_port w =
     (case get_session sid w of
        None \<Rightarrow> Fail (Undefined ''null pointer'')
      | Some s \<Rightarrow>
          let ((h, s1), r) = session_add_media_track (env_sys env) (env_ssrc env) (env_rtp_buf env) track a
                server_port (server_port + 1) ip0 client_rtp_port client_rtcp_port (heap (lib w), s);
              w1 = set_heap h (w\<lparr>sessions := umap_put sid s1 (sessions w)\<rparr>) in
          (case r of
             Done _ \<Rightarrow> Done (Served, w1)
           | Wait \<Rightarrow> Wait
           | Fail (Runtime_Error m) \<Rightarrow> Done (Locker_Threw (Runtime_Error m), w1)
           | Fail e \<Rightarrow> Fail e))"

definition erase_stored :: "env \<Rightarrow> string \<Rightarrow> world \<Rightarrow> world outcome" where
  "erase_stored env sid w =
     (case get_session sid w of
        None \<Rightarrow> Done w
      | Some s \<Rightarrow>
          (case session_destroy (env_inet env) (heap (lib w), s) of
             Done (h, ds) \<Rightarrow> Done (set_heap h (w\<lparr>sessions := umap_erase sid (sessions w)\<rparr>))
           | Wait \<Rightarrow> Wait
           | Fail e \<Rightarrow> Fail e))"

text \<open>\<open>terminate_session\<close> by request \<open>i\<close> when the mutex is free: up to the first handler.\<close>

definition enter_terminate :: "nat \<Rightarrow> string \<Rightarrow> world \<Rightarrow> locker \<times> world \<times> nat option" where
  "enter_terminate i sid w =
     (case get_session sid w of
        None \<Rightarrow> (Served, w, None)
      | Some s \<Rightarrow> (Stopping sid (map fst (session_handlers s)), w, Some i))"

text \<open>\<open>Session::stop\<close> at a handler: it clears \<open>is_active_\<close>, joins the sender if there is one, and resets the handle.\<close>

definition stop_stored :: "string \<Rightarrow> string \<Rightarrow> string list \<Rightarrow> world \<Rightarrow> locker \<times> world" where
  "stop_stored sid k ks w =
     (case stored_handler sid k w of
        None \<Rightarrow> (Stopping sid ks, w)
      | Some v \<Rightarrow>
          (if sender_thread v = None then Stopping sid ks else Joining sid k ks,
           store_handler sid k (v\<lparr>handler_active := False\<rparr>) w))"

definition join_stored :: "string \<Rightarrow> string \<Rightarrow> world \<Rightarrow> world outcome" where
  "join_stored sid k w =
     (case stored_handler sid k w of
        None \<Rightarrow> Wait
      | Some v \<Rightarrow>
          (if sender_thread v = Some Sender_Returned then Done (store_handler sid k (v\<lparr>sender_thread := None\<rparr>) w) else Wait))"

text \<open>
  A step of request \<open>i\<close>, on the world and the mutex. (\<open>create_session\<close> releases a session of the same
  name if one was made since the request asked; should its destructor have to wait, the step waits as
  a whole.)
\<close>

fun locker_step :: "env \<Rightarrow> nat \<Rightarrow> locker \<Rightarrow> world \<Rightarrow> nat option \<Rightarrow> (locker \<times> world \<times> nat option) outcome" where
  "locker_step env i (Asks_Exists e sid) w m =
     (if m \<noteq> None then Wait
      else Done (case e of
               To_Setup _ _ _ _ _ _ \<Rightarrow> At_Second e sid (session_exists sid w)
             | _ \<Rightarrow> if session_exists sid w then At_Second e sid True else Refused, w, m))"
| "locker_step env i (At_Second e sid existed) w m =
     (if m \<noteq> None then Wait
      else case e of
          To_Setup track a p ip0 p3 p4 \<Rightarrow>
            (case (if existed then Done (w, []) else create_session (env_inet env) sid w) of
               Done (w1, ds) \<Rightarrow>
                 (case setup_stored env sid track a p ip0 p3 p4 w1 of
                    Done (c, w2) \<Rightarrow> Done (c, w2, m) | Wait \<Rightarrow> Wait | Fail e \<Rightarrow> Fail e)
             | Wait \<Rightarrow> Wait
             | Fail e \<Rightarrow> Fail e)
        | To_Play \<Rightarrow> (case play_stored env sid w of Done (c, w1) \<Rightarrow> Done (c, w1, m) | Wait \<Rightarrow> Wait | Fail e \<Rightarrow> Fail e)
        | To_Pause \<Rightarrow>
            (case get_session sid w of
               None \<Rightarrow> Fail (Undefined ''null pointer'')
             | Some s \<Rightarrow> Done (Served, w\<lparr>sessions := umap_put sid (session_pause s) (sessions w)\<rparr>, m))
        | To_Teardown \<Rightarrow> Done (enter_terminate i sid w))"
| "locker_step env i (At_Terminate sid) w m = (if m \<noteq> None then Wait else Done (enter_terminate i sid w))"
| "locker_step env i (Stopping sid []) w m =
     (case erase_stored env sid w of Done w1 \<Rightarrow> Done (Served, w1, None) | Wait \<Rightarrow> Wait | Fail e \<Rightarrow> Fail e)"
| "locker_step env i (Stopping sid (k # ks)) w m =
     (let (c, w1) = stop_stored sid k ks w in Done (c, w1, m))"
| "locker_step env i (Joining sid k ks) w m =
     (case join_stored sid k w of Done w1 \<Rightarrow> Done (Stopping sid ks, w1, m) | Wait \<Rightarrow> Wait | Fail e \<Rightarrow> Fail e)"
| "locker_step env i c w m = Wait"

text \<open>How a request comes in.\<close>

fun arriving :: "locker \<Rightarrow> bool" where
  "arriving (Asks_Exists e sid) = True"
| "arriving (At_Terminate sid) = True"
| "arriving c = False"

datatype lock_event = Locker_Turn nat | Sending_Turn string string | Producing_Turn nat | Arrival locker

text \<open>A turn of somebody who has to wait changes nothing.\<close>

fun lock_exec :: "env \<Rightarrow> lock_event \<Rightarrow> server_locks \<Rightarrow> server_locks outcome" where
  "lock_exec env (Locker_Turn i) st =
     (if i < length (lockers st) then
        (case locker_step env i (lockers st ! i) (locked_world st) (sessions_mutex st) of
           Done (c, w, m) \<Rightarrow> Done \<lparr>locked_world = w, sessions_mutex = m, lockers = (lockers st)[i := c]\<rparr>
         | Wait \<Rightarrow> Done st
         | Fail e \<Rightarrow> Fail e)
      else Done st)"
| "lock_exec env (Sending_Turn sid k) st =
     (case stored_handler sid k (locked_world st) of
        None \<Rightarrow> Done st
      | Some v \<Rightarrow>
          (case sender_step (env_inet env) sid (heap (lib (locked_world st)), v) of
             Done ((h, v1), ds) \<Rightarrow> Done (st\<lparr>locked_world := set_heap h (store_handler sid k v1 (locked_world st))\<rparr>)
           | Wait \<Rightarrow> Done st
           | Fail e \<Rightarrow> Fail e))"
| "lock_exec env (Producing_Turn a) st =
     (let h = heap (lib (locked_world st)) in
      if a < length h then
        (case track_producer_step (h ! a) of
           Done t \<Rightarrow> Done (st\<lparr>locked_world := set_heap (h[a := t]) (locked_world st)\<rparr>)
         | Wait \<Rightarrow> Done st
         | Fail e \<Rightarrow> Fail e)
      else Done st)"
| "lock_exec env (Arrival c) st = Done (if arriving c then st\<lparr>lockers := lockers st @ [c]\<rparr> else st)"

fun lock_run :: "env \<Rightarrow> lock_event list \<Rightarrow> server_locks \<Rightarrow> server_locks outcome" where
  "lock_run env [] st = Done st"
| "lock_run env (e # es) st =
     (case lock_exec env e st of Done st1 \<Rightarrow> lock_run env es st1 | r \<Rightarrow> r)"

lemma lock_run_append: "lock_run env es st = Done st1 \<Longrightarrow> lock_run env (es @ es') st = lock_run env es' st1"
  by (induction es arbitrary: st) (auto split: outcome.splits)

section \<open>A deadlock\<close>

text \<open>
  Request \<open>i\<close> has the mutex and joins the sender of session \<open>A\<close>, which waits for a frame of the track at \<open>a\<close>;
  the producer of the track waits for session \<open>B\<close>, which has not read anything, and which no
  thread reads for. Nobody else is inside the manager.
\<close>

definition deadlocked :: "nat \<Rightarrow> string \<Rightarrow> string \<Rightarrow> string list \<Rightarrow> string \<Rightarrow> nat \<Rightarrow> server_locks \<Rightarrow> bool" where
  "deadlocked i A k ks B a st \<longleftrightarrow>
     (let w = locked_world st; t = heap (lib w) ! a; q = frame_queue t in
      sessions_mutex st = Some i \<and> i < length (lockers st) \<and> lockers st ! i = Joining A k ks
      \<and> (\<forall>j < length (lockers st). j \<noteq> i \<longrightarrow> (\<forall>sid ks. lockers st ! j \<noteq> Stopping sid ks) \<and> (\<forall>sid k ks. lockers st ! j \<noteq> Joining sid k ks))
      \<and> (\<exists>v. stored_handler A k w = Some v \<and> handler_track v = a \<and> sender_thread v = Some In_Get)
      \<and> (\<forall>k' v. stored_handler B k' w = Some v \<and> handler_track v = a \<longrightarrow> sender_thread v = None \<or> sender_thread v = Some Sender_Returned)
      \<and> A \<noteq> B \<and> a < length (heap (lib w)) \<and> running q \<and> pending q A = Some []
      \<and> (\<exists>unread. pending q B = Some unread \<and> length unread = length (buffer q) - 1)
      \<and> (\<exists>f. produce_thread t = Some (Producing f)))"

lemma stored_handler_store:
  assumes "stored_handler sid k w \<noteq> None"
  shows "stored_handler sid' k' (store_handler sid k v w) = (if sid' = sid \<and> k' = k then Some v else stored_handler sid' k' w)"
    and "heap (lib (store_handler sid k v w)) = heap (lib w)"
  using assms by (auto simp: stored_handler_def store_handler_def update_conv' split: option.splits)

lemma stored_handler_set_heap [simp]: "stored_handler sid k (set_heap h w) = stored_handler sid k w"
  by (simp add: stored_handler_def set_heap_def)

lemma heap_set_heap [simp]: "heap (lib (set_heap h w)) = h"
  by (simp add: set_heap_def)

lemma locker_waits:
  assumes "m \<noteq> None" and "\<forall>sid ks. c \<noteq> Stopping sid ks" and "\<forall>sid k ks. c \<noteq> Joining sid k ks"
  shows "locker_step env i c w m = Wait"
  using assms by (cases "(env, i, c, w, m)" rule: locker_step.cases) auto

text \<open>What a sender's step does to the tracks.\<close>

lemma sender_step_track:
  assumes "sender_step inet_ok sid (h, v) = Done ((h', v'), ds)"
  shows "handler_track v' = handler_track v
    \<and> (sender_thread v = Some At_Test \<and> h' = h
      \<or> sender_thread v = Some In_Get \<and> h' = h[handler_track v := fst (track_get_next_frame sid (h ! handler_track v))]
         \<and> snd (track_get_next_frame sid (h ! handler_track v)) \<noteq> Wait)"
  using assms by (auto simp: sender_step_def split: option.splits sender.splits prod.splits outcome.splits sum.splits cpp_error.splits)

lemma full_producer_waits:
  assumes "produce_thread t = Some (Producing f)" and "running (frame_queue t)"
    and "pending (frame_queue t) sid = Some unread" and "length unread = length (buffer (frame_queue t)) - 1"
  shows "track_producer_step t = Wait"
proof -
  have "snd (produce (Some f) (frame_queue t)) = Wait"
    using produce_running(1) [OF assms(2), of "Some f"] assms(3,4) by auto
  then show ?thesis
    unfolding track_step_produce [OF assms(1)] by (cases "produce (Some f) (frame_queue t)") simp
qed

lemma deadlocked_exec:
  assumes "deadlocked i A k ks B a st" and "lock_exec env e st = Done st'"
  shows "deadlocked i A k ks B a st' \<and> (lockers st' = lockers st \<or> (\<exists>c. arriving c \<and> lockers st' = lockers st @ [c]))"
proof -
  let ?w = "locked_world st" let ?h = "heap (lib ?w)" let ?t = "?h ! a" let ?q = "frame_queue ?t"
  obtain v unread f where d: "sessions_mutex st = Some i" "i < length (lockers st)" "lockers st ! i = Joining A k ks"
    "\<forall>j < length (lockers st). j \<noteq> i \<longrightarrow> (\<forall>sid ks. lockers st ! j \<noteq> Stopping sid ks) \<and> (\<forall>sid k ks. lockers st ! j \<noteq> Joining sid k ks)"
    "stored_handler A k ?w = Some v" "handler_track v = a" "sender_thread v = Some In_Get"
    "\<forall>k' v. stored_handler B k' ?w = Some v \<and> handler_track v = a \<longrightarrow> sender_thread v = None \<or> sender_thread v = Some Sender_Returned"
    "A \<noteq> B" "a < length ?h" "running ?q" "pending ?q A = Some []"
    "pending ?q B = Some unread" "length unread = length (buffer ?q) - 1" "produce_thread ?t = Some (Producing f)"
    using assms(1) by (auto simp: deadlocked_def Let_def)
  show ?thesis
  proof (cases e)
    case (Locker_Turn j)
    have "locker_step env j (lockers st ! j) ?w (sessions_mutex st) = Wait" if "j < length (lockers st)"
    proof (cases "j = i")
      case True
      with d(3,5,7) show ?thesis by (simp add: join_stored_def)
    next
      case False
      with d(1,4) that show ?thesis by (intro locker_waits) auto
    qed
    with assms Locker_Turn show ?thesis by (auto split: if_splits)
  next
    case (Sending_Turn sid k')
    show ?thesis
    proof (cases "stored_handler sid k' ?w")
      case None
      with assms Sending_Turn show ?thesis by simp
    next
      case (Some v')
      show ?thesis
      proof (cases "sender_step (env_inet env) sid (?h, v')")
        case (Done r)
        obtain h1 v1 ds where r: "r = ((h1, v1), ds)" by (metis prod.exhaust)
        from sender_step_track [of "env_inet env" sid ?h v' h1 v1 ds] Done r have
          s: "handler_track v1 = handler_track v'" "sender_thread v' = Some At_Test \<and> h1 = ?h
            \<or> sender_thread v' = Some In_Get \<and> h1 = ?h[handler_track v' := fst (track_get_next_frame sid (?h ! handler_track v'))]
               \<and> snd (track_get_next_frame sid (?h ! handler_track v')) \<noteq> Wait" by auto
        let ?w1 = "set_heap h1 (store_handler sid k' v1 ?w)"
        have st': "st' = st\<lparr>locked_world := ?w1\<rparr>" using assms(2) Sending_Turn Some Done r by simp
        have w1: "stored_handler sid'' k'' ?w1 = (if sid'' = sid \<and> k'' = k' then Some v1 else stored_handler sid'' k'' ?w)" for sid'' k''
          using stored_handler_store(1) [of sid k' ?w] Some by simp
        have waits: "snd (track_get_next_frame A ?t) = Wait"
          using consume_running [OF d(11,12), of None] by (simp add: track_get_simp split: prod.split)
        have notAk: "\<not> (A = sid \<and> k = k')"
        proof
          assume "A = sid \<and> k = k'"
          with Some d(5,6,7) s(2) waits show False by auto
        qed
        have notB: "handler_track v' = a \<Longrightarrow> sid \<noteq> B" using spec [OF spec [OF d(8), of k'], of v'] Some s(2) by auto
        have t1: "h1 ! a = ?t \<or> (\<exists>q. h1 ! a = ?t\<lparr>frame_queue := q\<rparr> \<and> running q \<and> pending q A = pending ?q A
            \<and> pending q B = pending ?q B \<and> length (buffer q) = length (buffer ?q))" and len: "length h1 = length ?h"
        proof -
          have "sid \<noteq> A" if "handler_track v' = a" "sender_thread v' = Some In_Get" "snd (track_get_next_frame sid (?h ! handler_track v')) \<noteq> Wait"
            using that waits by auto
          moreover have "cq_wf ?q" using d(11) by (simp add: running_def)
          then have "sid' \<noteq> sid \<Longrightarrow> pending (fst (consume None sid ?q)) sid' = pending ?q sid'" for sid'
            using consume_frame [of ?q None sid sid'] by simp
          moreover have "running (fst (consume None sid ?q))" "length (buffer (fst (consume None sid ?q))) = length (buffer ?q)"
            using running_consume [OF d(11)] buffer_length(2) by auto
          moreover have "fst (track_get_next_frame sid ?t) = ?t\<lparr>frame_queue := fst (consume None sid ?q)\<rparr>"
            by (simp add: track_get_simp split: prod.split)
          ultimately show "h1 ! a = ?t \<or> (\<exists>q. h1 ! a = ?t\<lparr>frame_queue := q\<rparr> \<and> running q \<and> pending q A = pending ?q A
            \<and> pending q B = pending ?q B \<and> length (buffer q) = length (buffer ?q))"
            using s(2) notB d(10) by (cases "handler_track v' = a") auto
          show "length h1 = length ?h" using s(2) by auto
        qed
        have B: "\<forall>k'' v''. stored_handler B k'' ?w1 = Some v'' \<and> handler_track v'' = a \<longrightarrow>
            sender_thread v'' = None \<or> sender_thread v'' = Some Sender_Returned"
          using d(8) notB s(1) unfolding w1 by auto
        have Av: "stored_handler A k ?w1 = Some v" using notAk d(5) unfolding w1 by auto
        have frame: "running (frame_queue (h1 ! a))" "pending (frame_queue (h1 ! a)) A = Some []" "pending (frame_queue (h1 ! a)) B = Some unread"
          "length unread = length (buffer (frame_queue (h1 ! a))) - 1" "produce_thread (h1 ! a) = Some (Producing f)"
          using t1 d(11-15) by auto
        show ?thesis
          using d(1-4,6,7,9,10) frame B Av len by (simp add: deadlocked_def st')
      qed (use assms Sending_Turn Some in auto)
    qed
  next
    case (Producing_Turn b)
    have wait: "track_producer_step ?t = Wait" by (rule full_producer_waits [OF d(15,11,13,14)])
    show ?thesis
    proof (cases "b = a \<or> \<not> b < length ?h \<or> track_producer_step (?h ! b) = Wait")
      case True
      with wait assms Producing_Turn show ?thesis by (auto simp: Let_def split: if_splits)
    next
      case False
      with assms(2) Producing_Turn obtain t where "st' = st\<lparr>locked_world := set_heap (?h[b := t]) ?w\<rparr>"
        by (auto simp: Let_def split: outcome.splits if_splits)
      with False assms(1) show ?thesis by (auto simp: deadlocked_def Let_def)
    qed
  next
    case (Arrival c)
    show ?thesis
    proof (cases "arriving c")
      case True
      then have c: "\<forall>sid ks. c \<noteq> Stopping sid ks" "\<forall>sid k ks. c \<noteq> Joining sid k ks" by auto
      have st': "st' = st\<lparr>lockers := lockers st @ [c]\<rparr>" using assms(2) Arrival True by simp
      have "deadlocked i A k ks B a st'"
        using assms(1) c by (auto simp: deadlocked_def Let_def st' nth_append less_Suc_eq)
      with True st' show ?thesis by auto
    qed (use assms Arrival in simp)
  qed
qed

lemma deadlocked_run:
  "deadlocked i A k ks B a st \<Longrightarrow> lock_run env es st = Done st' \<Longrightarrow>
   deadlocked i A k ks B a st' \<and> (\<exists>cs. lockers st' = lockers st @ cs \<and> list_all arriving cs)"
proof (induction es arbitrary: st)
  case (Cons e es)
  obtain st1 where st1: "lock_exec env e st = Done st1" "lock_run env es st1 = Done st'"
    using Cons.prems(2) by (auto split: outcome.splits)
  from deadlocked_exec [OF Cons.prems(1) st1(1)] Cons.IH [OF _ st1(2)] show ?case by auto
qed simp

section \<open>The way there\<close>

lemma umap_put_twice: "umap_put k v' (umap_put k v m) = umap_put k v' m"
  by (induction m) auto

lemma store_handler_set_heap: "store_handler sid k v (set_heap h w) = set_heap h (store_handler sid k v w)"
  by (auto simp: store_handler_def set_heap_def split: option.split)

lemma set_heap_twice [simp]: "set_heap h' (set_heap h w) = set_heap h' w"
  by (simp add: set_heap_def)

lemma store_handler_twice: "store_handler sid k v' (store_handler sid k v w) = store_handler sid k v' w"
  by (auto simp: store_handler_def update_conv' umap_put_twice split: option.split)

lemmas store_normal = store_handler_set_heap store_handler_twice

text \<open>
  Sessions \<open>A\<close> and \<open>B\<close> are registered on the track at \<open>a\<close>; \<open>A\<close> plays it and has read and sent the first
  \<open>n\<close> frames, \<open>B\<close> has not read any.
\<close>

definition half_read :: "(string \<Rightarrow> bool) \<Rightarrow> string \<Rightarrow> string \<Rightarrow> string \<Rightarrow> nat \<Rightarrow> frame list \<Rightarrow> reader \<Rightarrow> nat \<Rightarrow> world \<Rightarrow> bool" where
  "half_read inet_ok A k B a everything r1 n w \<longleftrightarrow>
     (let t = heap (lib w) ! a in
      a < length (heap (lib w)) \<and> A \<noteq> B
      \<and> (\<exists>v. map_option session_handlers (get_session A w) = Some [(k, v)] \<and> handler_track v = a \<and> handler_active v
          \<and> sender_thread v = Some At_Test \<and> handler_ok inet_ok (handler_rtp v)
          \<and> rtp_sequence_number (handler_rtp v) \<le> int (length (concat (take n everything))))
      \<and> (\<forall>k' v. stored_handler B k' w = Some v \<longrightarrow> sender_thread v = None)
      \<and> track_ok t \<and> kind t = H264 \<and> is_active t \<and> produce_thread t = Some Looping \<and> running (frame_queue t)
      \<and> pending (frame_queue t) = [A \<mapsto> [], B \<mapsto> map Some (take n everything)]
      \<and> reads_to (next_frame_of H264) frame_buf (track_reader t) (drop n everything) r1)"

lemma session_stored:
  assumes "map_option session_handlers (get_session A w) = Some [(k, v)]"
  shows "stored_handler A k w = Some v"
    and "map_option session_handlers (get_session A (set_heap h (store_handler A k v' w))) = Some [(k, v')]"
    and "sid \<noteq> A \<Longrightarrow> stored_handler sid k' (set_heap h (store_handler A k v' w)) = stored_handler sid k' w"
  using assms by (auto simp: stored_handler_def store_handler_def get_session_def set_heap_def update_conv')

text \<open>The producer reads a frame, and puts it into the queue.\<close>

lemma producer_reads:
  assumes "half_read inet_ok A k B a everything r1 n w" and "n < length everything"
  shows "\<exists>r. track_producer_step (heap (lib w) ! a) =
      Done ((heap (lib w) ! a)\<lparr>track_reader := r, produce_thread := Some (Producing (everything ! n))\<rparr>)
    \<and> reads_to (next_frame_of H264) frame_buf r (drop (Suc n) everything) r1"
proof -
  let ?t = "heap (lib w) ! a"
  have t: "track_ok ?t" "kind ?t = H264" "is_active ?t" "produce_thread ?t = Some Looping"
    and reads: "reads_to (next_frame_of H264) frame_buf (track_reader ?t) (everything ! n # drop (Suc n) everything) r1"
    using assms Cons_nth_drop_Suc [OF assms(2)] by (simp_all add: half_read_def Let_def)
  from reads obtain j r where r: "next_frame_of H264 (track_reader ?t) = Inr (j, r)" "0 < j" "everything ! n = take (nat j) (frame_buf r)"
    "reads_to (next_frame_of H264) frame_buf r (drop (Suc n) everything) r1" by (auto elim: reads_to_ConsE)
  have "track_producer_step ?t = Done (?t\<lparr>track_reader := r, produce_thread := Some (Producing (everything ! n))\<rparr>)"
    using track_step_read [OF t(4,3,1), of j r] r t(2) by simp
  with r(4) show ?thesis by blast
qed

text \<open>Then \<open>A\<close>'s sender gets and sends it.\<close>

lemma reading_round:
  assumes "half_read (env_inet env) A k B a everything r1 n w" and "n < length everything"
    and "Suc n < length (buffer (frame_queue (heap (lib w) ! a)))"
    and "\<forall>f\<in>set everything. sendable H264 f" and "int (length (concat everything)) < 2 ^ 31"
  shows "\<exists>w'. lock_run env [Producing_Turn a, Producing_Turn a, Sending_Turn A k, Sending_Turn A k]
      \<lparr>locked_world = w, sessions_mutex = m, lockers = cs\<rparr> = Done \<lparr>locked_world = w', sessions_mutex = m, lockers = cs\<rparr>
    \<and> half_read (env_inet env) A k B a everything r1 (Suc n) w'
    \<and> length (buffer (frame_queue (heap (lib w') ! a))) = length (buffer (frame_queue (heap (lib w) ! a)))"
proof -
  let ?h = "heap (lib w)" let ?t = "?h ! a" let ?q = "frame_queue ?t" let ?f = "everything ! n"
  obtain v where v: "map_option session_handlers (get_session A w) = Some [(k, v)]" "handler_track v = a" "handler_active v"
    "sender_thread v = Some At_Test" "handler_ok (env_inet env) (handler_rtp v)"
    "rtp_sequence_number (handler_rtp v) \<le> int (length (concat (take n everything)))"
    and t: "a < length ?h" "A \<noteq> B" "\<forall>k' v. stored_handler B k' w = Some v \<longrightarrow> sender_thread v = None"
    "track_ok ?t" "kind ?t = H264" "is_active ?t" "produce_thread ?t = Some Looping" "running ?q"
    "pending ?q = [A \<mapsto> [], B \<mapsto> map Some (take n everything)]"
    using assms(1) by (auto simp: half_read_def Let_def)
  from producer_reads [OF assms(1,2)] obtain r where
    read: "track_producer_step ?t = Done (?t\<lparr>track_reader := r, produce_thread := Some (Producing ?f)\<rparr>)"
    and rest: "reads_to (next_frame_of H264) frame_buf r (drop (Suc n) everything) r1" by blast
  define t1 where "t1 = ?t\<lparr>track_reader := r, produce_thread := Some (Producing ?f)\<rparr>"
  have s1: "track_producer_step ?t = Done t1" using read by (simp add: t1_def)
  have "\<nexists>s l. pending ?q s = Some l \<and> length l = length (buffer ?q) - 1"
    using t(9) assms(2,3) by (auto split: if_splits)
  then obtain q1 where q1: "produce (Some ?f) ?q = (q1, Done ())"
    using produce_running(1) [OF t(8), of "Some ?f"] by (cases "produce (Some ?f) ?q") auto
  define t2 where "t2 = t1\<lparr>frame_queue := q1, produce_thread := Some Looping\<rparr>"
  have s2: "track_producer_step t1 = Done t2" using track_step_produce [of t1 ?f] q1 by (simp add: t1_def t2_def)
  have ok2: "track_ok t2" using track_step_ok [OF t(4)] track_step_ok [of t1] s1 s2 by auto
  have run1: "running q1" "length (buffer q1) = length (buffer ?q)"
    using running_produce [OF t(8), of "Some ?f"] buffer_length(1) [of "Some ?f" ?q] q1 by simp_all
  have pend1: "pending q1 = [A \<mapsto> [Some ?f], B \<mapsto> map Some (take (Suc n) everything)]"
    using produce_running(2) [OF t(8) q1] t(2,9) assms(2) by (auto simp: fun_eq_iff take_Suc_conv_app_nth)
  define q2 where "q2 = fst (consume None A q1)"
  have wf1: "cq_wf q1" using run1(1) by (simp add: running_def)
  have got: "consume None A q1 = (q2, Done (Some ?f))" and own: "pending q2 A = Some []"
    using consume_running [OF run1(1), of A "[Some ?f]" None] pend1 t(2) by (simp_all add: q2_def prod_eq_iff)
  have q2: "running q2" "length (buffer q2) = length (buffer ?q)" "exit_flag q2 = exit_flag q1"
    using running_consume [OF run1(1), of None A] buffer_length(2) [of None A q1] consume_frame [OF wf1, of None A] run1(2)
    by (simp_all add: q2_def)
  have "pending q2 sid = pending q1 sid" if "sid \<noteq> A" for sid
    using consume_frame [OF wf1, of None A sid] that by (simp add: q2_def)
  then have pend2: "pending q2 = [A \<mapsto> [], B \<mapsto> map Some (take (Suc n) everything)]"
    using own pend1 t(2) by (auto simp: fun_eq_iff)
  define t3 where "t3 = t2\<lparr>frame_queue := q2\<rparr>"
  have get: "track_get_next_frame A t2 = (t3, Done (Some ?f))"
    using got by (simp add: track_get_simp t2_def t3_def)
  have "?f \<in> set everything" using assms(2) by simp
  with assms(4) have f: "sendable H264 ?f" by blast
  have take: "concat (take (Suc n) everything) = concat (take n everything) @ ?f"
    using assms(2) by (simp add: take_Suc_conv_app_nth)
  have "length (concat (take (Suc n) everything)) \<le> length (concat everything)"
    by (metis append_take_drop_id concat_append le_add1 length_append)
  then have "rtp_sequence_number (handler_rtp v) + int (length ?f) < 2 ^ 31"
    using v(6) assms(5) unfolding take by simp
  from send_frame_ok [OF f v(5) this] obtain rtp ds where
    rtp: "send_rtp_packet (env_inet env) ?f H264 (handler_rtp v) = Inr (rtp, ds)" "handler_ok (env_inet env) rtp"
      "rtp_sequence_number rtp \<le> rtp_sequence_number (handler_rtp v) + int (length ?f)" by blast
  let ?v1 = "v\<lparr>sender_thread := Some In_Get\<rparr>" and ?v2 = "v\<lparr>sender_thread := Some At_Test, handler_rtp := rtp\<rparr>"
  let ?w' = "set_heap (?h[a := t3]) (store_handler A k ?v2 w)"
  note stored = session_stored [OF v(1)]
  have kinds: "track_media_type t2 = H264" using t(5) by (simp add: t2_def t1_def track_media_type_def)
  have send1: "sender_step (env_inet env) A (?h[a := t2], v) = Done ((?h[a := t2], ?v1), [])"
    using v(3,4) by (simp add: sender_step_def)
  have send2: "sender_step (env_inet env) A (?h[a := t2], ?v1) = Done ((?h[a := t3], ?v2), ds)"
    using v(2) get rtp(1) kinds t(1) by (simp add: sender_step_def)
  have "lock_run env [Producing_Turn a, Producing_Turn a, Sending_Turn A k, Sending_Turn A k]
      \<lparr>locked_world = w, sessions_mutex = m, lockers = cs\<rparr> = Done \<lparr>locked_world = ?w', sessions_mutex = m, lockers = cs\<rparr>"
  proof -
    let ?S = "\<lambda>w. \<lparr>locked_world = w, sessions_mutex = m, lockers = cs\<rparr>"
    let ?w1 = "set_heap (?h[a := t2]) (store_handler A k ?v1 w)"
    have 1: "lock_exec env (Producing_Turn a) (?S w) = Done (?S (set_heap (?h[a := t1]) w))"
      using s1 t(1) by (simp add: Let_def)
    have 2: "lock_exec env (Producing_Turn a) (?S (set_heap (?h[a := t1]) w)) = Done (?S (set_heap (?h[a := t2]) w))"
      using s2 t(1) by (simp add: Let_def)
    have 3: "lock_exec env (Sending_Turn A k) (?S (set_heap (?h[a := t2]) w)) = Done (?S ?w1)"
      using stored(1) send1 by (simp add: store_normal)
    have "stored_handler A k ?w1 = Some ?v1" by (rule session_stored(1) [OF stored(2)])
    moreover have "store_handler A k ?v2 ?w1 = set_heap (?h[a := t2]) (store_handler A k ?v2 w)" by (simp only: store_normal)
    ultimately have 4: "lock_exec env (Sending_Turn A k) (?S ?w1) = Done (?S ?w')"
      using send2 by simp
    show ?thesis by (simp only: lock_run.simps 1 2 3 4 outcome.case)
  qed
  moreover have "half_read (env_inet env) A k B a everything r1 (Suc n) ?w'"
  proof -
    have "map_option session_handlers (get_session A ?w') = Some [(k, ?v2)]" by (rule stored(2))
    moreover have "stored_handler B k' ?w' = stored_handler B k' w" for k' using stored(3) t(2) by simp
    moreover have "rtp_sequence_number rtp \<le> int (length (concat (take (Suc n) everything)))"
      using rtp(3) v(6) unfolding take by simp
    moreover have "track_ok t3" using ok2 q2 by (simp add: track_ok_def t3_def t2_def running_def)
    ultimately show ?thesis using t v(2,3) rtp(2) q2(1) pend2 rest by (auto simp: half_read_def t3_def t2_def t1_def)
  qed
  moreover have "length (buffer (frame_queue (heap (lib ?w') ! a))) = length (buffer ?q)" using t(1) q2(2) by (simp add: t3_def)
  ultimately show ?thesis by blast
qed

definition reading_turns :: "nat \<Rightarrow> string \<Rightarrow> string \<Rightarrow> nat \<Rightarrow> lock_event list" where
  "reading_turns a A k n = concat (replicate n [Producing_Turn a, Producing_Turn a, Sending_Turn A k, Sending_Turn A k])"

lemma reading_rounds:
  assumes "half_read (env_inet env) A k B a everything r1 0 w"
    and "\<forall>f\<in>set everything. sendable H264 f" and "int (length (concat everything)) < 2 ^ 31"
    and "n < length (buffer (frame_queue (heap (lib w) ! a)))" and "n \<le> length everything"
  shows "\<exists>w'. lock_run env (reading_turns a A k n) \<lparr>locked_world = w, sessions_mutex = m, lockers = cs\<rparr> =
      Done \<lparr>locked_world = w', sessions_mutex = m, lockers = cs\<rparr>
    \<and> half_read (env_inet env) A k B a everything r1 n w'
    \<and> length (buffer (frame_queue (heap (lib w') ! a))) = length (buffer (frame_queue (heap (lib w) ! a)))"
  using assms(4,5)
proof (induction n)
  case 0
  then show ?case using assms(1) by (simp add: reading_turns_def)
next
  case (Suc n)
  then obtain w1 where w1: "lock_run env (reading_turns a A k n) \<lparr>locked_world = w, sessions_mutex = m, lockers = cs\<rparr> =
      Done \<lparr>locked_world = w1, sessions_mutex = m, lockers = cs\<rparr>"
    "half_read (env_inet env) A k B a everything r1 n w1"
    "length (buffer (frame_queue (heap (lib w1) ! a))) = length (buffer (frame_queue (heap (lib w) ! a)))" by auto
  have "n < length everything" "Suc n < length (buffer (frame_queue (heap (lib w1) ! a)))" using Suc.prems w1(3) by simp_all
  from reading_round [OF w1(2) this assms(2,3)] obtain w2 where
    w2: "lock_run env [Producing_Turn a, Producing_Turn a, Sending_Turn A k, Sending_Turn A k] \<lparr>locked_world = w1, sessions_mutex = m, lockers = cs\<rparr>
      = Done \<lparr>locked_world = w2, sessions_mutex = m, lockers = cs\<rparr>" "half_read (env_inet env) A k B a everything r1 (Suc n) w2"
    "length (buffer (frame_queue (heap (lib w2) ! a))) = length (buffer (frame_queue (heap (lib w1) ! a)))" by blast
  have "reading_turns a A k (Suc n) = reading_turns a A k n @ [Producing_Turn a, Producing_Turn a, Sending_Turn A k, Sending_Turn A k]"
    by (simp only: reading_turns_def replicate_Suc replicate_append_same [symmetric] concat_append) simp
  with lock_run_append [OF w1(1)] w2 w1(3) show ?case by auto
qed

text \<open>The queue is full of what \<open>B\<close> has not read; the producer comes with one more frame, \<open>A\<close>'s sender for one, and then the TEARDOWN of \<open>A\<close>.\<close>

lemma teardown_closes:
  assumes "half_read (env_inet env) A k B a everything r1 n w" and "n < length everything"
    and "Suc n = length (buffer (frame_queue (heap (lib w) ! a)))"
    and "i < length cs" and "cs ! i = Asks_Exists To_Teardown A"
    and "\<forall>c\<in>set cs. (\<forall>sid ks. c \<noteq> Stopping sid ks) \<and> (\<forall>sid k ks. c \<noteq> Joining sid k ks)"
  shows "\<exists>w'. lock_run env [Producing_Turn a, Sending_Turn A k, Locker_Turn i, Locker_Turn i, Locker_Turn i]
      \<lparr>locked_world = w, sessions_mutex = None, lockers = cs\<rparr> =
      Done \<lparr>locked_world = w', sessions_mutex = Some i, lockers = cs[i := Joining A k []]\<rparr>
    \<and> deadlocked i A k [] B a \<lparr>locked_world = w', sessions_mutex = Some i, lockers = cs[i := Joining A k []]\<rparr>"
proof -
  let ?h = "heap (lib w)" let ?t = "?h ! a" let ?q = "frame_queue ?t" let ?f = "everything ! n"
  obtain v where v: "map_option session_handlers (get_session A w) = Some [(k, v)]" "handler_track v = a" "handler_active v"
    "sender_thread v = Some At_Test"
    and t: "a < length ?h" "A \<noteq> B" "\<forall>k' v. stored_handler B k' w = Some v \<longrightarrow> sender_thread v = None"
    "running ?q" "pending ?q = [A \<mapsto> [], B \<mapsto> map Some (take n everything)]"
    using assms(1) by (auto simp: half_read_def Let_def)
  from producer_reads [OF assms(1,2)] obtain r where
    s1: "track_producer_step ?t = Done (?t\<lparr>track_reader := r, produce_thread := Some (Producing ?f)\<rparr>)" by blast
  define t1 where "t1 = ?t\<lparr>track_reader := r, produce_thread := Some (Producing ?f)\<rparr>"
  let ?S = "\<lambda>w. \<lparr>locked_world = w, sessions_mutex = None, lockers = cs\<rparr>"
  let ?v1 = "v\<lparr>sender_thread := Some In_Get\<rparr>" and ?v2 = "v\<lparr>sender_thread := Some In_Get, handler_active := False\<rparr>"
  let ?w1 = "set_heap (?h[a := t1]) (store_handler A k ?v1 w)" and ?w2 = "set_heap (?h[a := t1]) (store_handler A k ?v2 w)"
  note stored = session_stored [OF v(1)]
  have 1: "lock_exec env (Producing_Turn a) (?S w) = Done (?S (set_heap (?h[a := t1]) w))"
    using s1 t(1) by (simp add: Let_def t1_def)
  have 2: "lock_exec env (Sending_Turn A k) (?S (set_heap (?h[a := t1]) w)) = Done (?S ?w1)"
    using stored(1) v(3,4) by (simp add: store_normal sender_step_def)
  have there: "session_exists A ?w1" "map_option session_handlers (get_session A ?w1) = Some [(k, ?v1)]"
    using stored(2) [of "?h[a := t1]" ?v1] by (auto simp: session_exists_def get_session_def)
  have 3: "lock_exec env (Locker_Turn i) (?S ?w1) = Done \<lparr>locked_world = ?w1, sessions_mutex = None, lockers = cs[i := At_Second To_Teardown A True]\<rparr>"
    using assms(4,5) there(1) by simp
  have 4: "lock_exec env (Locker_Turn i) \<lparr>locked_world = ?w1, sessions_mutex = None, lockers = cs[i := At_Second To_Teardown A True]\<rparr>
      = Done \<lparr>locked_world = ?w1, sessions_mutex = Some i, lockers = cs[i := Stopping A [k]]\<rparr>"
    using assms(4) there(2) by (auto simp: enter_terminate_def)
  have "stored_handler A k ?w1 = Some ?v1" by (rule session_stored(1) [OF there(2)])
  moreover have "store_handler A k ?v2 ?w1 = ?w2" by (simp only: store_normal)
  ultimately have 5: "lock_exec env (Locker_Turn i) \<lparr>locked_world = ?w1, sessions_mutex = Some i, lockers = cs[i := Stopping A [k]]\<rparr>
      = Done \<lparr>locked_world = ?w2, sessions_mutex = Some i, lockers = cs[i := Joining A k []]\<rparr>"
    using assms(4) by (simp add: stop_stored_def)
  have "stored_handler A k ?w2 = Some ?v2" using session_stored(1) [OF stored(2)] .
  moreover have "stored_handler B k' ?w2 = stored_handler B k' w" for k' using stored(3) t(2) by simp
  moreover have "length (map Some (take n everything)) = length (buffer ?q) - 1" using assms(2,3) by simp
  moreover have "(\<forall>sid ks. cs[i := Joining A k []] ! j \<noteq> Stopping sid ks) \<and> (\<forall>sid k' ks. cs[i := Joining A k []] ! j \<noteq> Joining sid k' ks)"
    if "j < length cs" "j \<noteq> i" for j using assms(6) that by simp
  ultimately have "deadlocked i A k [] B a \<lparr>locked_world = ?w2, sessions_mutex = Some i, lockers = cs[i := Joining A k []]\<rparr>"
    using t assms(4) v(2) by (auto simp: deadlocked_def Let_def t1_def)
  moreover have "lock_run env [Producing_Turn a, Sending_Turn A k, Locker_Turn i, Locker_Turn i, Locker_Turn i] (?S w) =
      Done \<lparr>locked_world = ?w2, sessions_mutex = Some i, lockers = cs[i := Joining A k []]\<rparr>"
    by (simp only: lock_run.simps 1 2 3 4 5 outcome.case)
  ultimately show ?thesis by blast
qed

text \<open>The two SETUPs.\<close>

lemma setup_turns:
  assumes "\<not> session_exists sid w" and "\<forall>call\<in>set (handler_calls p (p + 1)). env_sys env call"
    and "i < length cs" and "cs ! i = Asks_Exists (To_Setup track a p ip0 p3 p4) sid"
  shows "lock_run env [Locker_Turn i, Locker_Turn i] \<lparr>locked_world = w, sessions_mutex = None, lockers = cs\<rparr> =
    Done \<lparr>locked_world = set_heap (registered sid a (heap (lib w))) (w\<lparr>sessions := umap_put sid
         \<lparr>session_id = sid, session_handlers = [(track, setup_handler env track a ip0 p3 p4
            (track_timestamp_increment (heap (lib w) ! a)))]\<rparr> (sessions w)\<rparr>),
      sessions_mutex = None, lockers = cs[i := Served]\<rparr>"
proof -
  have calls: "first_failure (env_sys env) (handler_calls p (p + 1)) = None" using assms(2) by (simp only: first_failure_none)
  have "(case create_session (env_inet env) sid w of
           Done (w1, ds) \<Rightarrow> setup_stored env sid track a p ip0 p3 p4 w1 | Wait \<Rightarrow> Wait | Fail e \<Rightarrow> Fail e) =
      Done (Served, set_heap (registered sid a (heap (lib w))) (w\<lparr>sessions := umap_put sid
         \<lparr>session_id = sid, session_handlers = [(track, setup_handler env track a ip0 p3 p4
            (track_timestamp_increment (heap (lib w) ! a)))]\<rparr> (sessions w)\<rparr>))"
    using assms(1) calls
    by (simp add: create_session_def session_exists_def setup_stored_def get_session_def update_conv' new_session_def
        session_add_media_track_def rtp_rtcp_handler_def registered_def setup_handler_def umap_put_twice Let_def)
  with assms(1,3,4) show ?thesis by (simp add: create_session_def session_exists_def)
qed

text \<open>The PLAY of \<open>A\<close>.\<close>

lemma play_turns:
  assumes "get_session A w = Some s" and "session_handlers s = [(k, v)]" and "fresh_handler v" and "handler_track v = a"
    and "a < length (heap (lib w))" and "track_start (env_files env) (heap (lib w) ! a) = (t1, Done ())"
    and "i < length cs" and "cs ! i = Asks_Exists To_Play A"
  shows "lock_run env [Locker_Turn i, Locker_Turn i] \<lparr>locked_world = w, sessions_mutex = None, lockers = cs\<rparr> =
    Done \<lparr>locked_world = set_heap ((heap (lib w))[a := t1]) (store_handler A k (v\<lparr>handler_active := True, sender_thread := Some At_Test,
        handler_rtp := rtp_stop (handler_rtp v\<lparr>rtcp_send_thread := True, rtcp_receive_thread := True\<rparr>)\<rparr>) w),
      sessions_mutex = None, lockers = cs[i := Served]\<rparr>"
proof -
  let ?v = "v\<lparr>handler_active := True, sender_thread := Some At_Test,
      handler_rtp := rtp_stop (handler_rtp v\<lparr>rtcp_send_thread := True, rtcp_receive_thread := True\<rparr>)\<rparr>"
  have "start_handler (env_files env) (heap (lib w), v) = (((heap (lib w))[a := t1], ?v), Done ())"
    using assms(3-6) by (simp add: start_handler_def fresh_handler_def rtp_start_def Let_def)
  then have "session_start (env_files env) (heap (lib w), s) = (((heap (lib w))[a := t1], s\<lparr>session_handlers := [(k, ?v)]\<rparr>), Done ())"
    using assms(2) by (simp add: session_start_def)
  then have "play_stored env A w = Done (Served, set_heap ((heap (lib w))[a := t1]) (store_handler A k ?v w))"
    using assms(1,2) by (simp add: play_stored_def store_handler_def get_session_def)
  moreover have "session_exists A w" using assms(1) by (simp add: session_exists_def get_session_def)
  ultimately show ?thesis using assms(7,8) by simp
qed

text \<open>
  The whole run: two sessions set up the same track, the first one plays it and reads until the queue is full of
  what the second has not read, and is then torn down.
\<close>

definition four_requests :: "string \<Rightarrow> string \<Rightarrow> string \<Rightarrow> nat \<Rightarrow> (int \<times> string \<times> int \<times> int) \<Rightarrow> (int \<times> string \<times> int \<times> int) \<Rightarrow> locker list" where
  "four_requests A B k a addr_A addr_B =
     (let (p, ip0, p3, p4) = addr_A; (p', ip0', p3', p4') = addr_B in
      [Asks_Exists (To_Setup k a p ip0 p3 p4) A, Asks_Exists (To_Setup k a p' ip0' p3' p4') B,
       Asks_Exists To_Play A, Asks_Exists To_Teardown A])"

definition way_to_deadlock :: "string \<Rightarrow> string \<Rightarrow> nat \<Rightarrow> nat \<Rightarrow> lock_event list" where
  "way_to_deadlock A k a cells =
     [Locker_Turn 0, Locker_Turn 0] @ [Locker_Turn 1, Locker_Turn 1] @ [Locker_Turn 2, Locker_Turn 2] @ reading_turns a A k (cells - 1)
     @ [Producing_Turn a, Sending_Turn A k, Locker_Turn 3, Locker_Turn 3, Locker_Turn 3]"

lemma idle_registered:
  assumes "idle_track mt files bs t"
  shows "idle_track mt files bs (track_register_session sid t)"
  using assms cq_wf_register [of "frame_queue t" sid]
  by (auto simp: idle_track_def track_ok_def track_register_simp register_consumer_def)

text \<open>
  C17 (liveness). The sessions' mutex can be held for ever. Two new sessions A and B set up the same idle H.264 track, on which
  nobody is registered and whose
  file has at least as many NAL units to deliver as the queue has cells (25 in the code), each with its start code
  at least four bytes shorter than 512 KiB; the sockets'
  system calls succeed, A's address is accepted by \<open>inet_pton\<close>, and the file is smaller than 2 GiB. A is played, B is not, and while the producer and A's sender take turns the queue
  fills up with what B has not read. After the TEARDOWN of A has come in, it holds \<open>sessions_mutex_\<close> and joins A's sender,
  which waits for a frame of the producer, which waits for B. From then on, whatever turns all the
  threads of the server take (the senders and producers of other sessions and tracks included), and
  whatever requests come in: as long as the program runs, the TEARDOWN does not get out of
  the join, nobody else gets the mutex, and none of the requests that come in gets past its first call of the
  SessionManager: no SETUP, PLAY, PAUSE or TEARDOWN of any client, and no connection's destructor with a session to end.
\<close>

theorem mutex_held_for_ever:
  assumes "a < length (heap (lib w))" and "idle_track H264 (env_files env) (concat nals) (heap (lib w) ! a)"
    and "unused_track (heap (lib w) ! a)"
    and "\<forall>f\<in>set nals. wf_nal f" and "int (length (concat nals)) < 2 ^ 31"
    and "length (buffer (frame_queue (heap (lib w) ! a))) \<le> length (delivered nals)"
    and "A \<noteq> B" and "\<not> session_exists A w" and "\<not> session_exists B w"
    and "\<forall>call\<in>set (handler_calls p (p + 1)) \<union> set (handler_calls p' (p' + 1)). env_sys env call"
    and "length (env_rtp_buf env) = rtp_buf_size" and "env_inet env ip0"
  shows "\<exists>st. lock_run env (way_to_deadlock A k a (length (buffer (frame_queue (heap (lib w) ! a)))))
      \<lparr>locked_world = w, sessions_mutex = None, lockers = four_requests A B k a (p, ip0, p3, p4) (p', ip0', p3', p4')\<rparr> = Done st
    \<and> sessions_mutex st = Some 3 \<and> lockers st = [Served, Served, Served, Joining A k []]
    \<and> (\<forall>env' es st'. lock_run env' es st = Done st' \<longrightarrow>
        sessions_mutex st' = Some 3 \<and> (\<exists>cs. lockers st' = [Served, Served, Served, Joining A k []] @ cs \<and> list_all arriving cs))"
proof -
  let ?t = "heap (lib w) ! a" let ?q = "frame_queue ?t" let ?cells = "length (buffer ?q)" let ?everything = "delivered nals"
  let ?rA = "track_register_session A ?t" let ?rB = "track_register_session B ?rA"
  let ?bs = "concat nals" let ?r0 = "new_reader ?bs (frame_buf (track_reader ?t))"
  have play: "playable H264 ?r0 ?everything" using assms(4,5) idle_track_buf [OF assms(2)] by (intro playable_h264) auto
  then obtain j where "read_frames (next_frame_of H264) frame_buf j ?r0 = Inr (?everything, True)" by (auto simp: playable_def)
  from read_frames_reads [OF this] obtain r1 where r1: "reads_to (next_frame_of H264) frame_buf ?r0 ?everything r1" by blast
  have fs: "\<forall>f\<in>set ?everything. sendable H264 f" "int (length (concat ?everything)) < 2 ^ 31" using play by (auto simp: playable_def)
  note starts = idle_track_starts [OF idle_registered [OF assms(2), of A], of B]
  define t1 where "t1 = fst (track_start (env_files env) ?rB)"
  have wf: "cq_wf ?q" using assms(2) by (simp add: idle_track_def track_ok_def)
  have pend: "pending (frame_queue t1) = [A \<mapsto> [], B \<mapsto> []]"
  proof -
    have "pending ?q = Map.empty" using assms(3) by (simp add: pending_def unused_track_def fun_eq_iff)
    then have "pending (frame_queue ?rA) = [A \<mapsto> []]" by (simp add: track_register_simp pending_register [OF wf])
    with starts(4) show ?thesis by (simp add: t1_def)
  qed
  have cells: "length (buffer (frame_queue t1)) = ?cells" using starts(4) by (simp add: t1_def track_register_simp buffer_length)
  have ok1: "track_ok t1" "kind t1 = H264" "is_active t1" using starts(2) by (simp_all add: t1_def delivering_def)
  have run1: "running (frame_queue t1)" using starts(4) ok1(1) by (simp add: t1_def running_def track_ok_def)
  define vA where "vA = setup_handler env k a ip0 p3 p4 (track_timestamp_increment ?t)"
  define wA where "wA = set_heap (registered A a (heap (lib w))) (w\<lparr>sessions := umap_put A \<lparr>session_id = A, session_handlers = [(k, vA)]\<rparr> (sessions w)\<rparr>)"
  define vB where "vB = setup_handler env k a ip0' p3' p4' (track_timestamp_increment (heap (lib wA) ! a))"
  define wB where "wB = set_heap (registered B a (heap (lib wA))) (wA\<lparr>sessions := umap_put B \<lparr>session_id = B, session_handlers = [(k, vB)]\<rparr> (sessions wA)\<rparr>)"
  define v1 where "v1 = vA\<lparr>handler_active := True, sender_thread := Some At_Test,
        handler_rtp := rtp_stop (handler_rtp vA\<lparr>rtcp_send_thread := True, rtcp_receive_thread := True\<rparr>)\<rparr>"
  define w0 where "w0 = set_heap ((heap (lib wB))[a := t1]) (store_handler A k v1 wB)"
  let ?cs = "four_requests A B k a (p, ip0, p3, p4) (p', ip0', p3', p4')"
  have s1: "lock_run env [Locker_Turn 0, Locker_Turn 0] \<lparr>locked_world = w, sessions_mutex = None, lockers = ?cs\<rparr> =
      Done \<lparr>locked_world = wA, sessions_mutex = None, lockers = ?cs[0 := Served]\<rparr>"
    unfolding wA_def vA_def using assms(8,10) by (intro setup_turns) (simp_all add: four_requests_def)
  have notB: "\<not> session_exists B wA" using assms(7,9) by (simp add: wA_def session_exists_def set_heap_def update_conv')
  have s2: "lock_run env [Locker_Turn 1, Locker_Turn 1] \<lparr>locked_world = wA, sessions_mutex = None, lockers = ?cs[0 := Served]\<rparr> =
      Done \<lparr>locked_world = wB, sessions_mutex = None, lockers = ?cs[0 := Served, 1 := Served]\<rparr>"
    unfolding wB_def vB_def using notB assms(10) by (intro setup_turns) (simp_all add: four_requests_def)
  have A: "get_session A wB = Some \<lparr>session_id = A, session_handlers = [(k, vA)]\<rparr>"
    and B: "get_session B wB = Some \<lparr>session_id = B, session_handlers = [(k, vB)]\<rparr>"
    using assms(7) by (simp_all add: wB_def wA_def get_session_def set_heap_def update_conv')
  have heap: "heap (lib wB) ! a = ?rB" "a < length (heap (lib wB))"
    using assms(1) by (simp_all add: wB_def wA_def registered_def)
  have vA: "fresh_handler vA" "handler_track vA = a" by (simp_all add: vA_def setup_handler_def fresh_handler_def)
  have "track_start (env_files env) (heap (lib wB) ! a) = (t1, Done ())" using starts(1) heap(1) by (simp add: t1_def)
  from play_turns [OF A _ vA heap(2) this, of k 2 "?cs[0 := Served, 1 := Served]"]
  have s3: "lock_run env [Locker_Turn 2, Locker_Turn 2] \<lparr>locked_world = wB, sessions_mutex = None, lockers = ?cs[0 := Served, 1 := Served]\<rparr> =
      Done \<lparr>locked_world = w0, sessions_mutex = None, lockers = ?cs[0 := Served, 1 := Served, 2 := Served]\<rparr>"
    by (simp add: w0_def v1_def four_requests_def)
  have AB: "map_option session_handlers (get_session A wB) = Some [(k, vA)]" using A by simp
  have B0: "stored_handler B k' w0 = (if k' = k then Some vB else None)" for k'
    using session_stored(3) [OF AB, of B] assms(7) B by (simp add: w0_def stored_handler_def get_session_def)
  have "map_option session_handlers (get_session A w0) = Some [(k, v1)]" unfolding w0_def by (rule session_stored(2) [OF AB])
  moreover have "handler_track v1 = a \<and> handler_active v1 \<and> sender_thread v1 = Some At_Test \<and> handler_ok (env_inet env) (handler_rtp v1)
      \<and> rtp_sequence_number (handler_rtp v1) = 0"
    using assms(11,12) by (simp add: v1_def vA_def setup_handler_def handler_ok_def rtp_stop_def)
  moreover have "heap (lib w0) ! a = t1" "a < length (heap (lib w0))" using heap(2) by (simp_all add: w0_def)
  moreover have "sender_thread vB = None" by (simp add: vB_def setup_handler_def)
  moreover have "track_reader t1 = ?r0" using starts(3) by (simp add: t1_def track_register_simp)
  moreover have "produce_thread t1 = Some Looping" using starts(4) by (simp add: t1_def)
  ultimately have half: "half_read (env_inet env) A k B a ?everything r1 0 w0"
    using assms(7) B0 ok1 run1 pend r1 unfolding half_read_def Let_def by (intro conjI exI [of _ v1]) simp_all
  have cells0: "length (buffer (frame_queue (heap (lib w0) ! a))) = ?cells" using cells heap(2) by (simp add: w0_def)
  have pos: "0 < ?cells" using wf by (simp add: cq_wf_def)
  let ?cs3 = "?cs[0 := Served, 1 := Served, 2 := Served]"
  have n: "?cells - 1 < length (buffer (frame_queue (heap (lib w0) ! a)))" "?cells - 1 \<le> length ?everything"
    using pos cells0 assms(6) by simp_all
  from reading_rounds [OF half fs n, of None ?cs3] cells0 obtain w1 where
    s4: "lock_run env (reading_turns a A k (?cells - 1)) \<lparr>locked_world = w0, sessions_mutex = None, lockers = ?cs3\<rparr> =
      Done \<lparr>locked_world = w1, sessions_mutex = None, lockers = ?cs3\<rparr>"
    and w1: "half_read (env_inet env) A k B a ?everything r1 (?cells - 1) w1" "length (buffer (frame_queue (heap (lib w1) ! a))) = ?cells" by auto
  have "?cells - 1 < length ?everything" "Suc (?cells - 1) = length (buffer (frame_queue (heap (lib w1) ! a)))"
    using pos assms(6) w1(2) by linarith+
  from teardown_closes [OF w1(1) this, of 3 ?cs3] obtain w2 where
    s5: "lock_run env [Producing_Turn a, Sending_Turn A k, Locker_Turn 3, Locker_Turn 3, Locker_Turn 3] \<lparr>locked_world = w1, sessions_mutex = None, lockers = ?cs3\<rparr> =
      Done \<lparr>locked_world = w2, sessions_mutex = Some 3, lockers = ?cs3[3 := Joining A k []]\<rparr>"
    and dead: "deadlocked 3 A k [] B a \<lparr>locked_world = w2, sessions_mutex = Some 3, lockers = ?cs3[3 := Joining A k []]\<rparr>"
    by (auto simp: four_requests_def)
  have cs: "?cs3[3 := Joining A k []] = [Served, Served, Served, Joining A k []]" by (simp add: four_requests_def)
  let ?st = "\<lparr>locked_world = w2, sessions_mutex = Some 3, lockers = [Served, Served, Served, Joining A k []]\<rparr>"
  have "lock_run env (way_to_deadlock A k a ?cells) \<lparr>locked_world = w, sessions_mutex = None, lockers = ?cs\<rparr> = Done ?st"
    unfolding way_to_deadlock_def
    by (simp only: lock_run_append [OF s1] lock_run_append [OF s2] lock_run_append [OF s3] lock_run_append [OF s4] s5 cs)
  moreover have "sessions_mutex st' = Some 3 \<and> (\<exists>cs. lockers st' = [Served, Served, Served, Joining A k []] @ cs \<and> list_all arriving cs)"
    if "lock_run env' es ?st = Done st'" for env' es st'
    using deadlocked_run [OF dead [unfolded cs] that] by (auto simp: deadlocked_def Let_def)
  ultimately show ?thesis by (intro exI [of _ ?st]) simp
qed

section \<open>Witness\<close>

text \<open>A library of one track, with a file of 30 small NAL units and two of 400 kilobytes.\<close>

definition waiting_file :: "byte list list" where
  "waiting_file = replicate 30 (filler_unit 0) @ [filler_unit 400000, filler_unit 400000]"

definition waiting_world :: world where
  "waiting_world = \<lparr>lib = \<lparr>heap = [opened_track H264 (concat waiting_file)], media_sources = []\<rparr>, sessions = [],
     ports = \<lparr>available_ports = []\<rparr>\<rparr>"

lemma waiting_file:
  "\<forall>f\<in>set waiting_file. wf_nal f" "int (length (concat waiting_file)) < 2 ^ 31" "length (delivered waiting_file) = 31"
proof -
  show "\<forall>f\<in>set waiting_file. wf_nal f"
    using filler_unit_wf [of 0] filler_unit_wf [of 400000] by (auto simp: waiting_file_def MAX_FRAME_SIZE_def)
  show "int (length (concat waiting_file)) < 2 ^ 31"
    by (simp add: waiting_file_def length_concat sum_list_replicate)
  have "delivered waiting_file = replicate 30 (filler_unit 0) @ [filler_unit 400000]"
    unfolding waiting_file_def by (rule delivered_two_long) (simp add: MAX_FRAME_SIZE_def)
  then show "length (delivered waiting_file) = 31" by simp
qed

theorem mutex_held_for_ever_witness:
  "\<exists>st. lock_run (demo_env\<lparr>env_files := (\<lambda>_. Some (concat waiting_file))\<rparr>) (way_to_deadlock ''A'' ''track0'' 0 25)
      \<lparr>locked_world = waiting_world, sessions_mutex = None,
       lockers = four_requests ''A'' ''B'' ''track0'' 0 (6000, ''10.0.0.2'', 5000, 5001) (6002, ''10.0.0.3'', 5000, 5001)\<rparr> = Done st
    \<and> (\<forall>st'. lock_run demo_env [Arrival (Asks_Exists To_Play ''B''), Locker_Turn 4, Locker_Turn 3, Producing_Turn 0,
          Sending_Turn ''A'' ''track0''] st = Done st' \<longrightarrow> sessions_mutex st' = Some 3)"
proof -
  let ?env = "demo_env\<lparr>env_files := (\<lambda>_. Some (concat waiting_file))\<rparr>" and ?t = "heap (lib waiting_world) ! 0"
  have t: "?t = opened_track H264 (concat waiting_file)" by (simp add: waiting_world_def)
  have cells: "length (buffer (frame_queue ?t)) = 25"
    by (simp add: t opened_track_def track_open_def h264_open_def new_track_simps circular_queue_def)
  have "0 < length (heap (lib waiting_world))" by (simp add: waiting_world_def)
  moreover have "idle_track H264 (env_files ?env) (concat waiting_file) ?t" "unused_track ?t"
    unfolding t using opened_track [of H264 "concat waiting_file"] by simp_all
  moreover have "length (buffer (frame_queue ?t)) \<le> length (delivered waiting_file)" unfolding cells waiting_file(3) by simp
  moreover have "\<not> session_exists sid waiting_world" for sid by (simp add: session_exists_def waiting_world_def)
  moreover have "\<forall>call\<in>set (handler_calls 6000 (6000 + 1)) \<union> set (handler_calls 6002 (6002 + 1)). env_sys ?env call"
    by (simp add: demo_env_def)
  moreover have "length (env_rtp_buf ?env) = rtp_buf_size" "env_inet ?env ''10.0.0.2''" by (simp_all add: demo_env_def)
  moreover have "''A'' \<noteq> ''B''" by simp
  ultimately obtain st where st:
    "lock_run ?env (way_to_deadlock ''A'' ''track0'' 0 25)
      \<lparr>locked_world = waiting_world, sessions_mutex = None,
       lockers = four_requests ''A'' ''B'' ''track0'' 0 (6000, ''10.0.0.2'', 5000, 5001) (6002, ''10.0.0.3'', 5000, 5001)\<rparr> = Done st"
    "\<forall>env' es st'. lock_run env' es st = Done st' \<longrightarrow> sessions_mutex st' = Some 3 \<and>
        (\<exists>cs. lockers st' = [Served, Served, Served, Joining ''A'' ''track0'' []] @ cs \<and> list_all arriving cs)"
    using mutex_held_for_ever [OF _ _ _ waiting_file(1,2), of 0 waiting_world ?env "''A''" "''B''" 6000 6002 "''10.0.0.2''" "''track0''"
        5000 5001 "''10.0.0.3''" 5000 5001] cells by auto
  then show ?thesis by blast
qed

end
