(* ===== verification/Logger.thy ===== *)
theory Logger
  imports CppText
begin

text \<open>
  Logger.h: the names of the log files and the construction of the logger. The compile-time
  choices \<open>DUMP_LOG\<close>, \<open>MULTI_LOG\<close>, \<open>LOG_PATH\<close>, \<open>LOG_FILE_PREFIX\<close> and \<open>LOG_LEVEL\<close> are a record, the
  broken-down local time is \<open>tm\<close>. spdlog is not part of the repository: a logger is what the
  code has told it (its sinks, pattern and levels), and \<open>opens\<close> says for which sinks its
  constructor returns; where it does not, it throws \<open>spdlog_ex\<close>.
\<close>

section \<open>Time stamps\<close>

record tm =
  tm_sec :: int
  tm_min :: int
  tm_hour :: int
  tm_mday :: int
  tm_mon :: int
  tm_year :: int

definition NowDateToInt :: "tm \<Rightarrow> int" where
  "NowDateToInt p = (1900 + tm_year p) * 10000 + (tm_mon p + 1) * 100 + tm_mday p"

definition NowTimeToInt :: "tm \<Rightarrow> int" where
  "NowTimeToInt p = tm_hour p * 10000 + tm_min p * 100 + tm_sec p"

text \<open>What \<open>localtime_r\<close> fills in, for the years 1900 to 9999.\<close>

definition valid_tm :: "tm \<Rightarrow> bool" where
  "valid_tm p \<longleftrightarrow> 0 \<le> tm_sec p \<and> tm_sec p \<le> 60 \<and> 0 \<le> tm_min p \<and> tm_min p \<le> 59 \<and> 0 \<le> tm_hour p \<and> tm_hour p \<le> 23
     \<and> 1 \<le> tm_mday p \<and> tm_mday p \<le> 31 \<and> 0 \<le> tm_mon p \<and> tm_mon p \<le> 11 \<and> 0 \<le> tm_year p \<and> tm_year p \<le> 8099"

text \<open>No step of the two sums overflows an \<open>int\<close>.\<close>

lemma now_in_range:
  assumes "valid_tm p"
  shows "10000 \<le> (1900 + tm_year p) * 10000 \<and> 0 < NowDateToInt p \<and> NowDateToInt p < 2 ^ 31
    \<and> 0 \<le> NowTimeToInt p \<and> NowTimeToInt p < 2 ^ 31"
  using assms by (simp add: valid_tm_def NowDateToInt_def NowTimeToInt_def)

lemma now_date_order:
  assumes "valid_tm p" and "valid_tm q"
  shows "NowDateToInt p < NowDateToInt q \<longleftrightarrow>
    tm_year p < tm_year q \<or> tm_year p = tm_year q \<and> (tm_mon p < tm_mon q \<or> tm_mon p = tm_mon q \<and> tm_mday p < tm_mday q)"
  using assms by (auto simp: valid_tm_def NowDateToInt_def)

lemma now_time_order:
  assumes "valid_tm p" and "valid_tm q"
  shows "NowTimeToInt p < NowTimeToInt q \<longleftrightarrow>
    tm_hour p < tm_hour q \<or> tm_hour p = tm_hour q \<and> (tm_min p < tm_min q \<or> tm_min p = tm_min q \<and> tm_sec p < tm_sec q)"
  using assms by (auto simp: valid_tm_def NowTimeToInt_def)

lemma lex_order_antisym:
  fixes a b c a' b' c' :: int
  assumes "\<not> (a < a' \<or> a = a' \<and> (b < b' \<or> b = b' \<and> c < c'))" and "\<not> (a' < a \<or> a' = a \<and> (b' < b \<or> b' = b \<and> c' < c))"
  shows "a = a' \<and> b = b' \<and> c = c'"
  using assms by auto

section \<open>Levels\<close>

datatype level_enum = Level_Trace | Level_Debug | Level_Info | Level_Warn | Level_Err

definition GetLogLevel :: "string \<Rightarrow> level_enum" where
  "GetLogLevel level =
     (if level = ''trace'' then Level_Trace
      else if level = ''debug'' then Level_Debug
      else if level = ''info'' then Level_Info
      else if level = ''warn'' then Level_Warn
      else if level = ''error'' then Level_Err
      else Level_Trace)"

lemma level_names: "GetLogLevel ` {''trace'', ''debug'', ''info'', ''warn'', ''error''} = UNIV"
  by (auto simp: GetLogLevel_def image_iff intro: level_enum.exhaust)

section \<open>XLogger\<close>

record log_config =
  DUMP_LOG :: bool
  MULTI_LOG :: bool
  LOG_PATH :: string
  LOG_FILE_PREFIX :: string
  LOG_LEVEL :: string

datatype sink = Console_Sink | Basic_File_Sink string bool   \<comment> \<open>its path, and whether it truncates\<close>

record logger =
  logger_name :: string
  sinks :: "sink list"
  log_pattern :: string
  level :: level_enum
  flush_level :: level_enum

definition log_file_path :: "log_config \<Rightarrow> tm \<Rightarrow> string" where
  "log_file_path c now =
     (let file_logger_name = LOG_FILE_PREFIX c @ ''_'' @ to_string (NowDateToInt now) @ ''_'' @ to_string (NowTimeToInt now) in
      LOG_PATH c @ ''/'' @ file_logger_name @ ''.log'')"

definition log_pattern_text :: string where
  "log_pattern_text = ''%Y-%m-%d %H:%M:%S.%f <thread %t> [%^%l%$] [%@] [%!] %v''"

text \<open>
  The constructor. \<open>directories\<close> are those that exist before; \<open>mkdir_ok\<close> is the verdict of \<open>mkdir\<close>,
  whose result the code does not use. \<open>basic_logger_mt\<close> does not truncate (its default). An
  exception leaves the pointer null.
\<close>

definition x_logger :: "log_config \<Rightarrow> tm \<Rightarrow> (string \<Rightarrow> bool) \<Rightarrow> (string list \<Rightarrow> sink \<Rightarrow> bool) \<Rightarrow> string list \<Rightarrow>
    logger option \<times> string list" where
  "x_logger c now mkdir_ok opens directories =
     (let directories1 =
            (if DUMP_LOG c \<and> LOG_PATH c \<notin> set directories \<and> mkdir_ok (LOG_PATH c)
             then LOG_PATH c # directories else directories);
          (name, wanted) =
            (if DUMP_LOG c then
               (if MULTI_LOG c then (''multi_sink'', [Console_Sink, Basic_File_Sink (log_file_path c now) True])
                else (''file_logger'', [Basic_File_Sink (log_file_path c now) False]))
             else (''console_logger'', [Console_Sink])) in
      (if list_all (opens directories1) wanted
       then Some \<lparr>logger_name = name, sinks = wanted, log_pattern = log_pattern_text,
                  level = GetLogLevel (LOG_LEVEL c), flush_level = GetLogLevel (LOG_LEVEL c)\<rparr>
       else None,
       directories1))"

text \<open>
  The single object: a local static, which the first call constructs (\<open>None\<close> before). The result is
  the object's member and the static afterwards.
\<close>

definition getInstance :: "(unit \<Rightarrow> logger option) \<Rightarrow> logger option option \<Rightarrow> logger option \<times> logger option option" where
  "getInstance construct xlogger =
     (case xlogger of None \<Rightarrow> (let m = construct () in (m, Some m)) | Some m \<Rightarrow> (m, xlogger))"

definition getLogger :: "logger option \<Rightarrow> logger option" where
  "getLogger m_logger = m_logger"

text \<open>The destructor; \<open>drop_all\<close> is spdlog's, on its registry of loggers.\<close>

definition x_logger_destroy :: "('r \<Rightarrow> 'r) \<Rightarrow> 'r \<Rightarrow> 'r" where
  "x_logger_destroy drop_all registry = drop_all registry"

text \<open>Every call gets the same logger, and the configuration is looked at once.\<close>

lemma getInstance_once:
  "getInstance construct xlogger = (m, xlogger1) \<Longrightarrow> getInstance construct' xlogger1 = (m, xlogger1)"
  by (auto simp: getInstance_def Let_def split: option.splits)

text \<open>\<open>LOG_INFO(\<dots>)\<close> and the other macros call a member function of \<open>getLogger().get()\<close>.\<close>

definition log_call :: "logger option \<Rightarrow> unit result" where
  "log_call m_logger = (case m_logger of None \<Rightarrow> Inl (Undefined ''null pointer'') | Some l \<Rightarrow> Inr ())"

text \<open>A logger flushes at the level it logs at, which is the configured one.\<close>

lemma x_logger_levels:
  "fst (x_logger c now mkdir_ok opens directories) = Some l \<Longrightarrow>
   level l = GetLogLevel (LOG_LEVEL c) \<and> flush_level l = level l \<and> (Console_Sink \<in> set (sinks l) \<longleftrightarrow> \<not> DUMP_LOG c \<or> MULTI_LOG c)"
  by (auto simp: x_logger_def Let_def split: if_splits)

text \<open>
  When spdlog cannot open the file, the constructor catches the exception, and the first log
  call, which is the first statement of \<open>main\<close>, goes through a null pointer.
\<close>

lemma log_file_missing_is_fatal:
  assumes "DUMP_LOG c" and "\<And>ds truncate. \<not> opens ds (Basic_File_Sink (log_file_path c now) truncate)"
  shows "log_call (fst (x_logger c now mkdir_ok opens directories)) = Inl (Undefined ''null pointer'')"
  using assms by (simp add: log_call_def x_logger_def Let_def)

text \<open>Two starts of the server at different local times, to the second, do not share a log file.\<close>

lemma split_at_first: "x \<notin> set a \<Longrightarrow> x \<notin> set b \<Longrightarrow> a @ x # c = b @ x # d \<Longrightarrow> a = b \<and> c = d"
  by (induction a arbitrary: b) (auto simp: Cons_eq_append_conv)

lemma log_file_path_inj:
  assumes "valid_tm p" and "valid_tm q" and "log_file_path c p = log_file_path c q"
  shows "p = q"
proof -
  let ?d = "\<lambda>t. nat_to_string (nat (NowDateToInt t))" and ?t = "\<lambda>t. nat_to_string (nat (NowTimeToInt t))"
  have r: "0 < NowDateToInt p" "0 \<le> NowTimeToInt p" "0 < NowDateToInt q" "0 \<le> NowTimeToInt q"
    using now_in_range assms(1,2) by blast+
  with assms(3) have eq: "?d p @ CHR ''_'' # ?t p = ?d q @ CHR ''_'' # ?t q"
    by (simp add: log_file_path_def Let_def to_string_def)
  have no: "CHR ''_'' \<notin> set (nat_to_string n)" for n
    by (rule nat_to_string_no) (simp add: is_digit_def less_eq_char_def)
  have "?d p = ?d q" "?t p = ?t q" using split_at_first [OF no no eq] by simp_all
  then have "nat (NowDateToInt p) = nat (NowDateToInt q)" "nat (NowTimeToInt p) = nat (NowTimeToInt q)"
    by (simp_all only: nat_to_string_inj)
  then have "NowDateToInt p = NowDateToInt q" "NowTimeToInt p = NowTimeToInt q"
    using r by linarith+
  then have "tm_year p = tm_year q \<and> tm_mon p = tm_mon q \<and> tm_mday p = tm_mday q"
    "tm_hour p = tm_hour q \<and> tm_min p = tm_min q \<and> tm_sec p = tm_sec q"
    using lex_order_antisym now_date_order [OF assms(1,2)] now_date_order [OF assms(2,1)]
      now_time_order [OF assms(1,2)] now_time_order [OF assms(2,1)] by (metis less_irrefl)+
  then show ?thesis by (intro tm.equality) simp_all
qed

end
