(* ===== verification/Spec2Isabelle.thy ===== *)
theory Spec2Isabelle
  imports CircularQueueMonitor WholeFile Pacing Sockets SessionRaces ManagerRaces Deadlock Logger
begin

text \<open>
  Tiny-RTSPServer: a model of the RTSP/RTP server of src/ and its properties.

  The program. \<open>main\<close> configures media sources (files with H.264 or AAC), and runs an accept
  loop; each connection becomes a task of a thread pool, which parses RTSP requests and
  answers them. SETUP puts a track of a source into a session, with a pair of UDP ports; PLAY
  starts, for each track of the session, the track's producer thread, which reads frames from
  the file into a ring buffer shared by all sessions that play the track, and the session's
  sender thread, which takes the frames from the ring buffer and sends them as RTP packets.

  The theories, in the order of their dependence, and what they model:

  Prelude: outcomes of C++ code. A call returns (\<open>Done\<close>, \<open>Inr\<close>), waits (\<open>Wait\<close>), or fails with a
  \<open>cpp_error\<close>: an exception, \<open>std::terminate\<close>, or undefined behaviour, which is an outcome of
  the model and not a value. Bounds-checked copies; cyclic slices.
  Containers: \<open>std::map\<close> as a sorted, \<open>std::unordered_map\<close> as an unsorted association list,
  both interpretations of the locale \<open>finite_store\<close>.
  CppText, EcmaRegex: string streams, number conversion, and the ECMAScript regular expressions
  that the sources use, as the list of all matches in the order of the backtracking matcher.
  Broadcast, CircularQueue: CircularQueue.h. The locale \<open>broadcast_channel\<close> is the contract
  between a queue and its users; its lemmas are about whole runs of operations. The ring buffer
  interprets it, and refines an abstract channel operation by operation.
  CircularQueueMonitor: the same queue with sleeping threads and notifications.
  ThreadPool: ThreadPool.h/.cpp, as interleaved steps with the mutex and the condition variable. Its
  tasks are the connections' loops, so that one returns is never taken for granted.
  PortPool: PortPool.h, with the locale \<open>port_source\<close>.
  RtspMessage: RtspMessage.h/.cpp, parsing and writing.
  RtpPacket, RtpRtcpHandler, Rtcp: RtpRtcpHandler.h/.cpp: the memory layout of the packets, an
  RFC 3550/6184 receiver as the reference for the round trips, the sender, the RTCP threads.
  Sockets: constructor and destructor of the same class at the level of descriptors, and the
  account of the descriptors of a server whose handlers come and go.
  MediaTypes, MediaFile, MediaTrack, MediaSource: MediaSourceHandler.h/.cpp,
  MediaSourceManager.h/.cpp and the set-up in main.cpp. The locale \<open>frame_reader\<close> is what a
  producer needs of a reader, \<open>media_track_class\<close> what its users need of a track; both are
  interpreted on the H.264 and on the AAC code. TrackRaces: \<open>start\<close> and \<open>unregister_session\<close> of a
  track statement by statement, with several callers at once.
  Session: Session.h/.cpp and SessionManager.h/.cpp. SessionRaces: \<open>start\<close>, \<open>pause\<close> and \<open>stop\<close> of a
  session statement by statement, with several requests at once. HeapRelation, WorldInvariant: what their
  operations do to the tracks and to the world, proved once in the locales \<open>track_relation\<close> and
  \<open>world_relation\<close> for every relation between tracks that their calls respect; the instance
  that ignores all but the names is the invariant \<open>world_ok\<close>.
  Streaming: the composition of the media path, from the file over the reader, the producer, the
  ring buffer, the sender and the packetizer to the receiver: for every interleaving the client
  has a prefix of the file's frames, and all of them when the threads take turns. EndOfFile: what
  is lost when the producer is ahead at the end of the file. Pacing: how far ahead it is, by the pauses
  of the two loops.
  ConnectionHandler: ConnectionHandler.h/.cpp; ManagerRaces: the two calls that PLAY, PAUSE and TEARDOWN
  make to the SessionManager, with those of other requests in between; Deadlock: those calls and SETUP's with
  the manager's mutex, which \<open>terminate_session\<close> holds while it joins the senders; Requests: what the handlers do to the world they
  share, again in \<open>world_relation\<close>; SetupRequests: what SETUP does, what it leaves behind when it
  fails, and what a second SETUP leaves behind when the connection ends.
  RtspServer: RtspServer.h/.cpp, and the composition: a run of the whole server is a list of
  events of its threads. Its table of descriptors has the connections only; the UDP sockets and the
  files, which share the numbers, are left out (Sockets counts sockets, for handlers alone).
  FilePosition, Viewers, WholeFile: the media path inside the running server. FilePosition has two more
  instances of \<open>world_relation\<close>: every active track is somewhere in its file, and what the other
  sessions do leaves a session's own view of a track alone. Viewers carries the pipeline of
  Streaming through every event of the server, to what one client gets while others are served;
  WholeFile shows that the turns of Streaming are runs of the server.
  Logger: Logger.h, the names, levels and sinks it gives to spdlog.

  How state corresponds. A class is a record whose fields are its members (trailing underscore
  dropped); a method is a function that takes the record and returns it updated. Objects shared
  by pointer are: tracks, which live in the list \<open>heap\<close> of the \<open>library\<close> and are named by their
  index; everything else has one owner. \<open>world\<close> is the state of the two singletons with the port
  pool, \<open>conn_state\<close> what a request handler works on, \<open>server\<close> everything. A thread's handle is
  an option of the thread's position in its code. What the program reads from outside (file
  contents, the clock, random numbers, the verdicts of system calls, \<open>inet_pton\<close>, initial
  contents of buffers) are parameters, collected in \<open>env\<close> for a request.

  Granularity. An operation under a mutex is one step. \<open>CircularQueueMonitor\<close> and \<open>ThreadPool\<close>
  split such an operation where it sleeps. Producer and sender threads advance by one statement
  that touches shared state; a request is handled in one step between them. TrackRaces refines
  that for the two methods of a track that connections call without a lock, SessionRaces for the
  three methods of a session that requests call, whose members no mutex protects either,
  ManagerRaces for PLAY, PAUSE and TEARDOWN themselves, and Deadlock for \<open>terminate_session\<close>, which in the other theories
  is one step that leaves nothing locked. The first three prove that a caller without company does
  what the one-step model does, and all show which interleavings are harmless and which are not. The
  other properties say what the code does when the harmful ones do not happen. Statements are
  atomic there; what the language allows beyond that when unsynchronised accesses race is not
  modelled. The RTCP threads that PLAY starts and stops at once take no step in between; the program
  lets each go once round its loop when it is late.

  What is assumed of media files. The properties about H.264 are for files of NAL units behind start codes whose
  last byte is not zero, each with its start code at least four bytes shorter than the 512 KiB of the
  reader's buffer (\<open>wf_nal\<close>); \<open>h264_large_unit\<close> says what happens to a larger one. An ADTS frame has a header of 7 bytes, or of 9
  with a CRC (\<open>adts_frame\<close>); the reader takes all for 7.

  Bounds and fuel. \<open>run_producer\<close> has fuel 3: after \<open>is_active_\<close> is cleared a producer finishes one
  \<open>produce\<close>, one test and one \<open>set_exit\<close>; \<open>run_sender\<close> has fuel 2: a sender finishes one frame and
  one test. The lemmas \<open>stop_returns\<close> of the locale \<open>media_track_class\<close> and \<open>stop_handler_returns\<close>
  show that this is enough; \<open>Wait\<close> is left for a thread that really waits. The numbers of frames
  \<open>k\<close> in \<open>read_frames\<close> are arguments, and \<open>readers_stop\<close> gives a bound after which every reader
  has stopped; the number of \<open>turns\<close> in Streaming and WholeFile is one more than the frames that the
  reader delivers.
  All other recursion is structural or has a measure.

  Arithmetic. Fields of packets, counters and clocks are machine words of their widths; sequence
  numbers are the \<open>int\<close> of the code, whose overflow is undefined; sizes are natural numbers.

  The lemmas. Each component has its invariant (\<open>cq_wf\<close>, \<open>mon_ok\<close>, \<open>pool_ok\<close>, \<open>track_ok\<close>, \<open>library_ok\<close>,
  \<open>world_ok\<close>, \<open>server_ok\<close>) with a lemma for each operation that keeps it; equations for the
  operations on the cases that the properties need; and the properties, numbered C1 to C40, with
  a witness that applies each to a concrete state.

  Not modelled: what is logged, and spdlog; the bytes on the wire below
  \<open>send\<close>/\<open>sendto\<close>; the time that anything takes (sleeping
  is looked at in Pacing only); memory exhaustion; the empty
  classes of ErrorHandling, RequestHandlers and ResourceManager; the build files. Copying of a
  \<open>FrameData\<close> is its byte list: that its destructor uses \<open>delete\<close> for an array is not visible.
\<close>

end
